(* ===== verification/Codec.thy ===== *)
theory Codec
  imports Prelude
begin

text \<open>
  The contract of a self-delimiting encoding, shared by every wire and disk format of the
  program: what an encoder promises so that concatenated items can be taken apart again, and
  what a decoder promises on top of it.
\<close>

text \<open>Reading \<open>n\<close> items in a row.\<close>

fun decode_n :: "(bytes \<Rightarrow> ('v \<times> bytes) option) \<Rightarrow> nat \<Rightarrow> bytes \<Rightarrow> ('v list \<times> bytes) option" where
  "decode_n decode 0 bs = Some ([], bs)"
| "decode_n decode (Suc n) bs =
     (case decode bs of
        None \<Rightarrow> None
      | Some (v, r) \<Rightarrow>
          (case decode_n decode n r of None \<Rightarrow> None | Some (vs, r') \<Rightarrow> Some (v # vs, r')))"

lemma concat_prefix_inj:
  assumes "\<forall>v \<in> set vs. \<forall>w r s. ok w \<longrightarrow> enc v @ r = enc w @ s \<longrightarrow> v = w \<and> r = s"
  shows "length vs = length ws \<Longrightarrow> \<forall>w \<in> set ws. ok w \<Longrightarrow>
    concat (map enc vs) @ r = concat (map enc ws) @ s \<Longrightarrow> vs = ws \<and> r = s"
  using assms
proof (induction vs arbitrary: ws)
  case Nil
  from Nil(1) have "ws = []" by simp
  with Nil(3) show ?case by simp
next
  case (Cons v vs)
  from Cons.prems(1) obtain w ws' where ws: "ws = w # ws'" by (cases ws) auto
  have v: "\<forall>w r s. ok w \<longrightarrow> enc v @ r = enc w @ s \<longrightarrow> v = w \<and> r = s"
    and vs: "\<forall>v \<in> set vs. \<forall>w r s. ok w \<longrightarrow> enc v @ r = enc w @ s \<longrightarrow> v = w \<and> r = s"
    using Cons.prems(4) unfolding list.set ball_simps by (rule conjunct1, rule conjunct2)
  have "enc v @ concat (map enc vs) @ r = enc w @ concat (map enc ws') @ s" and "ok w"
    using Cons.prems(2,3) ws by auto
  with v have *: "v = w" "concat (map enc vs) @ r = concat (map enc ws') @ s" by blast+
  have "vs = ws' \<and> r = s"
    by (rule Cons.IH [OF _ _ *(2) vs]) (use Cons.prems(1,2) ws in auto)
  with *(1) show ?case by (simp add: ws)
qed

locale prefix_code =
  fixes enc :: "'v \<Rightarrow> bytes" and ok :: "'v \<Rightarrow> bool"
  assumes prefix_inj: "ok v \<Longrightarrow> ok w \<Longrightarrow> enc v @ r = enc w @ s \<Longrightarrow> v = w \<and> r = s"
begin

lemma enc_inj: "ok v \<Longrightarrow> ok w \<Longrightarrow> enc v = enc w \<Longrightarrow> v = w"
  using prefix_inj [of v w "[]" "[]"] by simp

text \<open>No encoding is a proper prefix of another.\<close>

lemma prefix_free: "ok v \<Longrightarrow> ok w \<Longrightarrow> enc w = enc v @ s \<Longrightarrow> s = []"
  using prefix_inj [of v w s "[]"] by simp

lemma concat_inj:
  "length vs = length ws \<Longrightarrow> \<forall>v \<in> set vs. ok v \<Longrightarrow> \<forall>w \<in> set ws. ok w \<Longrightarrow>
    concat (map enc vs) = concat (map enc ws) \<Longrightarrow> vs = ws"
  using concat_prefix_inj [of vs ok enc ws "[]" "[]"] prefix_inj by blast

end

locale stream_codec =
  fixes enc :: "'v \<Rightarrow> bytes" and ok :: "'v \<Rightarrow> bool"
    and decode :: "bytes \<Rightarrow> ('v \<times> bytes) option"
  assumes decode_enc: "ok v \<Longrightarrow> decode (enc v @ r) = Some (v, r)"
begin

lemma decode_n_concat:
  "\<forall>v \<in> set vs. ok v \<Longrightarrow> decode_n decode (length vs) (concat (map enc vs) @ r) = Some (vs, r)"
  by (induction vs) (simp_all add: decode_enc)

end

sublocale stream_codec \<subseteq> prefix_code enc ok
proof
  fix v w r s
  assume "ok v" "ok w" "enc v @ r = enc w @ s"
  then have "Some (v, r) = Some (w, s)" by (metis decode_enc)
  then show "v = w \<and> r = s" by simp
qed

end
