(* ===== verification/Ordered_Map.thy ===== *)
theory Ordered_Map
  imports Main
begin

text \<open>
  \<open>BTreeMap\<close> as the strictly sorted list of its entries: lookups, \<open>insert\<close>, \<open>retain\<close>, the update
  of every value, and the first key. Two maps in order are equal when their lookups are.
\<close>

type_synonym ('k, 'v) omap = "('k \<times> 'v) list"

definition om_ok :: "('k::linorder, 'v) omap \<Rightarrow> bool" where
  "om_ok m \<longleftrightarrow> sorted_wrt (<) (map fst m)"

definition om_get :: "('k, 'v) omap \<Rightarrow> 'k \<Rightarrow> 'v option" where
  "om_get m k = map_of m k"

fun om_insert :: "'k::linorder \<Rightarrow> 'v \<Rightarrow> ('k, 'v) omap \<Rightarrow> ('k, 'v) omap" where
  "om_insert k v [] = [(k, v)]"
| "om_insert k v (e # m) =
     (if k < fst e then (k, v) # e # m
      else if k = fst e then (k, v) # m
      else e # om_insert k v m)"

definition om_retain :: "('k \<Rightarrow> bool) \<Rightarrow> ('k, 'v) omap \<Rightarrow> ('k, 'v) omap" where
  "om_retain P m = filter (\<lambda>e. P (fst e)) m"

definition om_map :: "('v \<Rightarrow> 'w) \<Rightarrow> ('k, 'v) omap \<Rightarrow> ('k, 'w) omap" where
  "om_map f m = map (\<lambda>e. (fst e, f (snd e))) m"

definition om_first :: "('k, 'v) omap \<Rightarrow> 'k option" where
  "om_first m = (case m of [] \<Rightarrow> None | e # _ \<Rightarrow> Some (fst e))"

lemma om_ok_Nil [simp]: "om_ok []"
  by (simp add: om_ok_def)

lemma om_get_Nil [simp]: "om_get [] k = None"
  by (simp add: om_get_def)

lemma om_get_insert [simp]: "om_get (om_insert k v m) = (om_get m)(k \<mapsto> v)"
  by (induction m) (auto simp: om_get_def fun_eq_iff)

lemma keys_om_insert: "fst ` set (om_insert k v m) = insert k (fst ` set m)"
  by (induction m) auto

lemma om_ok_insert [simp]:
  assumes "om_ok m"
  shows "om_ok (om_insert k v m)"
  using assms
proof (induction m)
  case (Cons e m)
  have key: "x \<in> set (map fst (om_insert k v m)) \<longleftrightarrow> x = k \<or> x \<in> set (map fst m)" for x
    using keys_om_insert [of k v m] by auto
  from Cons.prems have e: "\<forall>x \<in> set (map fst m). fst e < x" and m: "om_ok m"
    by (simp_all add: om_ok_def)
  consider "k < fst e" | "k = fst e" | "fst e < k" by force
  then show ?case
  proof cases
    case 1
    then have "\<forall>x \<in> set (map fst m). k < x" using e by (blast intro: less_trans)
    then show ?thesis using 1 Cons.prems by (simp add: om_ok_def)
  next
    case 2
    then show ?thesis using Cons.prems by (simp add: om_ok_def)
  next
    case 3
    have "\<forall>x \<in> set (map fst (om_insert k v m)). fst e < x"
    proof
      fix x assume "x \<in> set (map fst (om_insert k v m))"
      then have "x = k \<or> x \<in> set (map fst m)" by (simp only: key)
      then show "fst e < x" using 3 e by (elim disjE) auto
    qed
    moreover have "om_insert k v (e # m) = e # om_insert k v m" using 3 by auto
    ultimately show ?thesis using Cons.IH [OF m] by (simp only: om_ok_def list.map sorted_wrt.simps)
  qed
qed (simp add: om_ok_def)

lemma om_get_retain [simp]: "om_get (om_retain P m) k = (if P k then om_get m k else None)"
  by (induction m) (auto simp: om_get_def om_retain_def)

lemma om_ok_retain [simp]: "om_ok m \<Longrightarrow> om_ok (om_retain P m)"
  unfolding om_ok_def om_retain_def sorted_wrt_map by (rule sorted_wrt_filter)

lemma om_get_map [simp]: "om_get (om_map f m) k = map_option f (om_get m k)"
  by (induction m) (auto simp: om_get_def om_map_def)

lemma om_ok_map [simp]: "om_ok (om_map f m) = om_ok m"
  by (simp add: om_ok_def om_map_def comp_def)

lemma om_distinct: "om_ok m \<Longrightarrow> distinct (map fst m)"
  unfolding om_ok_def by (rule strict_sorted_iff [THEN iffD1, THEN conjunct2])

lemma om_eqI:
  assumes "om_ok m" "om_ok n" "\<And>k. om_get m k = om_get n k"
  shows "m = n"
proof -
  have "set m = set n"
    using assms(3) map_of_inject_set [OF om_distinct [OF assms(1)] om_distinct [OF assms(2)]]
    by (simp add: om_get_def fun_eq_iff)
  moreover have "sorted_wrt (\<lambda>x y. fst x < fst y) m" "sorted_wrt (\<lambda>x y. fst x < fst y) n"
    using assms(1,2) by (simp_all add: om_ok_def sorted_wrt_map)
  ultimately show ?thesis
  proof (induction m arbitrary: n)
    case (Cons e m)
    then obtain e' n' where n: "n = e' # n'" by (cases n) auto
    have "e = e'"
    proof (rule ccontr)
      assume "e \<noteq> e'"
      with Cons.prems(1) n have "e \<in> set n'" "e' \<in> set m" by auto
      with Cons.prems(2,3) n show False by fastforce
    qed
    moreover have "e \<notin> set m" "e' \<notin> set n'" using Cons.prems(2,3) n by auto
    ultimately have "set m = set n'" using Cons.prems(1) n by auto
    then show ?case using Cons.IH [of n'] Cons.prems(2,3) n \<open>e = e'\<close> by simp
  qed simp
qed

text \<open>The first key is the least.\<close>

lemma om_first_le:
  assumes "om_ok m" "om_first m = Some k"
  shows "om_get m k \<noteq> None" and "om_get m j \<noteq> None \<Longrightarrow> k \<le> j"
proof -
  from assms(2) obtain e r where m: "m = e # r" "fst e = k"
    by (auto simp: om_first_def split: list.splits)
  then show "om_get m k \<noteq> None" by (cases e) (simp add: om_get_def)
  assume "om_get m j \<noteq> None"
  then obtain v where "(j, v) \<in> set m" by (auto simp: om_get_def dest: map_of_SomeD)
  then show "k \<le> j" using assms(1) m by (fastforce simp: om_ok_def)
qed

lemma om_first_None [simp]: "om_first m = None \<longleftrightarrow> m = []"
  by (simp add: om_first_def split: list.splits)

end
