(* ===== verification/Store.thy ===== *)
theory Store
  imports Codec Ordered_Map "HOL-Library.AList" "HOL-Library.Code_Target_Nat" "HOL-Library.List_Lexorder" "HOL-Library.Char_ord"
begin

text \<open>
  The disk-backed group store (\<open>rust/crates/atmoq/src/store.rs\<close>). The store directory is the list
  of its files in the order the operating system lists them; \<open>room\<close> is how many more bytes it
  accepts before a write fails (\<open>None\<close>: all of them) and \<open>granted\<close> whether it opens and creates
  files. \<open>BTreeMap\<close> is \<open>omap\<close>; sequences and times are \<open>u64\<close>, file offsets are natural numbers
  (a file is shorter than 2 ^ 63 bytes). Errors are returned with the state they leave behind.
\<close>

section \<open>The directory and buffered appends\<close>

record disk =
  files :: "(string \<times> bytes) list"
  room :: "nat option"
  granted :: bool

definition content :: "disk \<Rightarrow> string \<Rightarrow> bytes" where
  "content d p = (case map_of (files d) p of None \<Rightarrow> [] | Some bs \<Rightarrow> bs)"

text \<open>Appending at the physical end of a file: what fits is written, the rest is not.\<close>

definition emit :: "string \<Rightarrow> bytes \<Rightarrow> disk \<Rightarrow> disk \<times> nat" where
  "emit p bs d =
     (let n = (case room d of None \<Rightarrow> length bs | Some k \<Rightarrow> min k (length bs)) in
      (d\<lparr>files := AList.update p (content d p @ take n bs) (files d),
         room := map_option (\<lambda>k. k - n) (room d)\<rparr>, n))"

text \<open>\<open>BufWriter<File>\<close>: bytes not yet handed to the file, and its default capacity. A flush that
  fails keeps what was not written.\<close>

record buf_writer =
  wpath :: string
  wbuf :: bytes

definition BUF_CAPACITY :: nat where
  "BUF_CAPACITY = 8192"

definition flush_buf :: "disk \<Rightarrow> buf_writer \<Rightarrow> disk \<times> buf_writer \<times> bool" where
  "flush_buf d w =
     (if wbuf w = [] then (d, w, True)
      else let (d', n) = emit (wpath w) (wbuf w) d in
           (d', w\<lparr>wbuf := drop n (wbuf w)\<rparr>, n = length (wbuf w)))"

definition write_all :: "disk \<Rightarrow> buf_writer \<Rightarrow> bytes \<Rightarrow> disk \<times> buf_writer \<times> bool" where
  "write_all d w bs =
     (if length bs < BUF_CAPACITY - length (wbuf w) then (d, w\<lparr>wbuf := wbuf w @ bs\<rparr>, True)
      else
        let (d1, w1, ok) = (if length bs > BUF_CAPACITY - length (wbuf w)
                            then flush_buf d w else (d, w, True)) in
        if \<not> ok then (d1, w1, False)
        else if length bs \<ge> BUF_CAPACITY
        then let (d2, n) = emit (wpath w1) bs d1 in (d2, w1, n = length bs)
        else (d1, w1\<lparr>wbuf := wbuf w1 @ bs\<rparr>, True))"

section \<open>State\<close>

definition SEGMENT_TARGET_BYTES :: nat where
  "SEGMENT_TARGET_BYTES = 64 * 1024 * 1024"

definition V1_HEADER :: nat where "V1_HEADER = 20"
definition V2_HEADER :: nat where "V2_HEADER = 24"

definition header_size :: "bool \<Rightarrow> nat" where
  "header_size v2 = (if v2 then V2_HEADER else V1_HEADER)"

record location =
  lseg :: nat
  loff :: nat
  lms :: u64

record segment =
  spath :: string
  sfirst :: u64
  snewest :: u64
  sbytes :: nat
  sv2 :: bool

record group_location =
  gpath :: string
  goff :: nat
  gv2 :: bool

record group_store =
  segments :: "segment list"
  index :: "(u64, location) omap"
  writer :: "buf_writer option"
  max_seq :: "u64 option"
  segment_target :: nat

datatype store_error =
    OpenFailed string
  | WriteFailed
  | CreateDirFailed
  | TruncatedRecord u64
  | IndexMismatch u64 u64
  | Panic

section \<open>Reading a record\<close>

definition read_full_or_eof :: "nat \<Rightarrow> bytes \<Rightarrow> (bytes \<times> bytes) option" where
  "read_full_or_eof n cur = (if n \<le> length cur then Some (take n cur, drop n cur) else None)"

text \<open>The frames, in order; \<open>None\<close> is a torn record.\<close>

primrec read_frames :: "nat \<Rightarrow> bytes \<Rightarrow> (bytes list \<times> bytes) option" where
  "read_frames 0 cur = Some ([], cur)"
| "read_frames (Suc count) cur =
     (case read_full_or_eof 4 cur of
        None \<Rightarrow> None
      | Some (lenb, cur) \<Rightarrow>
          (case read_full_or_eof (le_val lenb) cur of
             None \<Rightarrow> None
           | Some (buf, cur) \<Rightarrow>
               (case read_frames count cur of
                  None \<Rightarrow> None
                | Some (frames, cur) \<Rightarrow> Some (buf # frames, cur))))"

type_synonym group_record = "u64 \<times> u64 \<times> bytes list"

definition le_u64 :: "bytes \<Rightarrow> u64" where
  "le_u64 bs = word_of_nat (le_val bs)"

definition read_record :: "bool \<Rightarrow> bytes \<Rightarrow> (group_record \<times> bytes) option" where
  "read_record v2 cur =
     (case read_full_or_eof (header_size v2) cur of
        None \<Rightarrow> None
      | Some (hdr, cur) \<Rightarrow>
          let seq = le_u64 (slice hdr 0 8); ms = le_u64 (slice hdr 8 16);
              count = le_val (slice hdr 16 20) in
          (case read_frames count cur of
             None \<Rightarrow> None
           | Some (frames, cur) \<Rightarrow> Some ((seq, ms, frames), cur)))"

definition read_group_at :: "disk \<Rightarrow> group_location \<Rightarrow> u64 \<Rightarrow> store_error + bytes list" where
  "read_group_at d loc seq =
     (if \<not> granted d then Inl (OpenFailed (gpath loc))
      else case map_of (files d) (gpath loc) of
        None \<Rightarrow> Inl (OpenFailed (gpath loc))
      | Some f \<Rightarrow>
          (case read_record (gv2 loc) (drop (goff loc) f) of
             None \<Rightarrow> Inl (TruncatedRecord seq)
           | Some ((found, _, frames), _) \<Rightarrow>
               if found \<noteq> seq then Inl (IndexMismatch found seq) else Inr frames))"

section \<open>Queries\<close>

definition oldest_seq :: "group_store \<Rightarrow> u64 option" where
  "oldest_seq st = om_first (index st)"

definition indexed_groups :: "group_store \<Rightarrow> nat" where
  "indexed_groups st = length (index st)"

definition total_bytes :: "group_store \<Rightarrow> nat" where
  "total_bytes st = sum_list (map sbytes (segments st))"

definition locate :: "group_store \<Rightarrow> u64 \<Rightarrow> store_error + group_location option" where
  "locate st seq =
     (case om_get (index st) seq of
        None \<Rightarrow> Inr None
      | Some loc \<Rightarrow>
          (case get_at (segments st) (lseg loc) of
             None \<Rightarrow> Inl Panic
           | Some seg \<Rightarrow> Inr (Some \<lparr>gpath = spath seg, goff = loff loc, gv2 = sv2 seg\<rparr>)))"

definition read :: "disk \<Rightarrow> group_store \<Rightarrow> u64 \<Rightarrow> store_error + bytes list option" where
  "read d st seq =
     bind_res (locate st seq) (\<lambda>l. case l of
       None \<Rightarrow> Inr None
     | Some loc \<Rightarrow> bind_res (read_group_at d loc seq) (\<lambda>frames. Inr (Some frames)))"

definition groups_since :: "group_store \<Rightarrow> u64 \<Rightarrow> u64 list" where
  "groups_since st cutoff_ms = map fst (filter (\<lambda>e. cutoff_ms \<le> lms (snd e)) (index st))"

section \<open>Appending\<close>

definition pad20 :: "string \<Rightarrow> string" where
  "pad20 s = replicate (20 - length s) (CHR ''0'') @ s"

definition segment_name :: "u64 \<Rightarrow> string" where
  "segment_name seq = pad20 (dec (unat seq)) @ ''.seg2''"

definition rotate_due :: "group_store \<Rightarrow> bool" where
  "rotate_due st =
     (case segments st of [] \<Rightarrow> True
      | _ \<Rightarrow> segment_target st \<le> sbytes (last (segments st)) \<or> \<not> sv2 (last (segments st)))"

text \<open>Taking the old writer flushes it; dropping it flushes it once more, ignoring errors.\<close>

definition take_writer :: "disk \<Rightarrow> group_store \<Rightarrow> disk \<times> group_store \<times> bool" where
  "take_writer d st =
     (case writer st of
        None \<Rightarrow> (d, st, True)
      | Some w \<Rightarrow>
          let (d1, w1, ok) = flush_buf d w; (d2, _, _) = flush_buf d1 w1 in
          (d2, st\<lparr>writer := None\<rparr>, ok))"

definition ensure_writer ::
    "u64 \<Rightarrow> disk \<Rightarrow> group_store \<Rightarrow> (disk \<times> group_store) \<times> (store_error + unit)" where
  "ensure_writer next_seq d st =
     (if rotate_due st then
        let (d, st, ok) = take_writer d st; path = segment_name next_seq in
        if \<not> ok then ((d, st), Inl WriteFailed)
        else if \<not> granted d then ((d, st), Inl (OpenFailed path))
        else
          ((d\<lparr>files := AList.update path (content d path) (files d)\<rparr>,
            st\<lparr>segments := segments st @
                  [\<lparr>spath = path, sfirst = next_seq, snewest = 0, sbytes = 0, sv2 = True\<rparr>],
               writer := Some \<lparr>wpath = path, wbuf = []\<rparr>\<rparr>), Inr ())
      else if writer st = None then
        let path = spath (last (segments st)) in
        if \<not> granted d \<or> map_of (files d) path = None then ((d, st), Inl (OpenFailed path))
        else ((d, st\<lparr>writer := Some \<lparr>wpath = path, wbuf = []\<rparr>\<rparr>), Inr ())
      else ((d, st), Inr ()))"

definition frames_body :: "bytes list \<Rightarrow> bytes" where
  "frames_body frames = concat (map (\<lambda>f. le_bytes 4 (length f) @ f) frames)"

definition record_bytes :: "u64 \<Rightarrow> u64 \<Rightarrow> bytes list \<Rightarrow> bytes" where
  "record_bytes seq created_ms frames =
     (let body_len = sum_list (map (\<lambda>f. 4 + length f) frames) in
      le_bytes 8 (unat seq) @ le_bytes 8 (unat created_ms) @ le_bytes 4 (length frames) @
      le_bytes 4 body_len @ frames_body frames)"

text \<open>\<open>write_all\<close> and \<open>flush\<close> on the writer; the store's own state changes only after both.\<close>

definition append_group ::
    "u64 \<Rightarrow> u64 \<Rightarrow> bytes list \<Rightarrow> disk \<Rightarrow> group_store \<Rightarrow> (disk \<times> group_store) \<times> (store_error + unit)" where
  "append_group seq created_ms frames d st =
     (case ensure_writer seq d st of
        ((d, st), Inl e) \<Rightarrow> ((d, st), Inl e)
      | ((d, st), Inr _) \<Rightarrow>
          let seg_idx = length (segments st) - 1;
              offset = sbytes (segments st ! seg_idx);
              bs = record_bytes seq created_ms frames in
          (case writer st of
             None \<Rightarrow> ((d, st), Inl Panic)
           | Some w \<Rightarrow>
               let (d, w, ok) = write_all d w bs in
               if \<not> ok then ((d, st\<lparr>writer := Some w\<rparr>), Inl WriteFailed)
               else
                 let (d, w, ok) = flush_buf d w; st = st\<lparr>writer := Some w\<rparr> in
                 if \<not> ok then ((d, st), Inl WriteFailed)
                 else
                   ((d, st\<lparr>
                      segments := (segments st)[seg_idx := (segments st ! seg_idx)
                        \<lparr>sbytes := offset + length bs, snewest := created_ms\<rparr>],
                      index := om_insert seq
                        \<lparr>lseg = seg_idx, loff = offset, lms = created_ms\<rparr> (index st),
                      max_seq := Some (case max_seq st of None \<Rightarrow> seq | Some m \<Rightarrow> max m seq)\<rparr>),
                    Inr ())))"

section \<open>Garbage collection\<close>

text \<open>\<open>seg.newest_ms < cutoff_ms\<close>, or too many bytes; the loop ends at the last segment.\<close>

definition gc_due :: "u64 \<Rightarrow> nat \<Rightarrow> nat \<Rightarrow> segment \<Rightarrow> bool" where
  "gc_due cutoff_ms max_bytes tot seg \<longleftrightarrow>
     snewest seg < cutoff_ms \<or> (max_bytes > 0 \<and> tot > max_bytes)"

definition gc_index :: "u64 \<Rightarrow> u64 \<Rightarrow> (u64, location) omap \<Rightarrow> (u64, location) omap" where
  "gc_index first next_first idx =
     om_map (\<lambda>loc. loc\<lparr>lseg := lseg loc - 1\<rparr>)
       (om_retain (\<lambda>seq. seq < first \<or> next_first \<le> seq) idx)"

fun gc_loop :: "u64 \<Rightarrow> nat \<Rightarrow> nat \<Rightarrow> disk \<Rightarrow> segment list \<Rightarrow> (u64, location) omap \<Rightarrow>
    disk \<times> segment list \<times> (u64, location) omap \<times> nat" where
  "gc_loop cutoff_ms max_bytes tot d (seg # seg' # segs) idx =
     (if \<not> gc_due cutoff_ms max_bytes tot seg then (d, seg # seg' # segs, idx, 0)
      else
        let (d, segs, idx, removed) =
          gc_loop cutoff_ms max_bytes (tot - sbytes seg)
            (d\<lparr>files := AList.delete (spath seg) (files d)\<rparr>) (seg' # segs)
            (gc_index (sfirst seg) (sfirst seg') idx) in
        (d, segs, idx, removed + 1))"
| "gc_loop cutoff_ms max_bytes tot d segs idx = (d, segs, idx, 0)"

definition gc :: "u64 \<Rightarrow> nat \<Rightarrow> disk \<Rightarrow> group_store \<Rightarrow> disk \<times> group_store \<times> nat" where
  "gc cutoff_ms max_bytes d st =
     (let (d, segs, idx, removed) =
        gc_loop cutoff_ms max_bytes (total_bytes st) d (segments st) (index st) in
      (d, st\<lparr>segments := segs, index := idx\<rparr>, removed))"

section \<open>Opening\<close>

text \<open>\<open>Path::file_stem\<close> and \<open>Path::extension\<close>: the name up to its last dot and behind it; a dot
  in front of the whole name does not count.\<close>

definition split_name :: "string \<Rightarrow> string \<times> string option" where
  "split_name name =
     (let after = takeWhile (\<lambda>c. c \<noteq> CHR ''.'') (rev name);
          front = drop (length after + 1) (rev name) in
      if length after = length name \<or> front = [] then (name, None)
      else (rev front, Some (rev after)))"

definition file_stem :: "string \<Rightarrow> string" where
  "file_stem name = fst (split_name name)"

definition is_segment_file :: "string \<Rightarrow> bool" where
  "is_segment_file name \<longleftrightarrow> snd (split_name name) = Some ''seg'' \<or> snd (split_name name) = Some ''seg2''"

definition is_v2 :: "string \<Rightarrow> bool" where
  "is_v2 name \<longleftrightarrow> snd (split_name name) = Some ''seg2''"

text \<open>The extent of a version 1 body: \<open>cursor\<close> walks over \<open>count\<close> frames of a file of \<open>len\<close>
  bytes; \<open>None\<close> when it runs past the end.\<close>

primrec walk_v1_body :: "bytes \<Rightarrow> nat \<Rightarrow> nat \<Rightarrow> nat \<Rightarrow> nat option" where
  "walk_v1_body data 0 body_start cursor = Some (cursor - body_start)"
| "walk_v1_body data (Suc count) body_start cursor =
     (if length data < cursor + 4 then None
      else
        let n = le_val (slice data cursor (cursor + 4)) in
        if length data < cursor + 4 + n then None
        else walk_v1_body data count body_start (cursor + 4 + n))"

text \<open>The length of the body behind the header at \<open>offset\<close>, or \<open>None\<close> where it is torn.\<close>

definition body_length :: "bool \<Rightarrow> bytes \<Rightarrow> nat \<Rightarrow> nat option" where
  "body_length v2 data offset =
     (if v2 then
        let claimed = le_val (slice data (offset + 20) (offset + 24)) in
        if length data < offset + V2_HEADER + claimed then None else Some claimed
      else
        walk_v1_body data (le_val (slice data (offset + 16) (offset + 20)))
          (offset + V1_HEADER) (offset + V1_HEADER))"

record scan_state =
  soffset :: nat
  sfirst_seq :: "u64 option"
  snewest_ms :: u64
  sindex :: "(u64, location) omap"
  smax :: "u64 option"

function scan_records :: "bool \<Rightarrow> bytes \<Rightarrow> nat \<Rightarrow> scan_state \<Rightarrow> scan_state" where
  "scan_records v2 data seg_idx s =
     (let offset = soffset s in
      if length data < offset + header_size v2 then s
      else
        let seq = le_u64 (slice data offset (offset + 8));
            ms = le_u64 (slice data (offset + 8) (offset + 16)) in
        case body_length v2 data offset of
          None \<Rightarrow> s
        | Some body_len \<Rightarrow>
            scan_records v2 data seg_idx
              \<lparr>soffset = offset + header_size v2 + body_len,
               sfirst_seq = (case sfirst_seq s of None \<Rightarrow> Some seq | Some f \<Rightarrow> Some f),
               snewest_ms = ms,
               sindex = om_insert seq \<lparr>lseg = seg_idx, loff = offset, lms = ms\<rparr> (sindex s),
               smax = Some (case smax s of None \<Rightarrow> seq | Some m \<Rightarrow> max m seq)\<rparr>)"
  by pat_completeness auto
termination
  by (relation "measure (\<lambda>(v2, data, seg_idx, s). length data - soffset s)")
    (auto simp: header_size_def V1_HEADER_def V2_HEADER_def split: if_splits)

declare scan_records.simps [simp del]

text \<open>One file: scan it, cut a torn tail off, and add the segment.\<close>

definition scan_file :: "string \<Rightarrow> disk \<Rightarrow> group_store \<Rightarrow> (disk \<times> group_store) \<times> (store_error + unit)" where
  "scan_file path d st =
     (if \<not> granted d \<or> map_of (files d) path = None then ((d, st), Inl (OpenFailed path))
      else
        let v2 = is_v2 path; data = content d path;
            s = scan_records v2 data (length (segments st))
              \<lparr>soffset = 0, sfirst_seq = None, snewest_ms = 0, sindex = index st, smax = max_seq st\<rparr>;
            d = (if soffset s < length data
                 then d\<lparr>files := AList.update path (take (soffset s) data) (files d)\<rparr> else d) in
        ((d, st\<lparr>
            segments := segments st @
              [\<lparr>spath = path, sfirst = (case sfirst_seq s of None \<Rightarrow> 0 | Some f \<Rightarrow> f),
                snewest = snewest_ms s, sbytes = soffset s, sv2 = v2\<rparr>],
            index := sindex s, max_seq := smax s\<rparr>), Inr ()))"

fun scan_paths :: "string list \<Rightarrow> disk \<Rightarrow> group_store \<Rightarrow> (disk \<times> group_store) \<times> (store_error + unit)" where
  "scan_paths [] d st = ((d, st), Inr ())"
| "scan_paths (path # paths) d st =
     (case scan_file path d st of
        ((d, st), Inl e) \<Rightarrow> ((d, st), Inl e)
      | ((d, st), Inr _) \<Rightarrow> scan_paths paths d st)"

definition scan :: "disk \<Rightarrow> group_store \<Rightarrow> (disk \<times> group_store) \<times> (store_error + unit)" where
  "scan d st =
     scan_paths (sort_key file_stem (filter is_segment_file (map fst (files d)))) d st"

definition open_with_segment_target :: "nat \<Rightarrow> disk \<Rightarrow> disk \<times> (store_error + group_store)" where
  "open_with_segment_target target d =
     (if \<not> granted d then (d, Inl CreateDirFailed)
      else case scan d \<lparr>segments = [], index = [], writer = None, max_seq = None,
                        segment_target = target\<rparr> of
        ((d, st), Inl e) \<Rightarrow> (d, Inl e)
      | ((d, st), Inr _) \<Rightarrow> (d, Inr st))"

definition open_store :: "disk \<Rightarrow> disk \<times> (store_error + group_store)" where
  "open_store d = open_with_segment_target SEGMENT_TARGET_BYTES d"

end
