(* ===== verification/Metrics.thy ===== *)
theory Metrics
  imports Prelude
begin

text \<open>
  Process metrics (\<open>rust/crates/atmoq/src/metrics.rs\<close>): atomic counters and gauges as fields of a
  record, the derived values, and the text exposition. The clock, the process and allocator
  gauges, the in-flight counters of the transport and the rendering of an age in seconds with three
  decimals come from outside and are arguments. \<open>fetch_add\<close> wraps like \<open>u64\<close> addition.
\<close>

section \<open>Counters\<close>

record metrics =
  m_frames_total :: u64
  m_frames_rejected_total :: u64
  m_frames_dropped_below_cursor_total :: u64
  m_upstream_error_frames_total :: u64
  m_upstream_connects_total :: u64
  m_upstream_seq :: int
  m_last_frame_unix_ms :: u64
  m_groups_total :: u64
  m_group_seq :: u64
  m_subscribers_connected_total :: u64
  m_subscribers_disconnected_total :: u64
  m_subscribers_rejected_total :: u64
  m_did_tracks_opened_total :: u64
  m_did_tracks_closed_total :: u64
  m_did_tracks_refused_total :: u64
  m_store_append_bytes_total :: u64
  m_store_append_failures_total :: u64
  m_store_groups_indexed :: u64
  m_store_bytes :: u64
  m_store_gc_segments_removed_total :: u64
  m_backfill_groups_served_total :: u64
  m_backfill_groups_missing_total :: u64

definition metrics_default :: metrics where
  "metrics_default =
    \<lparr>m_frames_total = 0, m_frames_rejected_total = 0, m_frames_dropped_below_cursor_total =
     0, m_upstream_error_frames_total = 0, m_upstream_connects_total = 0, m_upstream_seq = 0,
     m_last_frame_unix_ms = 0, m_groups_total = 0, m_group_seq = 0,
     m_subscribers_connected_total = 0, m_subscribers_disconnected_total = 0,
     m_subscribers_rejected_total = 0, m_did_tracks_opened_total = 0,
     m_did_tracks_closed_total = 0, m_did_tracks_refused_total = 0,
     m_store_append_bytes_total = 0, m_store_append_failures_total = 0,
     m_store_groups_indexed = 0, m_store_bytes = 0, m_store_gc_segments_removed_total = 0,
     m_backfill_groups_served_total = 0, m_backfill_groups_missing_total = 0\<rparr>"

definition sat_sub :: "u64 \<Rightarrow> u64 \<Rightarrow> u64" where
  "sat_sub a b = (if b \<le> a then a - b else 0)"

definition record_frame :: "u64 \<Rightarrow> int option \<Rightarrow> metrics \<Rightarrow> metrics" where
  "record_frame now_ms seq m =
     (let m = m\<lparr>m_frames_total := m_frames_total m + 1\<rparr>;
          m = (case seq of None \<Rightarrow> m | Some s \<Rightarrow> m\<lparr>m_upstream_seq := s\<rparr>) in
      m\<lparr>m_last_frame_unix_ms := now_ms\<rparr>)"

definition subscribers_live :: "metrics \<Rightarrow> u64" where
  "subscribers_live m = sat_sub (m_subscribers_connected_total m) (m_subscribers_disconnected_total m)"

definition did_tracks_live :: "metrics \<Rightarrow> u64" where
  "did_tracks_live m = sat_sub (m_did_tracks_opened_total m) (m_did_tracks_closed_total m)"

definition frame_age_ms :: "u64 \<Rightarrow> metrics \<Rightarrow> u64 option" where
  "frame_age_ms now_ms m =
     (if m_last_frame_unix_ms m = 0 then None else Some (sat_sub now_ms (m_last_frame_unix_ms m)))"

section \<open>Exposition\<close>

datatype kind = Counter | Gauge

definition kind_text :: "kind \<Rightarrow> string" where
  "kind_text k = (case k of Counter \<Rightarrow> ''counter'' | Gauge \<Rightarrow> ''gauge'')"

definition newline :: string where
  "newline = [CHR 0x0A]"

text \<open>Decimal text of a signed number.\<close>

definition dec_int :: "int \<Rightarrow> string" where
  "dec_int i = (if i < 0 then CHR ''-'' # dec (nat (- i)) else dec (nat i))"

definition series_text :: "string \<Rightarrow> kind \<Rightarrow> string \<Rightarrow> string \<Rightarrow> string" where
  "series_text name kind help v =
     ''# HELP atmoq_'' @ name @ '' '' @ help @ newline @
     ''# TYPE atmoq_'' @ name @ '' '' @ kind_text kind @ newline @
     ''atmoq_'' @ name @ '' '' @ v @ newline"

definition series :: "metrics \<Rightarrow> (string \<times> kind \<times> string \<times> u64) list" where
  "series m =
    [(''frames_total'', Counter, ''Frames relayed downstream.'', m_frames_total m),
     (''frames_rejected_total'', Counter, ''Frames rejected at ingest as invalid.'', m_frames_rejected_total m),
     (''frames_dropped_below_cursor_total'', Counter, ''Frames dropped as at-or-below the cursor.'', m_frames_dropped_below_cursor_total m),
     (''upstream_error_frames_total'', Counter, ''Upstream error frames received.'', m_upstream_error_frames_total m),
     (''upstream_connects_total'', Counter, ''Upstream websocket connections opened.'', m_upstream_connects_total m),
     (''groups_total'', Counter, ''MoQ groups completed and published.'', m_groups_total m),
     (''group_seq'', Gauge, ''Sequence of the most recent MoQ group.'', m_group_seq m),
     (''subscribers_connected_total'', Counter, ''Subscriber sessions accepted.'', m_subscribers_connected_total m),
     (''subscribers_disconnected_total'', Counter, ''Subscriber sessions closed.'', m_subscribers_disconnected_total m),
     (''subscribers_rejected_total'', Counter, ''Subscriber sessions rejected during setup.'', m_subscribers_rejected_total m),
     (''subscribers_live'', Gauge, ''Subscriber sessions currently connected.'', subscribers_live m),
     (''did_tracks_opened_total'', Counter, ''Per-DID tracks materialized.'', m_did_tracks_opened_total m),
     (''did_tracks_closed_total'', Counter, ''Per-DID tracks torn down.'', m_did_tracks_closed_total m),
     (''did_tracks_refused_total'', Counter, ''Per-DID track requests refused at the cap.'', m_did_tracks_refused_total m),
     (''did_tracks_live'', Gauge, ''Per-DID tracks currently served.'', did_tracks_live m),
     (''store_append_bytes_total'', Counter, ''Bytes appended to the group store.'', m_store_append_bytes_total m),
     (''store_append_failures_total'', Counter, ''Group store appends that failed.'', m_store_append_failures_total m),
     (''store_groups_indexed'', Gauge, ''Groups currently in the store index.'', m_store_groups_indexed m),
     (''store_bytes'', Gauge, ''Group store size on disk in bytes.'', m_store_bytes m),
     (''store_gc_segments_removed_total'', Counter, ''Store segments deleted by GC.'', m_store_gc_segments_removed_total m),
     (''backfill_groups_served_total'', Counter, ''Groups served from disk to resuming subscribers.'', m_backfill_groups_served_total m),
     (''backfill_groups_missing_total'', Counter, ''Groups requested on resume that the store no longer had.'', m_backfill_groups_missing_total m)]"

record outside =
  in_flight :: nat
  in_flight_max :: nat
  o_heap :: "(nat \<times> nat \<times> nat \<times> nat \<times> nat) option"
  o_rss :: "nat option"
  o_seconds :: "u64 \<Rightarrow> string"

definition encode :: "outside \<Rightarrow> u64 \<Rightarrow> metrics \<Rightarrow> string" where
  "encode out now_ms m =
     concat (map (\<lambda>(name, kind, help, v). series_text name kind help (dec (unat v))) (series m)) @
     series_text ''groups_in_flight'' Gauge ''Groups queued for delivery to subscribers.'' (dec (in_flight out)) @
     series_text ''groups_in_flight_max'' Gauge ''High-water mark of groups queued for delivery.''
       (dec (in_flight_max out)) @
     series_text ''upstream_seq'' Gauge ''Latest upstream sequence number seen.'' (dec_int (m_upstream_seq m)) @
     (case frame_age_ms now_ms m of
        None \<Rightarrow> []
      | Some age \<Rightarrow>
          series_text ''last_frame_age_seconds'' Gauge ''Seconds since the last relayed frame.'' (o_seconds out age)) @
     (case o_heap out of
        None \<Rightarrow> []
      | Some (allocated, active, resident, mapped, retained) \<Rightarrow>
          series_text ''jemalloc_allocated_bytes'' Gauge ''Bytes currently allocated to the application.''
            (dec allocated) @
          series_text ''jemalloc_active_bytes'' Gauge ''Bytes in active pages backing allocations.'' (dec active) @
          series_text ''jemalloc_resident_bytes'' Gauge ''Bytes the allocator holds resident from the OS.''
            (dec resident) @
          series_text ''jemalloc_mapped_bytes'' Gauge ''Bytes mapped into the address space.'' (dec mapped) @
          series_text ''jemalloc_retained_bytes'' Gauge ''Bytes unmapped but retained for reuse.'' (dec retained)) @
     (case o_rss out of
        None \<Rightarrow> []
      | Some r \<Rightarrow> series_text ''process_resident_bytes'' Gauge ''Process resident set size.'' (dec r))"

lemma sat_sub_simps [simp]: "sat_sub a a = 0" "sat_sub a 0 = a"
  by (simp_all add: sat_sub_def)

lemma unat_sat_sub: "unat (sat_sub a b) = unat a - unat b"
  by (auto simp: sat_sub_def word_le_nat_alt unat_sub)

end
