(* ===== verification/State_Files.thy ===== *)
theory State_Files
  imports Store Utf8 Metrics
begin

text \<open>
  The small state files of a relay (\<open>rust/crates/atmoq/src/main.rs\<close>): the group sequence and the
  upstream cursor, written as decimal text with a line feed through a temporary file and a rename,
  read back with surrounding white space removed. They may lie in the store's directory.
\<close>

section \<open>Text\<close>

definition of_text :: "string \<Rightarrow> bytes" where
  "of_text s = map (\<lambda>c. word_of_nat (of_char c)) s"

definition to_text :: "bytes \<Rightarrow> string" where
  "to_text bs = map (\<lambda>b. char_of (unat b)) bs"

text \<open>The UTF-8 encodings of the characters \<open>str::trim\<close> removes (Unicode \<open>White_Space\<close>).\<close>

definition white_space :: "bytes list" where
  "white_space =
     map (\<lambda>b. [b]) [0x09, 0x0A, 0x0B, 0x0C, 0x0D, 0x20] @
     [[0xC2, 0x85], [0xC2, 0xA0], [0xE1, 0x9A, 0x80]] @
     map (\<lambda>b. [0xE2, 0x80, b])
       [0x80, 0x81, 0x82, 0x83, 0x84, 0x85, 0x86, 0x87, 0x88, 0x89, 0x8A, 0xA8, 0xA9, 0xAF] @
     [[0xE2, 0x81, 0x9F], [0xE3, 0x80, 0x80]]"

definition is_prefix :: "'a list \<Rightarrow> 'a list \<Rightarrow> bool" where
  "is_prefix p xs \<longleftrightarrow> take (length p) xs = p"

function strip :: "bytes list \<Rightarrow> bytes \<Rightarrow> bytes" where
  "strip pats bs =
     (case find (\<lambda>p. p \<noteq> [] \<and> is_prefix p bs) pats of
        None \<Rightarrow> bs
      | Some p \<Rightarrow> strip pats (drop (length p) bs))"
  by pat_completeness auto
termination
proof (relation "measure (\<lambda>(pats, bs). length bs)", goal_cases)
  case 1
  show ?case by simp
next
  case (2 pats bs p)
  then have "p \<noteq> []" "is_prefix p bs"
    by (auto simp: find_Some_iff)
  then have "bs \<noteq> []" "length p > 0"
    by (auto simp: is_prefix_def)
  then show ?case by simp
qed

declare strip.simps [simp del]

definition trim :: "bytes \<Rightarrow> bytes" where
  "trim bs = rev (strip (map rev white_space) (rev (strip white_space bs)))"

text \<open>\<open>str::parse\<close> for unsigned and signed 64-bit numbers: a sign, then at least one digit, and the
  value in range.\<close>

definition digits :: "string \<Rightarrow> nat option" where
  "digits s = (if s = [] then None else digits_val 0 s)"

definition parse_u64 :: "string \<Rightarrow> u64 option" where
  "parse_u64 s =
     (case digits (case s of c # cs \<Rightarrow> if c = CHR ''+'' then cs else s | [] \<Rightarrow> s) of
        None \<Rightarrow> None
      | Some n \<Rightarrow> if n < 2 ^ 64 then Some (word_of_nat n) else None)"

definition parse_i64 :: "string \<Rightarrow> int option" where
  "parse_i64 s =
     (case s of
        c # cs \<Rightarrow>
          if c = CHR ''-'' then
            (case digits cs of None \<Rightarrow> None | Some n \<Rightarrow> if n \<le> 2 ^ 63 then Some (- int n) else None)
          else
            (case digits (if c = CHR ''+'' then cs else s) of
               None \<Rightarrow> None | Some n \<Rightarrow> if n < 2 ^ 63 then Some (int n) else None)
      | [] \<Rightarrow> None)"

section \<open>Files\<close>

definition read_to_string :: "disk \<Rightarrow> string \<Rightarrow> bytes option" where
  "read_to_string d path =
     (if \<not> granted d then None
      else case map_of (files d) path of
        None \<Rightarrow> None
      | Some bs \<Rightarrow> if utf8_valid bs then Some bs else None)"

definition load_group_seq :: "disk \<Rightarrow> string option \<Rightarrow> u64 option" where
  "load_group_seq d path =
     (case path of
        None \<Rightarrow> None
      | Some p \<Rightarrow>
          (case read_to_string d p of
             None \<Rightarrow> None
           | Some bs \<Rightarrow> parse_u64 (to_text (trim bs))))"

text \<open>\<open>with_extension("tmp")\<close>.\<close>

definition tmp_name :: "string \<Rightarrow> string" where
  "tmp_name path = file_stem path @ ''.tmp''"

text \<open>\<open>fs::write\<close> creates or truncates the temporary file; only a complete one is renamed over the
  target.\<close>

definition write_state_file :: "string \<Rightarrow> string \<Rightarrow> disk \<Rightarrow> disk \<times> bool" where
  "write_state_file path contents d =
     (let tmp = tmp_name path in
      if \<not> granted d then (d, False)
      else
        let (d, n) = emit tmp (of_text contents) (d\<lparr>files := AList.update tmp [] (files d)\<rparr>) in
        if n \<noteq> length contents then (d, False)
        else (d\<lparr>files := AList.update path (content d tmp) (AList.delete tmp (files d))\<rparr>, True))"

definition persist_group_seq :: "string option \<Rightarrow> u64 \<Rightarrow> disk \<Rightarrow> disk" where
  "persist_group_seq path seq d =
     (case path of None \<Rightarrow> d | Some p \<Rightarrow> fst (write_state_file p (dec (unat seq) @ newline) d))"

definition load_initial_cursor :: "disk \<Rightarrow> string option \<Rightarrow> int option \<Rightarrow> int" where
  "load_initial_cursor d cursor_file cursor =
     (let initial =
        (case cursor_file of
           None \<Rightarrow> cursor
         | Some p \<Rightarrow>
             (case read_to_string d p of
                None \<Rightarrow> cursor
              | Some bs \<Rightarrow>
                  (case parse_i64 (to_text (trim bs)) of None \<Rightarrow> cursor | Some c \<Rightarrow> Some c))) in
      case initial of None \<Rightarrow> - 1 | Some c \<Rightarrow> c)"

definition persist_cursor :: "string option \<Rightarrow> int \<Rightarrow> disk \<Rightarrow> disk" where
  "persist_cursor path seq d =
     (case path of
        None \<Rightarrow> d
      | Some p \<Rightarrow> if seq < 0 then d else fst (write_state_file p (dec_int seq @ newline) d))"

end
