(* ===== verification/Group_Cache.thy ===== *)
theory Group_Cache
  imports Prelude "HOL-Library.Code_Target_Nat"
begin

text \<open>
  A group of frames in memory (\<open>rust/vendor/moq-net/src/model/group.rs\<close>): frames are appended at
  the back and evicted at the front once the group holds too many bytes or frames; consumers
  address them by their index since the group began. The channel (\<open>kio\<close>) around the state is
  the flag \<open>gclosed\<close>: writing to a closed channel fails, and a consumer of a closed channel that
  is not served from the state sees the abort error. \<open>Poll\<close> is a datatype. A frame is written
  whole (\<open>write_frame\<close>); chunked frames are not modelled.
\<close>

datatype moq_error = Closed | Duplicate | BoundsExceeded | CacheFull | Dropped | Cancelled

datatype 'a poll = Pending | Ready 'a

definition MAX_GROUP_CACHE :: nat where
  "MAX_GROUP_CACHE = 32 * 1024 * 1024"

definition MAX_GROUP_FRAMES :: nat where
  "MAX_GROUP_FRAMES = 1024"

record group =
  gframes :: "bytes list"
  goffset :: nat
  gcache :: nat
  gfin :: bool
  gabort :: "moq_error option"
  gclosed :: bool

definition group_new :: group where
  "group_new = \<lparr>gframes = [], goffset = 0, gcache = 0, gfin = False, gabort = None, gclosed = False\<rparr>"

section \<open>State\<close>

definition group_poll_get_frame :: "group \<Rightarrow> nat \<Rightarrow> (moq_error + bytes option) poll" where
  "group_poll_get_frame g i =
     (if i < goffset g then Ready (Inl CacheFull)
      else case get_at (gframes g) (i - goffset g) of
        Some frame \<Rightarrow> Ready (Inr (Some frame))
      | None \<Rightarrow>
          if gfin g then Ready (Inr None)
          else case gabort g of Some e \<Rightarrow> Ready (Inl e) | None \<Rightarrow> Pending)"

definition group_poll_finished :: "group \<Rightarrow> (moq_error + nat) poll" where
  "group_poll_finished g =
     (if gfin g then Ready (Inr (goffset g + length (gframes g)))
      else case gabort g of Some e \<Rightarrow> Ready (Inl e) | None \<Rightarrow> Pending)"

fun evict_loop :: "bytes list \<Rightarrow> nat \<Rightarrow> nat \<Rightarrow> bytes list \<times> nat \<times> nat" where
  "evict_loop frames cache offset =
     (if cache > MAX_GROUP_CACHE \<or> length frames > MAX_GROUP_FRAMES then
        case frames of
          [] \<Rightarrow> (frames, cache, offset)
        | frame # rest \<Rightarrow> evict_loop rest (cache - length frame) (offset + 1)
      else (frames, cache, offset))"

declare evict_loop.simps [simp del]

definition group_evict :: "group \<Rightarrow> group" where
  "group_evict g =
     (case evict_loop (gframes g) (gcache g) (goffset g) of
        (frames, cache, offset) \<Rightarrow> g\<lparr>gframes := frames, gcache := cache, goffset := offset\<rparr>)"

section \<open>Producer\<close>

definition group_modify :: "group \<Rightarrow> (group \<Rightarrow> moq_error + group) \<Rightarrow> moq_error + group" where
  "group_modify g f =
     (if gclosed g then Inl (case gabort g of Some e \<Rightarrow> e | None \<Rightarrow> Dropped) else f g)"

definition append_frame :: "bytes \<Rightarrow> group \<Rightarrow> moq_error + group" where
  "append_frame frame g =
     group_modify g (\<lambda>g.
       if gfin g then Inl Closed
       else Inr (group_evict (g\<lparr>gcache := gcache g + length frame, gframes := gframes g @ [frame]\<rparr>)))"

definition write_frame :: "bytes \<Rightarrow> group \<Rightarrow> moq_error + group" where
  "write_frame data g = append_frame data g"

definition frame_count :: "group \<Rightarrow> nat" where
  "frame_count g = goffset g + length (gframes g)"

definition group_finish :: "group \<Rightarrow> moq_error + group" where
  "group_finish g = group_modify g (\<lambda>g. Inr (g\<lparr>gfin := True\<rparr>))"

definition group_abort :: "moq_error \<Rightarrow> group \<Rightarrow> moq_error + group" where
  "group_abort e g = group_modify g (\<lambda>g. Inr (g\<lparr>gabort := Some e, gclosed := True\<rparr>))"

section \<open>Consumer\<close>

text \<open>A consumer is its index; polling it returns the next frame and advances it. A closed channel
  turns \<open>Pending\<close> into the abort error.\<close>

definition group_poll :: "group \<Rightarrow> (moq_error + 'a) poll \<Rightarrow> (moq_error + 'a) poll" where
  "group_poll g r =
     (case r of
        Pending \<Rightarrow> if gclosed g then Ready (Inl (case gabort g of Some e \<Rightarrow> e | None \<Rightarrow> Dropped)) else Pending
      | Ready x \<Rightarrow> Ready x)"

definition group_read_frame :: "group \<Rightarrow> nat \<Rightarrow> (moq_error + bytes option) poll \<times> nat" where
  "group_read_frame g i =
     (case group_poll g (group_poll_get_frame g i) of
        Ready (Inr (Some frame)) \<Rightarrow> (Ready (Inr (Some frame)), i + 1)
      | r \<Rightarrow> (r, i))"

section \<open>What a group holds\<close>

text \<open>\<open>hist\<close> are the frames ever written: the group caches a suffix of them within its limits.\<close>

definition group_ok :: "bytes list \<Rightarrow> group \<Rightarrow> bool" where
  "group_ok hist g \<longleftrightarrow>
     goffset g \<le> length hist \<and> gframes g = drop (goffset g) hist \<and>
     gcache g = sum_list (map length (gframes g)) \<and>
     gcache g \<le> MAX_GROUP_CACHE \<and> length (gframes g) \<le> MAX_GROUP_FRAMES"

lemma group_ok_new [simp]: "group_ok [] group_new"
  by (simp add: group_ok_def group_new_def)

lemma group_new_simps [simp]:
  "gframes group_new = []" "goffset group_new = 0" "\<not> gclosed group_new" "\<not> gfin group_new"
  "gabort group_new = None"
  by (simp_all add: group_new_def)

lemma evict_loop_spec:
  "cache = sum_list (map length frames) \<Longrightarrow>
    \<exists>n. evict_loop frames cache offset = (drop n frames, sum_list (map length (drop n frames)), offset + n) \<and>
      n \<le> length frames \<and> sum_list (map length (drop n frames)) \<le> MAX_GROUP_CACHE \<and>
      length frames - n \<le> MAX_GROUP_FRAMES \<and>
      (\<forall>m < n. sum_list (map length (drop m frames)) > MAX_GROUP_CACHE \<or> length frames - m > MAX_GROUP_FRAMES)"
proof (induction frames arbitrary: cache offset)
  case Nil
  then show ?case by (simp add: evict_loop.simps [of "[]"])
next
  case (Cons f fs)
  show ?case
  proof (cases "cache > MAX_GROUP_CACHE \<or> length (f # fs) > MAX_GROUP_FRAMES")
    case False
    then show ?thesis using Cons.prems
      by (intro exI [of _ 0]) (simp add: evict_loop.simps [of "f # fs"])
  next
    case True
    from Cons.IH [of "cache - length f" "offset + 1"] Cons.prems obtain n where n:
      "evict_loop fs (cache - length f) (offset + 1) = (drop n fs, sum_list (map length (drop n fs)), offset + 1 + n)"
      "n \<le> length fs" "sum_list (map length (drop n fs)) \<le> MAX_GROUP_CACHE" "length fs - n \<le> MAX_GROUP_FRAMES"
      "\<forall>m < n. sum_list (map length (drop m fs)) > MAX_GROUP_CACHE \<or> length fs - m > MAX_GROUP_FRAMES"
      by auto
    have "\<forall>m < Suc n. sum_list (map length (drop m (f # fs))) > MAX_GROUP_CACHE \<or>
        length (f # fs) - m > MAX_GROUP_FRAMES"
    proof (intro allI impI)
      fix m assume "m < Suc n"
      then show "sum_list (map length (drop m (f # fs))) > MAX_GROUP_CACHE \<or>
          length (f # fs) - m > MAX_GROUP_FRAMES"
        using n(5) True Cons.prems by (cases m) auto
    qed
    then show ?thesis using True n
      by (intro exI [of _ "Suc n"]) (simp add: evict_loop.simps [of "f # fs"])
  qed
qed

lemma append_frame_ok:
  assumes "group_ok hist g" "append_frame frame g = Inr g'"
  shows "group_ok (hist @ [frame]) g'" and "gfin g' = gfin g" and "gabort g' = gabort g" and "gclosed g' = gclosed g"
proof -
  from assms(2) have g': "g' = group_evict (g\<lparr>gcache := gcache g + length frame, gframes := gframes g @ [frame]\<rparr>)"
    by (auto simp: append_frame_def group_modify_def split: if_splits)
  from evict_loop_spec [of "gcache g + length frame" "gframes g @ [frame]" "goffset g"] assms(1) obtain n where
    n: "evict_loop (gframes g @ [frame]) (gcache g + length frame) (goffset g) =
        (drop n (gframes g @ [frame]), sum_list (map length (drop n (gframes g @ [frame]))), goffset g + n)"
      "n \<le> length (gframes g @ [frame])" "sum_list (map length (drop n (gframes g @ [frame]))) \<le> MAX_GROUP_CACHE"
      "length (gframes g @ [frame]) - n \<le> MAX_GROUP_FRAMES"
    by (auto simp: group_ok_def)
  have "gframes g @ [frame] = drop (goffset g) (hist @ [frame])" "goffset g \<le> length hist"
    using assms(1) by (simp_all add: group_ok_def)
  define X where "X = drop n (gframes g @ [frame])"
  have X: "X = drop (goffset g + n) (hist @ [frame])"
    unfolding X_def using \<open>gframes g @ [frame] = drop (goffset g) (hist @ [frame])\<close>
    by (metis add.commute drop_drop)
  have len: "length X \<le> MAX_GROUP_FRAMES" using n(4) by (simp add: X_def)
  have "g' = g\<lparr>gframes := X, gcache := sum_list (map length X), goffset := goffset g + n\<rparr>"
    using n(1) by (simp add: g' group_evict_def X_def)
  moreover have "goffset g + n \<le> length (hist @ [frame])"
  proof -
    have "length (gframes g) = length hist - goffset g" using assms(1) by (simp add: group_ok_def)
    then show ?thesis using n(2) \<open>goffset g \<le> length hist\<close> by simp
  qed
  ultimately show "group_ok (hist @ [frame]) g'" "gfin g' = gfin g" "gabort g' = gabort g" "gclosed g' = gclosed g"
    using n(3) len X unfolding X_def [symmetric] by (simp_all add: group_ok_def)
qed

lemma append_frame_Inr:
  "\<not> gclosed g \<Longrightarrow> \<not> gfin g \<Longrightarrow> \<exists>g'. append_frame frame g = Inr g'"
  by (simp add: append_frame_def group_modify_def)

text \<open>Within the limits nothing is evicted.\<close>

lemma append_frame_keeps:
  assumes "group_ok hist g" "append_frame frame g = Inr g'" "goffset g = 0"
    and "sum_list (map length (hist @ [frame])) \<le> MAX_GROUP_CACHE" "length (hist @ [frame]) \<le> MAX_GROUP_FRAMES"
  shows "goffset g' = 0"
  using assms by (auto simp: append_frame_def group_modify_def group_evict_def group_ok_def
      evict_loop.simps [of "hist @ [frame]"] split: if_splits)

fun write_frames :: "bytes list \<Rightarrow> group \<Rightarrow> moq_error + group" where
  "write_frames [] g = Inr g"
| "write_frames (f # fs) g = bind_res (write_frame f g) (write_frames fs)"

lemma write_frames_ok:
  assumes "group_ok hist g" "\<not> gclosed g" "\<not> gfin g"
  shows "\<exists>g'. write_frames fs g = Inr g' \<and> group_ok (hist @ fs) g' \<and> \<not> gclosed g' \<and> \<not> gfin g' \<and> gabort g' = gabort g \<and>
    (goffset g = 0 \<and> sum_list (map length (hist @ fs)) \<le> MAX_GROUP_CACHE \<and>
      length (hist @ fs) \<le> MAX_GROUP_FRAMES \<longrightarrow> goffset g' = 0)"
  using assms
proof (induction fs arbitrary: hist g)
  case (Cons f fs)
  from append_frame_Inr [OF Cons.prems(2,3), of f] obtain g1 where g1: "append_frame f g = Inr g1" by blast
  note s = append_frame_ok [OF Cons.prems(1) g1]
  have k: "goffset g = 0 \<and> sum_list (map length (hist @ f # fs)) \<le> MAX_GROUP_CACHE \<and>
      length (hist @ f # fs) \<le> MAX_GROUP_FRAMES \<Longrightarrow> goffset g1 = 0"
    by (rule append_frame_keeps [OF Cons.prems(1) g1]) auto
  from Cons.IH [OF s(1)] Cons.prems(2,3) s(2-4) obtain g' where "write_frames fs g1 = Inr g'"
    "group_ok ((hist @ [f]) @ fs) g'" "\<not> gclosed g'" "\<not> gfin g'" "gabort g' = gabort g1"
    "goffset g1 = 0 \<and> sum_list (map length ((hist @ [f]) @ fs)) \<le> MAX_GROUP_CACHE \<and>
      length ((hist @ [f]) @ fs) \<le> MAX_GROUP_FRAMES \<longrightarrow> goffset g' = 0"
    by blast
  then show ?case using g1 k s(3) by (simp add: write_frame_def del: bind_res_eq_Inr)
qed simp

lemma write_frames_new:
  "\<exists>g. write_frames fs group_new = Inr g \<and> group_ok fs g \<and> \<not> gclosed g \<and> \<not> gfin g \<and> gabort g = None \<and>
    (sum_list (map length fs) \<le> MAX_GROUP_CACHE \<and> length fs \<le> MAX_GROUP_FRAMES \<longrightarrow> goffset g = 0)"
  using write_frames_ok [OF group_ok_new, of fs] by simp

text \<open>C31: frames are never reordered, duplicated or changed in the cache: after any number of writes
  a consumer asking for the frame at an index gets the frame written there, unless the cache had to
  evict it, which it only does beyond 32 MB or 1024 frames.\<close>

theorem group_serves_frames:
  assumes "write_frames fs group_new = Inr g" "i < length fs"
  shows "group_read_frame g i =
    (if i < goffset g then (Ready (Inl CacheFull), i) else (Ready (Inr (Some (fs ! i))), i + 1)) \<and>
    (sum_list (map length fs) \<le> MAX_GROUP_CACHE \<and> length fs \<le> MAX_GROUP_FRAMES \<longrightarrow> goffset g = 0)"
proof -
  from write_frames_new [of fs] assms(1) have ok: "group_ok fs g"
    "sum_list (map length fs) \<le> MAX_GROUP_CACHE \<and> length fs \<le> MAX_GROUP_FRAMES \<longrightarrow> goffset g = 0"
    by auto
  have "gframes g = drop (goffset g) fs" "goffset g \<le> length fs" using ok(1) by (simp_all add: group_ok_def)
  then have "get_at (gframes g) (i - goffset g) = Some (fs ! i)" if "\<not> i < goffset g"
    using that assms(2) by (simp add: get_at_def)
  then show ?thesis using ok(2)
    by (cases "i < goffset g")
      (simp_all add: group_read_frame_def group_poll_get_frame_def group_poll_def del: get_at_Some)
qed

theorem group_serves_frames_witness:
  "(case write_frames [[1], [2, 3]] group_new of Inr g \<Rightarrow> group_read_frame g 1) = (Ready (Inr (Some [2, 3])), 2)"
proof -
  obtain g where g: "write_frames [[1], [2, 3]] group_new = Inr g"
    using write_frames_new [of "[[1], [2, 3]]"] by blast
  from group_serves_frames [OF g, of 1] show ?thesis
    by (simp add: g MAX_GROUP_CACHE_def MAX_GROUP_FRAMES_def numeral_2_eq_2 del: write_frames.simps)
qed

end
