(* ===== verification/Track_Cache.thy ===== *)
theory Track_Cache
  imports Group_Cache
begin

text \<open>
  The cache of a track (\<open>rust/vendor/moq-net/src/model/track.rs\<close>): groups in arrival order, with a
  tombstone where an expired one was evicted, addressed by consumers through absolute indexes. A
  group is a handle: a reference to the shared group state and its sequence number. Instants are
  milliseconds, read by the caller. Waiting for a change (\<open>kio::wait\<close>) is the result \<open>Pending\<close>.
\<close>

section \<open>State\<close>

definition MAX_GROUP_AGE :: nat where
  "MAX_GROUP_AGE = 5000"

record handle =
  href :: nat
  hseq :: u64

type_synonym slot = "(handle \<times> nat) option"

record 'src track =
  tgroups :: "slot list"
  tduplicates :: "u64 set"
  toffset :: nat
  tmax :: "u64 option"
  tfinal :: "u64 option"
  tabort :: "moq_error option"
  tage :: "nat option"
  tsource :: "'src option"
  tclosed :: bool

definition track_new :: "'src track" where
  "track_new = \<lparr>tgroups = [], tduplicates = {}, toffset = 0, tmax = None, tfinal = None,
     tabort = None, tage = None, tsource = None, tclosed = False\<rparr>"

text \<open>The first group at or after a position, with its absolute index.\<close>

fun find_slot :: "u64 \<Rightarrow> nat \<Rightarrow> slot list \<Rightarrow> (handle \<times> nat) option" where
  "find_slot min_sequence i [] = None"
| "find_slot min_sequence i (None # ss) = find_slot min_sequence (i + 1) ss"
| "find_slot min_sequence i (Some (h, _) # ss) =
     (if min_sequence \<le> hseq h then Some (h, i) else find_slot min_sequence (i + 1) ss)"

definition poll_end :: "'src track \<Rightarrow> (moq_error + 'b option) poll" where
  "poll_end tr =
     (if tfinal tr \<noteq> None then Ready (Inr None)
      else case tabort tr of Some e \<Rightarrow> Ready (Inl e) | None \<Rightarrow> Pending)"

definition state_poll_recv_group :: "'src track \<Rightarrow> nat \<Rightarrow> u64 \<Rightarrow> (moq_error + (handle \<times> nat) option) poll" where
  "state_poll_recv_group tr index min_sequence =
     (let start = index - toffset tr in
      case find_slot min_sequence (toffset tr + start) (drop start (tgroups tr)) of
        Some found \<Rightarrow> Ready (Inr (Some found))
      | None \<Rightarrow> poll_end tr)"

definition live :: "'src track \<Rightarrow> handle list" where
  "live tr = map fst (concat (map (\<lambda>s. case s of None \<Rightarrow> [] | Some hc \<Rightarrow> [hc]) (tgroups tr)))"

definition state_poll_get_group :: "'src track \<Rightarrow> u64 \<Rightarrow> (moq_error + handle option) poll" where
  "state_poll_get_group tr sequence =
     (case find (\<lambda>h. hseq h = sequence) (live tr) of
        Some h \<Rightarrow> Ready (Inr (Some h))
      | None \<Rightarrow>
          (case tfinal tr of
             Some fin \<Rightarrow>
               if fin \<le> sequence then Ready (Inr None)
               else (case tabort tr of Some e \<Rightarrow> Ready (Inl e) | None \<Rightarrow> Pending)
           | None \<Rightarrow> (case tabort tr of Some e \<Rightarrow> Ready (Inl e) | None \<Rightarrow> Pending)))"

definition state_poll_closed :: "'src track \<Rightarrow> (moq_error + unit) poll" where
  "state_poll_closed tr =
     (if tfinal tr \<noteq> None then Ready (Inr ())
      else case tabort tr of Some e \<Rightarrow> Ready (Inl e) | None \<Rightarrow> Pending)"

definition state_poll_finished :: "'src track \<Rightarrow> (moq_error + u64) poll" where
  "state_poll_finished tr =
     (case tfinal tr of
        Some fin \<Rightarrow> Ready (Inr fin)
      | None \<Rightarrow> (case tabort tr of Some e \<Rightarrow> Ready (Inl e) | None \<Rightarrow> Pending))"

section \<open>Eviction\<close>

fun evict_slots :: "u64 option \<Rightarrow> nat \<Rightarrow> nat \<Rightarrow> slot list \<Rightarrow> u64 set \<Rightarrow> slot list \<times> u64 set" where
  "evict_slots mx age now [] dups = ([], dups)"
| "evict_slots mx age now (None # ss) dups =
     (let (ss, dups) = evict_slots mx age now ss dups in (None # ss, dups))"
| "evict_slots mx age now (Some (h, created_at) # ss) dups =
     (if Some (hseq h) = mx then
        (let (ss, dups) = evict_slots mx age now ss dups in (Some (h, created_at) # ss, dups))
      else if now - created_at \<le> age then (Some (h, created_at) # ss, dups)
      else (let (ss, dups) = evict_slots mx age now ss (dups - {hseq h}) in (None # ss, dups)))"

fun trim_slots :: "slot list \<Rightarrow> nat \<Rightarrow> slot list \<times> nat" where
  "trim_slots (None # ss) offset = trim_slots ss (offset + 1)"
| "trim_slots ss offset = (ss, offset)"

definition evict_expired :: "nat \<Rightarrow> 'src track \<Rightarrow> 'src track" where
  "evict_expired now tr =
     (let age = (case tage tr of None \<Rightarrow> MAX_GROUP_AGE | Some a \<Rightarrow> a);
          (ss, dups) = evict_slots (tmax tr) age now (tgroups tr) (tduplicates tr);
          (ss, offset) = trim_slots ss (toffset tr) in
      tr\<lparr>tgroups := ss, tduplicates := dups, toffset := offset\<rparr>)"

section \<open>Producer\<close>

definition track_modify :: "'src track \<Rightarrow> ('src track \<Rightarrow> moq_error + 'b) \<Rightarrow> moq_error + 'b" where
  "track_modify tr f =
     (if tclosed tr then Inl (case tabort tr of Some e \<Rightarrow> e | None \<Rightarrow> Dropped) else f tr)"

definition set_max_group_age :: "nat \<Rightarrow> 'src track \<Rightarrow> moq_error + 'src track" where
  "set_max_group_age age tr = track_modify tr (\<lambda>tr. Inr (tr\<lparr>tage := Some age\<rparr>))"

definition set_group_source :: "'src \<Rightarrow> 'src track \<Rightarrow> moq_error + 'src track" where
  "set_group_source src tr = track_modify tr (\<lambda>tr. Inr (tr\<lparr>tsource := Some src\<rparr>))"

text \<open>\<open>final_sequence\<close> closes the track for groups at or above it.\<close>

definition is_final :: "'src track \<Rightarrow> u64 \<Rightarrow> bool" where
  "is_final tr sequence \<longleftrightarrow> (case tfinal tr of None \<Rightarrow> False | Some fin \<Rightarrow> fin \<le> sequence)"

definition push_group :: "handle \<Rightarrow> nat \<Rightarrow> u64 \<Rightarrow> 'src track \<Rightarrow> 'src track" where
  "push_group h now mx tr =
     evict_expired now
       (tr\<lparr>tduplicates := insert (hseq h) (tduplicates tr), tmax := Some mx,
          tgroups := tgroups tr @ [Some (h, now)]\<rparr>)"

definition create_group :: "handle \<Rightarrow> nat \<Rightarrow> 'src track \<Rightarrow> moq_error + 'src track" where
  "create_group h now tr =
     track_modify tr (\<lambda>tr.
       if is_final tr (hseq h) then Inl Closed
       else if hseq h \<in> tduplicates tr then Inl Duplicate
       else Inr (push_group h now (max (case tmax tr of None \<Rightarrow> 0 | Some m \<Rightarrow> m) (hseq h)) tr))"

text \<open>\<open>checked_add(1)\<close>.\<close>

definition succ_u64 :: "u64 \<Rightarrow> moq_error + u64" where
  "succ_u64 s = (if s = 0xFFFFFFFFFFFFFFFF then Inl BoundsExceeded else Inr (s + 1))"

definition append_group_at :: "nat \<Rightarrow> nat \<Rightarrow> 'src track \<Rightarrow> moq_error + handle \<times> 'src track" where
  "append_group_at ref now tr =
     track_modify tr (\<lambda>tr.
       bind_res (case tmax tr of None \<Rightarrow> Inr 0 | Some s \<Rightarrow> succ_u64 s) (\<lambda>sequence.
         if is_final tr sequence then Inl Closed
         else let h = \<lparr>href = ref, hseq = sequence\<rparr> in Inr (h, push_group h now sequence tr)))"

definition track_finish :: "'src track \<Rightarrow> moq_error + 'src track" where
  "track_finish tr =
     track_modify tr (\<lambda>tr.
       if tfinal tr \<noteq> None then Inl Closed
       else bind_res (case tmax tr of None \<Rightarrow> Inr 0 | Some m \<Rightarrow> succ_u64 m) (\<lambda>fin.
         Inr (tr\<lparr>tfinal := Some fin\<rparr>)))"

definition track_finish_at :: "u64 \<Rightarrow> 'src track \<Rightarrow> moq_error + 'src track" where
  "track_finish_at sequence tr =
     track_modify tr (\<lambda>tr.
       case tmax tr of None \<Rightarrow> Inl Closed
       | Some mx \<Rightarrow>
           if tfinal tr \<noteq> None \<or> sequence \<noteq> mx then Inl Closed
           else bind_res (succ_u64 mx) (\<lambda>fin. Inr (tr\<lparr>tfinal := Some fin\<rparr>)))"

definition track_abort :: "moq_error \<Rightarrow> 'src track \<Rightarrow> moq_error + 'src track" where
  "track_abort e tr = track_modify tr (\<lambda>tr. Inr (tr\<lparr>tabort := Some e, tclosed := True\<rparr>))"

text \<open>An operation on the group behind a handle.\<close>

definition on_group :: "handle \<Rightarrow> (group \<Rightarrow> moq_error + group) \<Rightarrow> group list \<Rightarrow> moq_error + group list" where
  "on_group h f heap = bind_res (f (heap ! href h)) (\<lambda>g. Inr (heap[href h := g]))"

section \<open>Consumer\<close>

record consumer =
  cindex :: nat
  cmin :: u64
  cnext :: u64

definition consume :: consumer where
  "consume = \<lparr>cindex = 0, cmin = 0, cnext = 0\<rparr>"

definition track_poll :: "'src track \<Rightarrow> (moq_error + 'b) poll \<Rightarrow> (moq_error + 'b) poll" where
  "track_poll tr r =
     (case r of
        Pending \<Rightarrow> if tclosed tr then Ready (Inl (case tabort tr of Some e \<Rightarrow> e | None \<Rightarrow> Dropped)) else Pending
      | Ready x \<Rightarrow> Ready x)"

definition recv_group :: "'src track \<Rightarrow> consumer \<Rightarrow> (moq_error + handle option) poll \<times> consumer" where
  "recv_group tr c =
     (case track_poll tr (state_poll_recv_group tr (cindex c) (cmin c)) of
        Pending \<Rightarrow> (Pending, c)
      | Ready (Inl e) \<Rightarrow> (Ready (Inl e), c)
      | Ready (Inr None) \<Rightarrow> (Ready (Inr None), c)
      | Ready (Inr (Some (h, found))) \<Rightarrow> (Ready (Inr (Some h)), c\<lparr>cindex := found + 1\<rparr>))"

definition sat_succ :: "u64 \<Rightarrow> u64" where
  "sat_succ s = (if s = 0xFFFFFFFFFFFFFFFF then s else s + 1)"

lemma find_slot_Some:
  "find_slot m i ss = Some (h, k) \<Longrightarrow>
    i \<le> k \<and> k < i + length ss \<and> (\<exists>c. ss ! (k - i) = Some (h, c)) \<and> m \<le> hseq h \<and>
    (\<forall>j < k - i. case ss ! j of None \<Rightarrow> True | Some (h', _) \<Rightarrow> hseq h' < m)"
proof (induction m i ss rule: find_slot.induct)
  case (2 m i ss)
  then have k: "Suc i \<le> k" and IH: "k < Suc i + length ss" "\<exists>c. ss ! (k - Suc i) = Some (h, c)" "m \<le> hseq h"
    "\<forall>j < k - Suc i. case ss ! j of None \<Rightarrow> True | Some (h', _) \<Rightarrow> hseq h' < m" by auto
  have "k - i = Suc (k - Suc i)" using k by simp
  then show ?case using IH k by (auto simp: less_Suc_eq_0_disj)
next
  case (3 m i h' c ss)
  show ?case
  proof (cases "m \<le> hseq h'")
    case True
    then show ?thesis using 3 by auto
  next
    case False
    with 3 have k: "Suc i \<le> k" and IH: "k < Suc i + length ss" "\<exists>c. ss ! (k - Suc i) = Some (h, c)" "m \<le> hseq h"
      "\<forall>j < k - Suc i. case ss ! j of None \<Rightarrow> True | Some (h', _) \<Rightarrow> hseq h' < m" by auto
    have "k - i = Suc (k - Suc i)" using k by simp
    then show ?thesis using IH k False by (auto simp: less_Suc_eq_0_disj)
  qed
qed simp

lemma find_slot_None: "find_slot m i ss = None \<longleftrightarrow> (\<forall>h c. Some (h, c) \<in> set ss \<longrightarrow> hseq h < m)"
proof (induction m i ss rule: find_slot.induct)
  case (3 m i h c ss)
  then show ?case by (cases "m \<le> hseq h") (auto simp: not_le not_less)
qed auto

lemma recv_group_Some:
  assumes "recv_group tr c = (Ready (Inr (Some h)), c')"
  shows "\<exists>k. c' = c\<lparr>cindex := k + 1\<rparr> \<and> cindex c \<le> k \<and> toffset tr \<le> k \<and> k < toffset tr + length (tgroups tr) \<and>
    (\<exists>t. tgroups tr ! (k - toffset tr) = Some (h, t)) \<and> cmin c \<le> hseq h \<and>
    (\<forall>j. toffset tr \<le> j \<and> cindex c \<le> j \<and> j < k \<longrightarrow>
      (case tgroups tr ! (j - toffset tr) of None \<Rightarrow> True | Some (h', _) \<Rightarrow> hseq h' < cmin c))"
proof -
  let ?start = "cindex c - toffset tr"
  have pe: "poll_end tr \<noteq> Ready (Inr (Some x))" for x :: "handle \<times> nat"
    by (auto simp: poll_end_def split: option.splits)
  from assms obtain k where k: "find_slot (cmin c) (toffset tr + ?start) (drop ?start (tgroups tr)) = Some (h, k)"
    and c': "c' = c\<lparr>cindex := k + 1\<rparr>"
    using pe by (auto simp: recv_group_def track_poll_def state_poll_recv_group_def Let_def
        split: poll.splits sum.splits option.splits if_splits)
  note f = find_slot_Some [OF k]
  have start: "?start < length (tgroups tr)" using f by (auto simp: not_le [symmetric])
  then have nth: "drop ?start (tgroups tr) ! j = tgroups tr ! (?start + j)" for j by simp
  have "\<forall>j. toffset tr \<le> j \<and> cindex c \<le> j \<and> j < k \<longrightarrow>
      (case tgroups tr ! (j - toffset tr) of None \<Rightarrow> True | Some (h', _) \<Rightarrow> hseq h' < cmin c)"
  proof (intro allI impI, elim conjE)
    fix j assume j: "toffset tr \<le> j" "cindex c \<le> j" "j < k"
    have "j - (toffset tr + ?start) < k - (toffset tr + ?start)" "?start + (j - (toffset tr + ?start)) = j - toffset tr"
      using j by linarith+
    then show "case tgroups tr ! (j - toffset tr) of None \<Rightarrow> True | Some (h', _) \<Rightarrow> hseq h' < cmin c"
      using f nth [of "j - (toffset tr + ?start)"] by metis
  qed
  moreover have "?start + (k - (toffset tr + ?start)) = k - toffset tr" using f by linarith
  ultimately show ?thesis using f c' start nth [of "k - (toffset tr + ?start)"] by auto
qed

text \<open>\<open>poll_next_group\<close>: late arrivals are skipped.\<close>

function next_group :: "'src track \<Rightarrow> consumer \<Rightarrow> (moq_error + handle option) poll \<times> consumer" where
  "next_group tr c =
     (case recv_group tr c of
        (Ready (Inr (Some h)), c') \<Rightarrow>
          if hseq h < cnext c then next_group tr c'
          else (Ready (Inr (Some h)), c'\<lparr>cnext := sat_succ (hseq h)\<rparr>)
      | (r, c') \<Rightarrow> (r, c'))"
  by pat_completeness auto
termination
proof (relation "measure (\<lambda>(tr, c). toffset tr + length (tgroups tr) - cindex c)")
  fix tr :: "'a track" and c :: consumer and r c' x y z
  assume r: "(r, c') = recv_group tr c" "r = Ready x" "x = Inr y" "y = Some z"
  then have "recv_group tr c = (Ready (Inr (Some z)), c')" by simp
  from recv_group_Some [OF this] show "((tr, c'), (tr, c)) \<in> measure (\<lambda>(tr, c). toffset tr + length (tgroups tr) - cindex c)"
    by auto
qed simp

declare next_group.simps [simp del]

definition start_at :: "u64 \<Rightarrow> consumer \<Rightarrow> consumer" where
  "start_at sequence c = c\<lparr>cmin := sequence\<rparr>"

definition track_latest :: "'src track \<Rightarrow> u64 option" where
  "track_latest tr = tmax tr"

definition track_oldest :: "'src track \<Rightarrow> u64 option" where
  "track_oldest tr = (case map hseq (live tr) of [] \<Rightarrow> None | s # ss \<Rightarrow> Some (foldl min s ss))"

end
