(* ===== verification/Publisher.thy ===== *)
theory Publisher
  imports State_Files Track_Cache
begin

text \<open>
  The publisher of a relay (\<open>rust/crates/atmoq/src/main.rs\<close>): it appends frames to the current group
  of the live track, rotates to the next group, stores finished groups, and after a restart takes
  up the sequence numbers where the last run left them. Groups are shared references: \<open>pheap\<close> holds
  their states and a handle points into it. The wall clock (\<open>now_ms\<close>) and the instants the track
  cache reads (\<open>now\<close>) are arguments; logging is left out.
\<close>

section \<open>State\<close>

datatype relay_error = Moq moq_error | Io store_error

definition moq :: "moq_error + 'a \<Rightarrow> relay_error + 'a" where
  "moq r = (case r of Inl e \<Rightarrow> Inl (Moq e) | Inr x \<Rightarrow> Inr x)"

definition io :: "store_error + 'a \<Rightarrow> relay_error + 'a" where
  "io r = (case r of Inl e \<Rightarrow> Inl (Io e) | Inr x \<Rightarrow> Inr x)"

lemma moq_io_Inr [simp]: "moq r = Inr x \<longleftrightarrow> r = Inr x" "io s = Inr y \<longleftrightarrow> s = Inr y"
  by (simp_all add: moq_def io_def split: sum.splits)

text \<open>The group source of the track: the publisher's own store.\<close>

datatype store_source = StoreSource

record publisher =
  ptrack :: "store_source track"
  pheap :: "group list"
  pgroup :: handle
  pcount :: nat
  pseq_file :: "string option"
  pstore :: "group_store option"
  pframes :: "bytes list"
  pmetrics :: metrics

section \<open>The store as a group source\<close>

definition backfill_served :: "metrics \<Rightarrow> metrics" where
  "backfill_served m = m\<lparr>m_backfill_groups_served_total := m_backfill_groups_served_total m + 1\<rparr>"

definition backfill_missing :: "metrics \<Rightarrow> metrics" where
  "backfill_missing m = m\<lparr>m_backfill_groups_missing_total := m_backfill_groups_missing_total m + 1\<rparr>"

definition source_group ::
    "disk \<Rightarrow> group_store \<Rightarrow> u64 \<Rightarrow> metrics \<Rightarrow> store_error + bytes list option \<times> metrics" where
  "source_group d st sequence m =
     bind_res (locate st sequence) (\<lambda>l. case l of
       None \<Rightarrow> Inr (None, backfill_missing m)
     | Some loc \<Rightarrow>
         (case read_group_at d loc sequence of
            Inr frames \<Rightarrow> Inr (Some frames, backfill_served m)
          | Inl _ \<Rightarrow> Inr (None, backfill_missing m)))"

definition source_oldest :: "group_store \<Rightarrow> u64 option" where
  "source_oldest st = oldest_seq st"

section \<open>Starting\<close>

definition apply_replay_window :: "u64 \<Rightarrow> 'src track \<Rightarrow> moq_error + 'src track" where
  "apply_replay_window secs tr =
     (if 0 < secs then set_max_group_age (unat secs * 1000) tr else Inr tr)"

definition cutoff :: "u64 \<Rightarrow> u64 \<Rightarrow> u64" where
  "cutoff now_ms window_secs = sat_sub now_ms (window_secs * 1000)"

fun reload_groups :: "(u64 \<Rightarrow> nat) \<Rightarrow> u64 list \<Rightarrow> disk \<Rightarrow> group_store \<Rightarrow> 'src track \<Rightarrow> group list \<Rightarrow>
    relay_error + 'src track \<times> group list" where
  "reload_groups now [] d st tr heap = Inr (tr, heap)"
| "reload_groups now (seq # seqs) d st tr heap =
     bind_res (io (read d st seq)) (\<lambda>r. case r of
       None \<Rightarrow> reload_groups now seqs d st tr heap
     | Some frames \<Rightarrow>
         bind_res (moq (create_group \<lparr>href = length heap, hseq = seq\<rparr> (now seq) tr)) (\<lambda>tr.
         bind_res (moq (write_frames frames group_new)) (\<lambda>g.
         bind_res (moq (group_finish g)) (\<lambda>g.
           reload_groups now seqs d st tr (heap @ [g])))))"

definition reload_window :: "u64 \<Rightarrow> (u64 \<Rightarrow> nat) \<Rightarrow> u64 \<Rightarrow> disk \<Rightarrow> group_store \<Rightarrow> 'src track \<Rightarrow> group list \<Rightarrow>
    relay_error + 'src track \<times> group list" where
  "reload_window now_ms now window_secs d st tr heap =
     (if window_secs = 0 then Inr (tr, heap)
      else reload_groups now (groups_since st (cutoff now_ms window_secs)) d st tr heap)"

text \<open>The high-water sequence: from the sequence file and the store. \<open>m + 1\<close> wraps.\<close>

definition seed_of :: "u64 option \<Rightarrow> u64 option \<Rightarrow> u64 option" where
  "seed_of file store_max =
     (case file of
        Some f \<Rightarrow> Some (case store_max of None \<Rightarrow> f | Some m \<Rightarrow> max f m)
      | None \<Rightarrow> map_option (\<lambda>m. m + 1) store_max)"

definition make_first_group :: "nat \<Rightarrow> nat \<Rightarrow> u64 option \<Rightarrow> string option \<Rightarrow> disk \<Rightarrow> 'src track \<Rightarrow>
    disk \<times> (relay_error + handle \<times> 'src track)" where
  "make_first_group ref now seed group_seq_file d tr =
     (case (case seed of
              Some prev \<Rightarrow>
                let h = \<lparr>href = ref, hseq = prev + 1\<rparr> in
                bind_res (moq (create_group h now tr)) (\<lambda>tr. Inr (h, tr))
            | None \<Rightarrow> moq (append_group_at ref now tr)) of
        Inl e \<Rightarrow> (d, Inl e)
      | Inr (h, tr) \<Rightarrow> (persist_group_seq group_seq_file (hseq h) d, Inr (h, tr)))"

definition default_seq_file :: "string option \<Rightarrow> string option" where
  "default_seq_file f = (case f of None \<Rightarrow> Some ''group_seq'' | Some p \<Rightarrow> Some p)"

definition build_lite_publisher :: "u64 \<Rightarrow> (u64 \<Rightarrow> nat) \<Rightarrow> nat \<Rightarrow> store_source track \<Rightarrow> string option \<Rightarrow> u64 \<Rightarrow>
    metrics \<Rightarrow> disk \<Rightarrow> disk \<times> (relay_error + publisher)" where
  "build_lite_publisher now_ms reload_now now tr group_seq_file window_secs m d =
     (case open_store d of
        (d, Inl e) \<Rightarrow> (d, Inl (Io e))
      | (d, Inr st) \<Rightarrow>
          let seq_file = default_seq_file group_seq_file in
          (case bind_res (reload_window now_ms reload_now window_secs d st tr []) (\<lambda>(tr, heap).
                bind_res (moq (set_group_source StoreSource tr)) (\<lambda>tr. Inr (tr, heap))) of
             Inl e \<Rightarrow> (d, Inl e)
           | Inr (tr, heap) \<Rightarrow>
               (case make_first_group (length heap) now (seed_of (load_group_seq d seq_file) (max_seq st))
                       seq_file d tr of
                  (d, Inl e) \<Rightarrow> (d, Inl e)
                | (d, Inr (h, tr)) \<Rightarrow>
                    (d, Inr \<lparr>ptrack = tr, pheap = heap @ [group_new], pgroup = h, pcount = 0,
                       pseq_file = seq_file, pstore = Some st, pframes = [], pmetrics = m\<rparr>))))"

section \<open>Writing\<close>

text \<open>The finished group goes to the store; a failure is counted and the relay goes on.\<close>

definition store_finished :: "u64 \<Rightarrow> u64 \<Rightarrow> disk \<Rightarrow> publisher \<Rightarrow> disk \<times> publisher" where
  "store_finished finished_seq now_ms d p =
     (case pstore p of
        None \<Rightarrow> (d, p)
      | Some st \<Rightarrow>
          let bs = sum_list (map length (pframes p)); m = pmetrics p in
          (case append_group finished_seq now_ms (pframes p) d st of
             ((d, st), res) \<Rightarrow>
               (d, p\<lparr>pstore := Some st, pframes := [],
                  pmetrics :=
                    (case res of
                       Inr _ \<Rightarrow> m\<lparr>m_store_append_bytes_total := m_store_append_bytes_total m + word_of_nat bs\<rparr>
                     | Inl _ \<Rightarrow> m\<lparr>m_store_append_failures_total := m_store_append_failures_total m + 1\<rparr>)\<rparr>)))"

definition rotate :: "u64 \<Rightarrow> nat \<Rightarrow> disk \<Rightarrow> publisher \<Rightarrow> (disk \<times> publisher) \<times> (moq_error + unit)" where
  "rotate now_ms now d p =
     (let finished = pgroup p in
      case append_group_at (length (pheap p)) now (ptrack p) of
        Inl e \<Rightarrow> ((d, p), Inl e)
      | Inr (h, tr) \<Rightarrow>
          let p = p\<lparr>ptrack := tr, pheap := pheap p @ [group_new], pgroup := h\<rparr> in
          (case on_group finished group_finish (pheap p) of
             Inl e \<Rightarrow> ((d, p), Inl e)
           | Inr heap \<Rightarrow>
               let (d, p) = store_finished (hseq finished) now_ms d (p\<lparr>pheap := heap, pcount := 0\<rparr>);
                   m = pmetrics p;
                   p = p\<lparr>pmetrics := m\<lparr>m_groups_total := m_groups_total m + 1, m_group_seq := hseq h\<rparr>\<rparr> in
               ((persist_group_seq (pseq_file p) (hseq h) d, p), Inr ())))"

definition publish :: "bytes \<Rightarrow> nat \<Rightarrow> u64 \<Rightarrow> nat \<Rightarrow> disk \<Rightarrow> publisher \<Rightarrow>
    (disk \<times> publisher) \<times> (moq_error + unit)" where
  "publish data group_size now_ms now d p =
     (case on_group (pgroup p) (write_frame data) (pheap p) of
        Inl e \<Rightarrow> ((d, p), Inl e)
      | Inr heap \<Rightarrow>
          let p = p\<lparr>pheap := heap,
                pframes := (if pstore p \<noteq> None then pframes p @ [data] else pframes p),
                pcount := pcount p + 1\<rparr> in
          if group_size \<le> pcount p then rotate now_ms now d p else ((d, p), Inr ()))"

section \<open>Collecting and finishing\<close>

definition publisher_gc :: "u64 \<Rightarrow> u64 \<Rightarrow> u64 \<Rightarrow> disk \<Rightarrow> publisher \<Rightarrow> disk \<times> publisher" where
  "publisher_gc now_ms window_secs max_bytes d p =
     (case pstore p of
        None \<Rightarrow> (d, p)
      | Some st \<Rightarrow>
          let limit = (if 0 < window_secs then cutoff now_ms window_secs else 0); m = pmetrics p;
              (d, st, m) =
                (if 0 < window_secs \<or> 0 < max_bytes then
                   (case gc limit (unat max_bytes) d st of
                      (d, st, removed) \<Rightarrow>
                        (d, st, m\<lparr>m_store_gc_segments_removed_total :=
                           m_store_gc_segments_removed_total m + word_of_nat removed\<rparr>))
                 else (d, st, m)) in
          (d, p\<lparr>pstore := Some st,
             pmetrics := m\<lparr>m_store_groups_indexed := word_of_nat (indexed_groups st),
                           m_store_bytes := word_of_nat (total_bytes st)\<rparr>\<rparr>))"

text \<open>A clean shutdown: the group in progress is stored, then closed with its track.\<close>

definition publisher_finish :: "u64 \<Rightarrow> disk \<Rightarrow> publisher \<Rightarrow> disk \<times> (moq_error + publisher)" where
  "publisher_finish now_ms d p =
     (let d = (case pstore p of
                 None \<Rightarrow> d
               | Some st \<Rightarrow>
                   if pframes p = [] then d
                   else fst (fst (append_group (hseq (pgroup p)) now_ms (pframes p) d st))) in
      (d, bind_res (on_group (pgroup p) group_finish (pheap p)) (\<lambda>heap.
          bind_res (track_finish (ptrack p)) (\<lambda>tr.
            Inr (p\<lparr>ptrack := tr, pheap := heap\<rparr>)))))"

end
