(* ===== verification/Store_Records.thy ===== *)
theory Store_Records
  imports Store
begin

text \<open>
  Segment files as sequences of records: the record encodings of both versions are
  self-delimiting, the scan steps over exactly one record at a time, and stops in front of a
  record that is cut off.
\<close>

section \<open>Encodings\<close>

definition enc_frame :: "bytes \<Rightarrow> bytes" where
  "enc_frame f = le_bytes 4 (length f) @ f"

definition enc_record :: "bool \<Rightarrow> group_record \<Rightarrow> bytes" where
  "enc_record v2 r = (case r of (seq, ms, frames) \<Rightarrow>
     le_bytes 8 (unat seq) @ le_bytes 8 (unat ms) @ le_bytes 4 (length frames) @
     (if v2 then le_bytes 4 (length (frames_body frames)) else []) @ frames_body frames)"

definition frame_ok :: "bytes \<Rightarrow> bool" where
  "frame_ok f \<longleftrightarrow> length f < 2 ^ 32"

text \<open>What the 32-bit counts of a record can express.\<close>

definition rec_ok :: "bool \<Rightarrow> group_record \<Rightarrow> bool" where
  "rec_ok v2 r \<longleftrightarrow> (case r of (seq, ms, frames) \<Rightarrow>
     length frames < 2 ^ 32 \<and> (\<forall>f \<in> set frames. frame_ok f) \<and>
     (v2 \<longrightarrow> length (frames_body frames) < 2 ^ 32))"

lemma frames_body_eq: "frames_body frames = concat (map enc_frame frames)"
  unfolding frames_body_def enc_frame_def [abs_def] ..

lemma length_enc_frame [simp]: "length (enc_frame f) = 4 + length f"
  by (simp add: enc_frame_def)

lemma length_frames_body: "length (frames_body frames) = sum_list (map (\<lambda>f. 4 + length f) frames)"
  by (induction frames) (simp_all add: frames_body_def)

lemma record_bytes_eq: "record_bytes seq ms frames = enc_record True (seq, ms, frames)"
  by (simp add: record_bytes_def enc_record_def length_frames_body Let_def)

lemma le_val_le_bytes_4 [simp]: "n < 2 ^ 32 \<Longrightarrow> le_val (le_bytes 4 n) = n"
  by (simp add: le_val_le_bytes)

lemma le_u64_le_bytes_8 [simp]: "le_u64 (le_bytes 8 (unat s)) = s"
proof -
  have "unat s < 2 ^ 64" using unsigned_less [of s] by simp
  then show ?thesis by (simp add: le_u64_def le_val_le_bytes)
qed

lemma read_full_append [simp]: "length a = n \<Longrightarrow> read_full_or_eof n (a @ r) = Some (a, r)"
  by (auto simp: read_full_or_eof_def)

section \<open>Frames\<close>

definition read_frame :: "bytes \<Rightarrow> (bytes \<times> bytes) option" where
  "read_frame cur =
     (case read_full_or_eof 4 cur of
        None \<Rightarrow> None
      | Some (lenb, cur) \<Rightarrow> read_full_or_eof (le_val lenb) cur)"

lemma read_frames_eq: "read_frames n cur = decode_n read_frame n cur"
  by (induction n arbitrary: cur) (auto simp: read_frame_def split: option.splits)

interpretation frames: stream_codec enc_frame frame_ok read_frame
  by unfold_locales (simp add: enc_frame_def read_frame_def frame_ok_def)

section \<open>Records\<close>

text \<open>A record's header fields and body, wherever it lies in a file.\<close>

lemma slice_at [slice_simps]:
  "length pre = a \<Longrightarrow> length x = b - a \<Longrightarrow> slice (pre @ x @ post) a b = x"
  by (simp add: slice_def)

lemma header_size_simps [simp]: "header_size True = 24" "header_size False = 20"
  by (simp_all add: header_size_def V1_HEADER_def V2_HEADER_def)

lemma length_enc_record [simp]:
  "length (enc_record v2 (seq, ms, frames)) = header_size v2 + length (frames_body frames)"
  by (cases v2) (simp_all add: enc_record_def)

lemma enc_record_nonempty [simp]: "enc_record v2 r \<noteq> []"
proof -
  obtain seq ms frames where r: "r = (seq, ms, frames)" by (cases r)
  have "length (enc_record v2 r) \<noteq> 0" unfolding r by (cases v2) simp_all
  then show ?thesis by auto
qed

lemma record_header:
  assumes "data = pre @ enc_record v2 (seq, ms, frames) @ post" "offset = length pre"
  shows "le_u64 (slice data offset (offset + 8)) = seq"
    and "le_u64 (slice data (offset + 8) (offset + 16)) = ms"
    and "slice data (offset + 16) (offset + 20) = le_bytes 4 (length frames)"
    and "v2 \<Longrightarrow> slice data (offset + 20) (offset + 24) = le_bytes 4 (length (frames_body frames))"
proof -
  let ?s = "le_bytes 8 (unat seq)" and ?m = "le_bytes 8 (unat ms)" and ?c = "le_bytes 4 (length frames)"
    and ?b = "le_bytes 4 (length (frames_body frames))"
  let ?r = "(if v2 then ?b else []) @ frames_body frames @ post"
  have d: "data = pre @ ?s @ ?m @ ?c @ ?r" by (simp add: assms enc_record_def)
  have "slice data offset (offset + 8) = ?s"
    unfolding d by (rule slice_at) (simp_all add: assms(2))
  then show "le_u64 (slice data offset (offset + 8)) = seq" by simp
  have "slice ((pre @ ?s) @ ?m @ ?c @ ?r) (offset + 8) (offset + 16) = ?m"
    by (rule slice_at) (simp_all add: assms(2))
  then show "le_u64 (slice data (offset + 8) (offset + 16)) = ms" by (simp add: d)
  have "slice ((pre @ ?s @ ?m) @ ?c @ ?r) (offset + 16) (offset + 20) = ?c"
    by (rule slice_at) (simp_all add: assms(2))
  then show "slice data (offset + 16) (offset + 20) = ?c" by (simp add: d)
  assume v2
  have "slice ((pre @ ?s @ ?m @ ?c) @ ?b @ frames_body frames @ post) (offset + 20) (offset + 24) = ?b"
    by (rule slice_at) (simp_all add: assms(2))
  then show "slice data (offset + 20) (offset + 24) = ?b" using \<open>v2\<close> by (simp add: d)
qed

interpretation records: stream_codec "enc_record v2" "rec_ok v2" "read_record v2" for v2
proof
  fix r :: group_record and post
  obtain seq ms frames where r: "r = (seq, ms, frames)" by (cases r)
  assume ok: "rec_ok v2 r"
  let ?hdr = "le_bytes 8 (unat seq) @ le_bytes 8 (unat ms) @ le_bytes 4 (length frames) @
     (if v2 then le_bytes 4 (length (frames_body frames)) else [])"
  have "read_full_or_eof (header_size v2) (?hdr @ frames_body frames @ post) =
      Some (?hdr, frames_body frames @ post)"
    by (rule read_full_append) simp
  moreover have "le_u64 (slice ?hdr 0 8) = seq" "le_u64 (slice ?hdr 8 16) = ms"
    "le_val (slice ?hdr 16 20) = length frames"
    using ok by (simp_all add: slice_def r rec_ok_def)
  moreover have "read_frames (length frames) (frames_body frames @ post) = Some (frames, post)"
    unfolding read_frames_eq frames_body_eq
    by (rule frames.decode_n_concat) (use ok in \<open>simp add: r rec_ok_def\<close>)
  ultimately show "read_record v2 (enc_record v2 r @ post) = Some (r, post)"
    by (simp add: read_record_def enc_record_def r Let_def)
qed

section \<open>Scanning over records\<close>

lemma walk_v1_frames:
  assumes "\<forall>f \<in> set frames. frame_ok f"
  shows "data = pre @ concat (map enc_frame frames) @ post \<Longrightarrow> cursor = length pre \<Longrightarrow>
    walk_v1_body data (length frames) start cursor =
      Some (cursor + length (concat (map enc_frame frames)) - start)"
  using assms
proof (induction frames arbitrary: pre cursor)
  case (Cons f frames)
  have "data = pre @ le_bytes 4 (length f) @ f @ concat (map enc_frame frames) @ post"
    using Cons.prems(1) enc_frame_def [of f] by simp
  then have "slice data cursor (cursor + 4) = le_bytes 4 (length f)"
    using Cons.prems(2) by (simp add: slice_simps)
  moreover have "length f < 2 ^ 32" using Cons.prems(3) by (simp add: frame_ok_def)
  moreover have "data = (pre @ enc_frame f) @ concat (map enc_frame frames) @ post"
    using Cons.prems(1) by simp
  from Cons.IH [OF this, of "cursor + 4 + length f"] Cons.prems
  have "walk_v1_body data (length frames) start (cursor + 4 + length f) =
      Some (cursor + 4 + length f + length (concat (map enc_frame frames)) - start)"
    by simp
  ultimately show ?case using Cons.prems(1,2) by (simp add: Let_def)
qed simp

lemma body_length_record:
  assumes "data = pre @ enc_record v2 (seq, ms, frames) @ post" "offset = length pre"
    and "rec_ok v2 (seq, ms, frames)"
  shows "body_length v2 data offset = Some (length (frames_body frames))"
proof (cases v2)
  case True
  then show ?thesis using record_header(4) [OF assms(1,2)] assms
    by (simp add: body_length_def rec_ok_def V2_HEADER_def Let_def)
next
  case False
  let ?h = "le_bytes 8 (unat seq) @ le_bytes 8 (unat ms) @ le_bytes 4 (length frames)"
  have "data = (pre @ ?h) @ concat (map enc_frame frames) @ post"
    using False by (simp add: assms(1) enc_record_def frames_body_eq)
  then have "walk_v1_body data (length frames) (offset + 20) (offset + 20) =
      Some (offset + 20 + length (concat (map enc_frame frames)) - (offset + 20))"
    by (rule walk_v1_frames [of frames data "pre @ ?h" post, rotated]) (use assms(2,3) in \<open>simp_all add: rec_ok_def\<close>)
  then show ?thesis using False record_header(3) [OF assms(1,2)] assms(3)
    by (simp add: body_length_def rec_ok_def V1_HEADER_def frames_body_eq)
qed

definition scan_step :: "nat \<Rightarrow> bool \<Rightarrow> group_record \<Rightarrow> scan_state \<Rightarrow> scan_state" where
  "scan_step i v2 r s = (case r of (seq, ms, frames) \<Rightarrow>
     \<lparr>soffset = soffset s + length (enc_record v2 r),
      sfirst_seq = (case sfirst_seq s of None \<Rightarrow> Some seq | Some f \<Rightarrow> Some f),
      snewest_ms = ms,
      sindex = om_insert seq \<lparr>lseg = i, loff = soffset s, lms = ms\<rparr> (sindex s),
      smax = Some (case smax s of None \<Rightarrow> seq | Some m \<Rightarrow> max m seq)\<rparr>)"

lemma scan_records_step:
  assumes "data = pre @ enc_record v2 r @ post" "soffset s = length pre" "rec_ok v2 r"
  shows "scan_records v2 data i s = scan_records v2 data i (scan_step i v2 r s)"
proof -
  obtain seq ms frames where r: "r = (seq, ms, frames)" by (cases r)
  note a = assms(1) [unfolded r]
  have "length data = soffset s + length (enc_record v2 r) + length post"
    by (simp only: assms(1,2) length_append)
  then have "\<not> length data < soffset s + header_size v2" by (simp add: r)
  then show ?thesis
    using record_header(1,2) [OF a assms(2)] body_length_record [OF a assms(2) assms(3) [unfolded r]]
    by (subst scan_records.simps) (simp add: Let_def scan_step_def r add.assoc)
qed

section \<open>Torn tails\<close>

definition torn :: "bool \<Rightarrow> bytes \<Rightarrow> bool" where
  "torn v2 t \<longleftrightarrow> t = [] \<or> (\<exists>r q. rec_ok v2 r \<and> q \<noteq> [] \<and> enc_record v2 r = t @ q)"

lemma slice_prefix: "b \<le> length xs \<Longrightarrow> slice (xs @ ys) a b = slice xs a b"
  by (cases "a \<le> length xs") (simp_all add: slice_def)

lemma walk_v1_torn:
  assumes "\<forall>f \<in> set frames. frame_ok f" "q \<noteq> []"
  shows "data @ q = pre @ concat (map enc_frame frames) \<Longrightarrow> cursor = length pre \<Longrightarrow>
    cursor \<le> length data \<Longrightarrow> walk_v1_body data (length frames) start cursor = None"
  using assms
proof (induction frames arbitrary: pre cursor)
  case Nil
  then have "length data + length q = length pre" by (metis append_Nil2 concat.simps(1) length_append list.map(1))
  moreover have "0 < length q" using Nil by simp
  ultimately have False using Nil.prems(2,3) by linarith
  then show ?case ..
next
  case (Cons f frames)
  have "data @ q = pre @ le_bytes 4 (length f) @ f @ concat (map enc_frame frames)"
    using Cons.prems(1) enc_frame_def [of f] by simp
  then have "slice (data @ q) cursor (cursor + 4) = le_bytes 4 (length f)"
    using Cons.prems(2) by (simp add: slice_simps)
  then have "slice data cursor (cursor + 4) = le_bytes 4 (length f)" if "cursor + 4 \<le> length data"
    using that by (simp add: slice_prefix)
  moreover have "length f < 2 ^ 32" using Cons.prems(4) by (simp add: frame_ok_def)
  moreover have "data @ q = (pre @ enc_frame f) @ concat (map enc_frame frames)"
    using Cons.prems(1) by simp
  from Cons.IH [OF this, of "cursor + 4 + length f"] Cons.prems
  have "walk_v1_body data (length frames) start (cursor + 4 + length f) = None"
    if "cursor + 4 + length f \<le> length data" using that by simp
  ultimately show ?case by (simp add: Let_def)
qed

lemma body_length_torn:
  assumes "data @ q = pre @ enc_record v2 (seq, ms, frames)" "offset = length pre" "q \<noteq> []"
    and "rec_ok v2 (seq, ms, frames)" "offset + header_size v2 \<le> length data"
  shows "body_length v2 data offset = None"
proof -
  have dq: "data @ q = pre @ enc_record v2 (seq, ms, frames) @ []" using assms(1) by simp
  have len: "length data + length q = offset + header_size v2 + length (frames_body frames)"
    using arg_cong [OF assms(1), of length] assms(2) by simp
  show ?thesis
  proof (cases v2)
    case True
    have "slice (data @ q) (offset + 20) (offset + 24) = slice data (offset + 20) (offset + 24)"
      using assms(5) True by (simp add: slice_prefix)
    with record_header(4) [OF dq assms(2) True]
    have "slice data (offset + 20) (offset + 24) = le_bytes 4 (length (frames_body frames))" by simp
    moreover have "0 < length q" using assms(3) by simp
    then have "length data < offset + 24 + length (frames_body frames)"
      using len header_size_simps(1) True by (metis less_add_same_cancel1)
    ultimately show ?thesis using True assms(4)
      by (simp add: body_length_def rec_ok_def V2_HEADER_def Let_def)
  next
    case False
    let ?h = "le_bytes 8 (unat seq) @ le_bytes 8 (unat ms) @ le_bytes 4 (length frames)"
    have "slice (data @ q) (offset + 16) (offset + 20) = slice data (offset + 16) (offset + 20)"
      using assms(5) False by (simp add: slice_prefix)
    with record_header(3) [OF dq assms(2)]
    have "slice data (offset + 16) (offset + 20) = le_bytes 4 (length frames)" by simp
    moreover have "data @ q = (pre @ ?h) @ concat (map enc_frame frames)"
      using False by (simp add: assms(1) enc_record_def frames_body_eq)
    then have "walk_v1_body data (length frames) (offset + 20) (offset + 20) = None"
      by (rule walk_v1_torn [rotated 2]) (use assms False in \<open>simp_all add: rec_ok_def\<close>)
    ultimately show ?thesis using False assms(4)
      by (simp add: body_length_def rec_ok_def V1_HEADER_def)
  qed
qed

lemma scan_records_torn:
  assumes "torn v2 t" "data = pre @ t" "soffset s = length pre"
  shows "scan_records v2 data i s = s"
proof (cases "length data < soffset s + header_size v2")
  case True
  then show ?thesis by (simp add: scan_records.simps [of v2 data i s] Let_def)
next
  case False
  then have "t \<noteq> []" using assms(2,3) by (cases v2) auto
  with assms(1) obtain r q where r: "rec_ok v2 r" "q \<noteq> []" "enc_record v2 r = t @ q"
    by (auto simp: torn_def)
  obtain seq ms frames where e: "r = (seq, ms, frames)" by (cases r)
  have "body_length v2 data (soffset s) = None"
    by (rule body_length_torn [of data q pre v2 seq ms frames]) (use r e assms False in simp_all)
  then show ?thesis using False by (simp add: scan_records.simps [of v2 data i s] Let_def)
qed

section \<open>A whole file\<close>

lemma soffset_scan_step [simp]: "soffset (scan_step i v2 r s) = soffset s + length (enc_record v2 r)"
  by (cases r) (simp add: scan_step_def)

lemma scan_records_all:
  assumes "\<forall>r \<in> set rs. rec_ok v2 r" "torn v2 t"
  shows "data = pre @ concat (map (enc_record v2) rs) @ t \<Longrightarrow> soffset s = length pre \<Longrightarrow>
    scan_records v2 data i s = foldl (\<lambda>s r. scan_step i v2 r s) s rs"
  using assms
proof (induction rs arbitrary: pre s)
  case Nil
  then show ?case by (simp add: scan_records_torn)
next
  case (Cons r rs)
  have "scan_records v2 data i s = scan_records v2 data i (scan_step i v2 r s)"
    by (rule scan_records_step [of data pre v2 r "concat (map (enc_record v2) rs) @ t"])
      (use Cons.prems in simp_all)
  also have "\<dots> = foldl (\<lambda>s r. scan_step i v2 r s) (scan_step i v2 r s) rs"
    by (rule Cons.IH [of "pre @ enc_record v2 r"]) (use Cons.prems in simp_all)
  finally show ?case by simp
qed

end
