(* ===== verification/Store_Index.thy ===== *)
theory Store_Index
  imports Store_Records
begin

text \<open>
  The representation of the store: a list of records per segment, of which the segment files are
  the encodings and the index the positions. Reading any sequence number yields the last record
  written under it, and every operation acts on the records as it should.
\<close>

section \<open>Positions\<close>

fun place :: "nat \<Rightarrow> nat \<Rightarrow> bool \<Rightarrow> group_record list \<Rightarrow> (location \<times> group_record) list" where
  "place i off v2 [] = []"
| "place i off v2 (r # rs) =
     (\<lparr>lseg = i, loff = off, lms = fst (snd r)\<rparr>, r) # place i (off + length (enc_record v2 r)) v2 rs"

fun place_all :: "nat \<Rightarrow> segment list \<Rightarrow> group_record list list \<Rightarrow> (location \<times> group_record) list" where
  "place_all i (seg # segs) (rs # rss) = place i 0 (sv2 seg) rs @ place_all (Suc i) segs rss"
| "place_all i _ _ = []"

definition index_of :: "(u64, location) omap \<Rightarrow> (location \<times> group_record) list \<Rightarrow> (u64, location) omap" where
  "index_of m ps = foldl (\<lambda>m p. om_insert (fst (snd p)) (fst p) m) m ps"

definition seg_data :: "bool \<Rightarrow> group_record list \<Rightarrow> bytes" where
  "seg_data v2 rs = concat (map (enc_record v2) rs)"

lemma seg_data_simps [simp]:
  "seg_data v2 [] = []" "seg_data v2 (r # rs) = enc_record v2 r @ seg_data v2 rs"
  "seg_data v2 (rs @ rs') = seg_data v2 rs @ seg_data v2 rs'"
  by (simp_all add: seg_data_def)

lemma index_of_simps [simp]:
  "index_of m [] = m"
  "index_of m (p # ps) = index_of (om_insert (fst (snd p)) (fst p) m) ps"
  "index_of m (ps @ qs) = index_of (index_of m ps) qs"
  by (simp_all add: index_of_def)

lemma place_append:
  "place i off v2 (rs @ rs') = place i off v2 rs @ place i (off + length (seg_data v2 rs)) v2 rs'"
  by (induction rs arbitrary: off) (simp_all add: add.assoc)

lemma place_all_append:
  "length segs = length rss \<Longrightarrow>
    place_all i (segs @ segs') (rss @ rss') = place_all i segs rss @ place_all (i + length segs) segs' rss'"
  by (induction segs rss arbitrary: i rule: list_induct2) simp_all

lemma map_snd_place [simp]: "map snd (place i off v2 rs) = rs"
  by (induction rs arbitrary: off) simp_all

lemma map_snd_place_all: "length segs = length rss \<Longrightarrow> map snd (place_all i segs rss) = concat rss"
  by (induction segs rss arbitrary: i rule: list_induct2) simp_all

lemma place_all_v2:
  "map sv2 segs = map sv2 segs' \<Longrightarrow> place_all i segs rss = place_all i segs' rss"
proof (induction segs arbitrary: i segs' rss)
  case Nil
  then show ?case by simp
next
  case (Cons seg segs)
  then obtain seg' segs'' where "segs' = seg' # segs''" by (cases segs') auto
  with Cons show ?case by (cases rss) auto
qed

lemma find_rev_Some: "find P (rev xs) = Some x \<Longrightarrow> x \<in> set xs \<and> P x"
  by (metis find_Some_iff nth_mem set_rev)

lemma om_ok_index_of [simp]: "om_ok m \<Longrightarrow> om_ok (index_of m ps)"
  by (induction ps arbitrary: m) simp_all

lemma om_get_index_of:
  "om_get (index_of m ps) k =
    (case find (\<lambda>p. fst (snd p) = k) (rev ps) of None \<Rightarrow> om_get m k | Some p \<Rightarrow> Some (fst p))"
  by (induction ps rule: rev_induct) simp_all

lemma find_map: "find P (map f xs) = map_option f (find (\<lambda>x. P (f x)) xs)"
  by (induction xs) simp_all

text \<open>The last record of each sequence number.\<close>

definition lookup :: "group_record list \<Rightarrow> u64 \<Rightarrow> group_record option" where
  "lookup rs seq = find (\<lambda>r. fst r = seq) (rev rs)"

lemma lookup_simps [simp]:
  "lookup [] = Map.empty"
  "lookup (rs @ [r]) = (lookup rs)(fst r \<mapsto> r)"
  by (auto simp: lookup_def fun_eq_iff)

lemma lookup_Some:
  assumes "lookup rs seq = Some r"
  shows "r \<in> set rs" and "fst r = seq"
  using find_rev_Some [OF assms [unfolded lookup_def]] by simp_all

lemma lookup_None: "lookup rs seq = None \<longleftrightarrow> (\<forall>r \<in> set rs. fst r \<noteq> seq)"
  by (auto simp: lookup_def find_None_iff)

lemma lookup_placed:
  assumes "length segs = length rss"
  shows "lookup (concat rss) seq =
    map_option snd (find (\<lambda>p. fst (snd p) = seq) (rev (place_all i segs rss)))"
  using find_map [of "\<lambda>r. fst r = seq" snd "rev (place_all i segs rss)"]
  by (simp add: lookup_def map_snd_place_all [OF assms, of i, symmetric] rev_map)

lemma place_in:
  "p \<in> set (place i off v2 rs) \<Longrightarrow>
    lseg (fst p) = i \<and> lms (fst p) = fst (snd (snd p)) \<and> snd p \<in> set rs \<and>
    (\<exists>pre post. seg_data v2 rs = pre @ enc_record v2 (snd p) @ post \<and> loff (fst p) = off + length pre)"
proof (induction rs arbitrary: off)
  case (Cons r rs)
  show ?case
  proof (cases "p = (\<lparr>lseg = i, loff = off, lms = fst (snd r)\<rparr>, r)")
    case True
    then show ?thesis by (auto intro: exI [of _ "[]"])
  next
    case False
    with Cons.prems have "p \<in> set (place i (off + length (enc_record v2 r)) v2 rs)" by simp
    from Cons.IH [OF this] obtain pre post where
      *: "lseg (fst p) = i" "lms (fst p) = fst (snd (snd p))" "snd p \<in> set rs"
        "seg_data v2 rs = pre @ enc_record v2 (snd p) @ post"
        "loff (fst p) = off + length (enc_record v2 r) + length pre"
      by blast
    then have "seg_data v2 (r # rs) = (enc_record v2 r @ pre) @ enc_record v2 (snd p) @ post"
      "loff (fst p) = off + length (enc_record v2 r @ pre)" by simp_all
    with * show ?thesis by (metis list.set_intros(2))
  qed
qed simp

lemma place_all_in:
  assumes "length segs = length rss"
  shows "p \<in> set (place_all i segs rss) \<Longrightarrow>
    \<exists>j pre post. j < length segs \<and> lseg (fst p) = i + j \<and> lms (fst p) = fst (snd (snd p)) \<and>
      snd p \<in> set (rss ! j) \<and> loff (fst p) = length pre \<and>
      seg_data (sv2 (segs ! j)) (rss ! j) = pre @ enc_record (sv2 (segs ! j)) (snd p) @ post"
  using assms
proof (induction segs rss arbitrary: i rule: list_induct2)
  case (Cons seg segs rs rss)
  show ?case
  proof (cases "p \<in> set (place i 0 (sv2 seg) rs)")
    case True
    from place_in [OF this] show ?thesis by (intro exI [of _ 0]) auto
  next
    case False
    with Cons.prems have "p \<in> set (place_all (Suc i) segs rss)" by simp
    from Cons.IH [OF this] obtain j pre post where "j < length segs" "lseg (fst p) = Suc i + j"
      "lms (fst p) = fst (snd (snd p))" "snd p \<in> set (rss ! j)" "loff (fst p) = length pre"
      "seg_data (sv2 (segs ! j)) (rss ! j) = pre @ enc_record (sv2 (segs ! j)) (snd p) @ post"
      by blast
    then show ?thesis by (intro exI [of _ "Suc j"] exI [of _ pre] exI [of _ post]) simp
  qed
qed simp

section \<open>Representation\<close>

definition seg_rep :: "disk \<Rightarrow> segment \<Rightarrow> group_record list \<Rightarrow> bool" where
  "seg_rep d seg rs \<longleftrightarrow>
     map_of (files d) (spath seg) = Some (seg_data (sv2 seg) rs) \<and>
     sbytes seg = length (seg_data (sv2 seg) rs) \<and>
     snewest seg = (if rs = [] then 0 else fst (snd (last rs))) \<and>
     (\<forall>r \<in> set rs. rec_ok (sv2 seg) r)"

definition rep :: "disk \<Rightarrow> group_store \<Rightarrow> group_record list list \<Rightarrow> bool" where
  "rep d st rss \<longleftrightarrow>
     list_all2 (seg_rep d) (segments st) rss \<and>
     distinct (map spath (segments st)) \<and>
     index st = index_of [] (place_all 0 (segments st) rss) \<and>
     (\<forall>r \<in> set (concat rss). \<exists>m. max_seq st = Some m \<and> fst r \<le> m) \<and>
     (case writer st of None \<Rightarrow> True
      | Some w \<Rightarrow> wbuf w = [] \<and> segments st \<noteq> [] \<and> wpath w = spath (last (segments st)))"

text \<open>What the store promises to hold: sequence numbers to frames.\<close>

definition contents :: "group_record list list \<Rightarrow> u64 \<Rightarrow> bytes list option" where
  "contents rss seq = map_option (\<lambda>r. snd (snd r)) (lookup (concat rss) seq)"

lemma rep_length: "rep d st rss \<Longrightarrow> length (segments st) = length rss"
  by (auto simp: rep_def dest: list_all2_lengthD)

lemma rep_read:
  assumes "rep d st rss" "granted d"
  shows "read d st seq = Inr (contents rss seq)"
proof -
  note len = rep_length [OF assms(1)]
  let ?ps = "place_all 0 (segments st) rss"
  have get: "om_get (index st) seq = map_option fst (find (\<lambda>p. fst (snd p) = seq) (rev ?ps))"
    using assms(1) by (simp add: rep_def om_get_index_of split: option.splits)
  show ?thesis
  proof (cases "find (\<lambda>p. fst (snd p) = seq) (rev ?ps)")
    case None
    then show ?thesis
      by (simp add: read_def locate_def get contents_def lookup_placed [OF len, of _ 0] del: bind_res_eq_Inr)
  next
    case (Some p)
    then have p: "p \<in> set ?ps" "fst (snd p) = seq" using find_rev_Some by fastforce+
    from place_all_in [OF len p(1)] obtain j pre post where j: "j < length (segments st)"
      "lseg (fst p) = j" "snd p \<in> set (rss ! j)" "loff (fst p) = length pre"
      "seg_data (sv2 (segments st ! j)) (rss ! j) = pre @ enc_record (sv2 (segments st ! j)) (snd p) @ post"
      by auto
    let ?seg = "segments st ! j"
    have "seg_rep d ?seg (rss ! j)" using assms(1) j(1) by (auto simp: rep_def dest: list_all2_nthD)
    then have f: "map_of (files d) (spath ?seg) = Some (pre @ enc_record (sv2 ?seg) (snd p) @ post)"
      and ok: "rec_ok (sv2 ?seg) (snd p)" using j by (auto simp: seg_rep_def)
    obtain ms frames where r: "snd p = (seq, ms, frames)" using p(2) by (cases "snd p") auto
    have "contents rss seq = Some frames" by (simp add: contents_def lookup_placed [OF len, of _ 0] Some r)
    moreover have "locate st seq = Inr (Some \<lparr>gpath = spath ?seg, goff = length pre, gv2 = sv2 ?seg\<rparr>)"
      using j by (simp add: locate_def get Some get_at_def)
    moreover have "read_group_at d \<lparr>gpath = spath ?seg, goff = length pre, gv2 = sv2 ?seg\<rparr> seq = Inr frames"
      using records.decode_enc [OF ok, of post] f assms(2) by (simp add: read_group_at_def r)
    ultimately show ?thesis by (simp add: read_def del: bind_res_eq_Inr)
  qed
qed

lemma rep_index:
  assumes "rep d st rss"
  shows "om_get (index st) k = None \<longleftrightarrow> contents rss k = None" and "om_ok (index st)"
proof -
  have i: "index st = index_of [] (place_all 0 (segments st) rss)" using assms by (simp add: rep_def)
  show "om_get (index st) k = None \<longleftrightarrow> contents rss k = None"
    unfolding i om_get_index_of contents_def lookup_placed [OF rep_length [OF assms], of k 0]
    by (simp split: option.split)
  show "om_ok (index st)" unfolding i by simp
qed

end
