(* ===== verification/Store_Ops.thy ===== *)
theory Store_Ops
  imports Store_Index
begin

text \<open>
  What the store's operations do to the records it represents: appending adds one record at the
  end, whatever the buffering; opening reads exactly the complete records back and cuts the torn
  tails off; garbage collection drops leading segments.
\<close>

section \<open>Writing through the buffer\<close>

lemma emit_content:
  "fst (emit p bs d) = d\<lparr>files := AList.update p (content d p @ take (snd (emit p bs d)) bs) (files d),
     room := map_option (\<lambda>k. k - snd (emit p bs d)) (room d)\<rparr>"
  "snd (emit p bs d) = (case room d of None \<Rightarrow> length bs | Some k \<Rightarrow> min k (length bs))"
  by (simp_all add: emit_def Let_def)

definition room_for :: "disk \<Rightarrow> bytes \<Rightarrow> nat" where
  "room_for d bs = (case room d of None \<Rightarrow> length bs | Some k \<Rightarrow> min k (length bs))"

definition put :: "disk \<Rightarrow> buf_writer \<Rightarrow> bytes \<Rightarrow> disk \<times> buf_writer \<times> bool" where
  "put d w bs =
     (let (d, w, ok) = write_all d w bs in if \<not> ok then (d, w, False) else flush_buf d w)"

definition written :: "disk \<Rightarrow> string \<Rightarrow> bytes \<Rightarrow> disk" where
  "written d p bs = d\<lparr>files := AList.update p (content d p @ take (room_for d bs) bs) (files d),
     room := map_option (\<lambda>k. k - room_for d bs) (room d)\<rparr>"

lemma emit_written: "emit p bs d = (written d p bs, room_for d bs)"
  by (simp add: emit_def written_def room_for_def Let_def)

text \<open>Whatever the length of the record, the bytes that fit reach the file in order.\<close>

lemma put_empty:
  assumes "wbuf w = []" "bs \<noteq> []"
  shows "\<exists>w'. put d w bs = (written d (wpath w) bs, w', room_for d bs = length bs) \<and>
    wpath w' = wpath w \<and> (room_for d bs = length bs \<longrightarrow> w' = w)"
proof (cases "length bs < BUF_CAPACITY")
  case True
  then have "write_all d w bs = (d, w\<lparr>wbuf := bs\<rparr>, True)"
    using assms by (simp add: write_all_def)
  moreover have "w\<lparr>wbuf := []\<rparr> = w" using assms(1) by (cases w) simp
  ultimately show ?thesis using assms(2)
    by (simp add: put_def flush_buf_def emit_written Let_def)
next
  case False
  then have "write_all d w bs = (written d (wpath w) bs, w, room_for d bs = length bs)"
    using assms(1) by (simp add: write_all_def flush_buf_def emit_written Let_def)
  then show ?thesis using assms(1) by (simp add: put_def flush_buf_def Let_def)
qed

section \<open>Appending\<close>

lemma seg_rep_cong:
  "map_of (files d') (spath seg) = map_of (files d) (spath seg) \<Longrightarrow> seg_rep d' seg rs = seg_rep d seg rs"
  by (simp add: seg_rep_def)

lemma seg_reps_cong:
  assumes "list_all2 (seg_rep d) segs rss"
    and "\<And>s. s \<in> set segs \<Longrightarrow> map_of (files d') (spath s) = map_of (files d) (spath s)"
  shows "list_all2 (seg_rep d') segs rss"
  using assms(1) by (rule list.rel_mono_strong) (use assms(2) seg_rep_cong in blast)

definition rss_ready :: "bool \<Rightarrow> group_record list list \<Rightarrow> group_record list list" where
  "rss_ready rot rss = (if rot then rss @ [[]] else rss)"

definition add_record :: "group_record \<Rightarrow> group_record list list \<Rightarrow> group_record list list" where
  "add_record r rss = butlast rss @ [last rss @ [r]]"

lemma concat_rss_ready [simp]: "concat (rss_ready rot rss) = concat rss"
  by (simp add: rss_ready_def)

lemma concat_add_record [simp]: "rss \<noteq> [] \<Longrightarrow> concat (add_record r rss) = concat rss @ [r]"
  by (cases rss rule: rev_cases) (simp_all add: add_record_def)

definition writer_ready :: "disk \<Rightarrow> group_store \<Rightarrow> group_record list list \<Rightarrow> bool" where
  "writer_ready d st rss \<longleftrightarrow>
     rep d st rss \<and> segments st \<noteq> [] \<and> sv2 (last (segments st)) \<and>
     writer st = Some \<lparr>wpath = spath (last (segments st)), wbuf = []\<rparr>"

definition fresh_name :: "u64 \<Rightarrow> disk \<Rightarrow> bool" where
  "fresh_name seq d \<longleftrightarrow> map_of (files d) (segment_name seq) = None"

lemma rep_paths:
  "rep d st rss \<Longrightarrow> s \<in> set (segments st) \<Longrightarrow> map_of (files d) (spath s) \<noteq> None"
  unfolding rep_def seg_rep_def by (auto simp: list_all2_conv_all_nth in_set_conv_nth)

lemma take_writer_rep:
  "rep d st rss \<Longrightarrow> take_writer d st = (d, st\<lparr>writer := None\<rparr>, True)"
  by (auto simp: take_writer_def rep_def flush_buf_def split: option.splits)

lemma ensure_writer_rep:
  assumes "rep d st rss" "granted d" "rotate_due st \<longrightarrow> fresh_name seq d"
  shows "\<exists>d' st'. ensure_writer seq d st = ((d', st'), Inr ()) \<and>
    writer_ready d' st' (rss_ready (rotate_due st) rss) \<and>
    files d' = (if rotate_due st then AList.update (segment_name seq) [] (files d) else files d) \<and>
    room d' = room d \<and> granted d' \<and> max_seq st' = max_seq st \<and>
    segment_target st' = segment_target st \<and>
    segments st' = (if rotate_due st then segments st @ [\<lparr>spath = segment_name seq, sfirst = seq,
       snewest = 0, sbytes = 0, sv2 = True\<rparr>] else segments st)"
proof (cases "rotate_due st")
  case True
  let ?p = "segment_name seq"
  let ?s = "\<lparr>spath = ?p, sfirst = seq, snewest = 0, sbytes = 0, sv2 = True\<rparr>"
  let ?d = "d\<lparr>files := AList.update ?p [] (files d)\<rparr>"
  let ?st = "st\<lparr>segments := segments st @ [?s], writer := Some \<lparr>wpath = ?p, wbuf = []\<rparr>\<rparr>"
  have fresh: "map_of (files d) ?p = None" using assms(3) True by (simp add: fresh_name_def)
  have e: "ensure_writer seq d st = ((?d, ?st), Inr ())"
    using True assms(2) fresh
    by (simp add: ensure_writer_def take_writer_rep [OF assms(1)] content_def Let_def)
  have ne: "spath s \<noteq> ?p" if "s \<in> set (segments st)" for s
    using rep_paths [OF assms(1) that] fresh by auto
  then have notin: "?p \<notin> spath ` set (segments st)" by (metis imageE)
  have "list_all2 (seg_rep ?d) (segments st) rss"
    by (rule seg_reps_cong [of d]) (use assms(1) ne in \<open>auto simp: rep_def update_conv\<close>)
  moreover have "seg_rep ?d ?s []" by (simp add: seg_rep_def update_conv)
  ultimately have "rep ?d ?st (rss @ [[]])"
    using assms(1) notin rep_length [OF assms(1)]
    by (simp add: rep_def list_all2_appendI place_all_append)
  then show ?thesis using True e assms(2) by (simp add: writer_ready_def rss_ready_def)
next
  case False
  then have ne: "segments st \<noteq> []" "sv2 (last (segments st))"
    by (auto simp: rotate_due_def split: list.splits)
  show ?thesis
  proof (cases "writer st")
    case None
    let ?st = "st\<lparr>writer := Some \<lparr>wpath = spath (last (segments st)), wbuf = []\<rparr>\<rparr>"
    have "map_of (files d) (spath (last (segments st))) \<noteq> None"
      using rep_paths [OF assms(1), of "last (segments st)"] ne(1) by simp
    then have "ensure_writer seq d st = ((d, ?st), Inr ())"
      using False None assms(2) by (auto simp: ensure_writer_def Let_def)
    moreover have "rep d ?st rss" using assms(1) ne(1) by (simp add: rep_def)
    ultimately show ?thesis using False ne assms(2) by (simp add: writer_ready_def rss_ready_def)
  next
    case (Some w)
    then have "w = \<lparr>wpath = spath (last (segments st)), wbuf = []\<rparr>"
      using assms(1) by (cases w) (simp add: rep_def)
    moreover have "ensure_writer seq d st = ((d, st), Inr ())"
      using False Some by (simp add: ensure_writer_def)
    ultimately show ?thesis using False ne assms Some by (simp add: writer_ready_def rss_ready_def)
  qed
qed

definition appended :: "nat \<Rightarrow> u64 \<Rightarrow> u64 \<Rightarrow> group_store \<Rightarrow> group_store" where
  "appended len seq ms st =
     (let i = length (segments st) - 1; seg = segments st ! i in
      st\<lparr>segments := (segments st)[i := seg\<lparr>sbytes := sbytes seg + len, snewest := ms\<rparr>],
         index := om_insert seq \<lparr>lseg = i, loff = sbytes seg, lms = ms\<rparr> (index st),
         max_seq := Some (case max_seq st of None \<Rightarrow> seq | Some m \<Rightarrow> max m seq)\<rparr>)"

text \<open>An append to a writer that is ready.\<close>

lemma append_put:
  assumes "ensure_writer seq d0 st0 = ((d, st), Inr ())" "writer st = Some w"
  shows "append_group seq ms frames d0 st0 =
    (case put d w (record_bytes seq ms frames) of (d, w, ok) \<Rightarrow>
       if ok then ((d, appended (length (record_bytes seq ms frames)) seq ms (st\<lparr>writer := Some w\<rparr>)), Inr ())
       else ((d, st\<lparr>writer := Some w\<rparr>), Inl WriteFailed))"
  by (simp add: append_group_def assms put_def appended_def Let_def split: prod.splits)

lemma append_ready:
  fixes ms frames
  assumes "ensure_writer seq d0 st0 = ((d, st), Inr ())" "writer_ready d st rss"
  defines "bs \<equiv> record_bytes seq ms frames" and "p \<equiv> spath (last (segments st))"
  shows "if room_for d bs = length bs
    then append_group seq ms frames d0 st0 = ((written d p bs, appended (length bs) seq ms st), Inr ())
    else \<exists>w'. append_group seq ms frames d0 st0 = ((written d p bs, st\<lparr>writer := w'\<rparr>), Inl WriteFailed)"
proof -
  let ?w = "\<lparr>wpath = p, wbuf = []\<rparr>"
  have w: "writer st = Some ?w" using assms(2) by (simp add: writer_ready_def p_def)
  have "bs \<noteq> []" by (simp add: bs_def record_bytes_eq)
  with put_empty [of ?w bs d] obtain w' where
    put: "put d ?w bs = (written d p bs, w', room_for d bs = length bs)"
    and w': "room_for d bs = length bs \<longrightarrow> w' = ?w" by auto
  have st: "st\<lparr>writer := Some ?w\<rparr> = st" using w by (cases st) simp
  show ?thesis using append_put [OF assms(1) w, of ms frames, folded bs_def] put w' st by auto
qed

text \<open>The last segment with its records, and the files of the others.\<close>

lemma rep_lastE:
  assumes "rep d st rss" "segments st \<noteq> []"
  obtains segs seg rss' rs where "segments st = segs @ [seg]" "rss = rss' @ [rs]" "length segs = length rss'"
    "list_all2 (seg_rep d) segs rss'" "seg_rep d seg rs" "distinct (map spath (segs @ [seg]))"
    "\<And>s. s \<in> set segs \<Longrightarrow> spath s \<noteq> spath seg"
proof -
  obtain segs seg where segs: "segments st = segs @ [seg]" using assms(2) by (cases "segments st" rule: rev_cases) auto
  have "list_all2 (seg_rep d) (segs @ [seg]) rss" and dist: "distinct (map spath (segs @ [seg]))"
    using assms(1) by (simp_all add: rep_def segs)
  then obtain rss' rs where rss: "rss = rss' @ [rs]"
    and reps: "list_all2 (seg_rep d) segs rss'" "seg_rep d seg rs"
    by (auto simp: list_all2_append1 list_all2_Cons1)
  have "spath s \<noteq> spath seg" if "s \<in> set segs" for s using dist that by (auto simp: image_iff)
  from that [OF segs rss list_all2_lengthD [OF reps(1)] reps dist this] show thesis .
qed

text \<open>What is written into the last segment.\<close>

lemma written_last:
  assumes "seg_rep d seg rs" "sv2 seg"
  shows "map_of (files (written d (spath seg) bs)) q =
    (if q = spath seg then Some (seg_data True rs @ take (room_for d bs) bs) else map_of (files d) q)"
  using assms by (simp add: written_def update_conv content_def seg_rep_def)

lemma appended_max_seq:
  assumes "rep d st rss" "x \<in> set (concat rss) \<or> x = (seq, ms, frames)"
  shows "\<exists>m. max_seq (appended n seq ms st) = Some m \<and> fst x \<le> m"
proof -
  have "\<forall>x \<in> set (concat rss). \<exists>m. max_seq st = Some m \<and> fst x \<le> m"
    using assms(1) by (simp add: rep_def)
  then have "(\<exists>m. max_seq st = Some m \<and> fst x \<le> m) \<or> fst x = seq" using assms(2) by (metis fst_conv)
  moreover have "max_seq (appended n seq ms st) = Some (case max_seq st of None \<Rightarrow> seq | Some m \<Rightarrow> max m seq)"
    by (simp add: appended_def Let_def)
  ultimately show ?thesis by (auto simp: le_max_iff_disj split: option.splits)
qed

lemma rep_add_record:
  assumes "writer_ready d st rss" "rec_ok True (seq, ms, frames)"
  defines "bs \<equiv> record_bytes seq ms frames" and "p \<equiv> spath (last (segments st))"
  assumes "room_for d bs = length bs"
  shows "rep (written d p bs) (appended (length bs) seq ms st) (add_record (seq, ms, frames) rss)"
proof -
  let ?r = "(seq, ms, frames)"
  have rep: "rep d st rss" and ne: "segments st \<noteq> []" and v2: "sv2 (last (segments st))"
    and w: "writer st = Some \<lparr>wpath = p, wbuf = []\<rparr>"
    using assms(1) by (simp_all add: writer_ready_def p_def)
  obtain segs seg rss' rs where segs: "segments st = segs @ [seg]" and rss: "rss = rss' @ [rs]"
    and len: "length segs = length rss'" and reps: "list_all2 (seg_rep d) segs rss'" "seg_rep d seg rs"
    and dist: "distinct (map spath (segs @ [seg]))" and others: "\<And>s. s \<in> set segs \<Longrightarrow> spath s \<noteq> spath seg"
    using rep_lastE [OF rep ne] by metis
  have p: "p = spath seg" and v2: "sv2 seg" using v2 by (simp_all add: p_def segs)
  have bs: "bs = enc_record True ?r" by (simp add: bs_def record_bytes_eq)
  note files = written_last [OF reps(2) v2, of bs]
  let ?seg = "seg\<lparr>sbytes := sbytes seg + length bs, snewest := ms\<rparr>"
  have "list_all2 (seg_rep (written d p bs)) segs rss'"
    by (intro seg_reps_cong [OF reps(1)]) (use others in \<open>simp add: files p\<close>)
  moreover have "seg_rep (written d p bs) ?seg (rs @ [?r])"
    using reps(2) v2 assms(2,5) by (simp add: seg_rep_def files p) (simp add: bs)
  moreover have "index (appended (length bs) seq ms st) =
      index_of [] (place_all 0 (segs @ [?seg]) (rss' @ [rs @ [?r]]))"
    using rep reps(2) v2 len
    by (simp add: appended_def segs rep_def rss place_all_append place_append seg_rep_def nth_append Let_def)
  moreover have "\<forall>r \<in> set (concat (rss' @ [rs @ [?r]])).
      \<exists>m. max_seq (appended (length bs) seq ms st) = Some m \<and> fst r \<le> m"
  proof
    fix x assume "x \<in> set (concat (rss' @ [rs @ [?r]]))"
    then have "x \<in> set (concat rss) \<or> x = ?r" by (auto simp: rss)
    then show "\<exists>m. max_seq (appended (length bs) seq ms st) = Some m \<and> fst x \<le> m" by (rule appended_max_seq [OF rep])
  qed
  moreover have "segments (appended (length bs) seq ms st) = segs @ [?seg]"
    by (simp add: appended_def segs Let_def list_update_append nth_append)
  moreover have "writer (appended (length bs) seq ms st) = Some \<lparr>wpath = p, wbuf = []\<rparr>"
    using w by (simp add: appended_def Let_def)
  moreover have "add_record ?r rss = rss' @ [rs @ [?r]]" by (simp add: add_record_def rss)
  moreover have "distinct (map spath (segs @ [?seg]))" using dist by simp
  ultimately show ?thesis
    unfolding rep_def by (simp only: list_all2_appendI list_all2_Cons list.rel_inject(1) p) simp
qed

end
