(* ===== verification/Store_Recovery.thy ===== *)
theory Store_Recovery
  imports Store_Ops
begin

text \<open>
  Opening a directory: the scan of a file finds exactly its complete records, truncates what is
  torn behind them, and the opened store represents the records of all segment files in the order
  of their names.
\<close>

definition max_of :: "u64 option \<Rightarrow> group_record list \<Rightarrow> u64 option" where
  "max_of m rs = foldl (\<lambda>m r. Some (case m of None \<Rightarrow> fst r | Some m \<Rightarrow> max m (fst r))) m rs"

lemma max_of_simps [simp]:
  "max_of m [] = m"
  "max_of m (r # rs) = max_of (Some (case m of None \<Rightarrow> fst r | Some m \<Rightarrow> max m (fst r))) rs"
  "max_of m (rs @ rs') = max_of (max_of m rs) rs'"
  by (simp_all add: max_of_def)

lemma max_of_mono: "max_of (Some m) rs = Some m' \<Longrightarrow> m \<le> m'"
  by (induction rs arbitrary: m) fastforce+

lemma max_of_Some: "\<exists>m'. max_of (Some m) rs = Some m'"
  by (induction rs arbitrary: m) simp_all

lemma max_of_bound: "r \<in> set rs \<Longrightarrow> \<exists>m'. max_of m rs = Some m' \<and> fst r \<le> m'"
proof (induction rs arbitrary: m)
  case (Cons s rs)
  let ?m = "case m of None \<Rightarrow> fst s | Some m \<Rightarrow> max m (fst s)"
  show ?case
  proof (cases "r \<in> set rs")
    case True
    then show ?thesis using Cons.IH by simp
  next
    case False
    with Cons.prems have "fst r \<le> ?m" by (auto split: option.splits)
    moreover obtain m' where "max_of (Some ?m) rs = Some m'" using max_of_Some by blast
    ultimately show ?thesis using max_of_mono [of ?m rs m'] by auto
  qed
qed simp

lemma max_of_in: "max_of None rs = Some m \<Longrightarrow> \<exists>r \<in> set rs. fst r = m"
proof (induction rs arbitrary: m rule: rev_induct)
  case (snoc r rs)
  then show ?case by (cases "max_of None rs") (auto simp: max_def split: if_splits)
qed simp

section \<open>One file\<close>

lemma scan_steps:
  "foldl (\<lambda>s r. scan_step i v2 r s) s rs =
    \<lparr>soffset = soffset s + length (seg_data v2 rs),
     sfirst_seq = (case sfirst_seq s of None \<Rightarrow> if rs = [] then None else Some (fst (hd rs)) | Some f \<Rightarrow> Some f),
     snewest_ms = (if rs = [] then snewest_ms s else fst (snd (last rs))),
     sindex = index_of (sindex s) (place i (soffset s) v2 rs),
     smax = max_of (smax s) rs\<rparr>"
proof (induction rs arbitrary: s)
  case Nil
  then show ?case by (cases s) (simp split: option.splits)
next
  case (Cons r rs)
  obtain seq ms frames where r: "r = (seq, ms, frames)" by (cases r)
  show ?case unfolding foldl_Cons Cons.IH
    by (simp add: scan_step_def r add.assoc split: option.splits)
qed

text \<open>A segment file: its name, its complete records, and what is torn behind them.\<close>

type_synonym seg_file = "string \<times> group_record list \<times> bytes"

definition file_rep :: "disk \<Rightarrow> seg_file \<Rightarrow> bool" where
  "file_rep d f = (case f of (p, rs, t) \<Rightarrow>
     map_of (files d) p = Some (seg_data (is_v2 p) rs @ t) \<and>
     (\<forall>r \<in> set rs. rec_ok (is_v2 p) r) \<and> torn (is_v2 p) t)"

definition scanned :: "seg_file \<Rightarrow> segment" where
  "scanned f = (case f of (p, rs, t) \<Rightarrow>
     \<lparr>spath = p, sfirst = (if rs = [] then 0 else fst (hd rs)),
      snewest = (if rs = [] then 0 else fst (snd (last rs))),
      sbytes = length (seg_data (is_v2 p) rs), sv2 = is_v2 p\<rparr>)"

definition truncated :: "seg_file \<Rightarrow> disk \<Rightarrow> disk" where
  "truncated f d = (case f of (p, rs, t) \<Rightarrow>
     if t = [] then d else d\<lparr>files := AList.update p (seg_data (is_v2 p) rs) (files d)\<rparr>)"

lemma map_of_truncated:
  "map_of (files (truncated (p, rs, t) d)) q =
    (if q = p \<and> t \<noteq> [] then Some (seg_data (is_v2 p) rs) else map_of (files d) q)"
  by (auto simp: truncated_def update_conv)

lemma truncated_simps [simp]: "granted (truncated f d) = granted d" "room (truncated f d) = room d"
  by (cases f; simp add: truncated_def)+

lemma scan_file_rep:
  assumes "granted d" "file_rep d (p, rs, t)"
  shows "scan_file p d st = ((truncated (p, rs, t) d,
    st\<lparr>segments := segments st @ [scanned (p, rs, t)],
       index := index_of (index st) (place (length (segments st)) 0 (is_v2 p) rs),
       max_seq := max_of (max_seq st) rs\<rparr>), Inr ())"
proof -
  let ?v2 = "is_v2 p" and ?i = "length (segments st)"
  let ?s = "\<lparr>soffset = 0, sfirst_seq = None, snewest_ms = 0, sindex = index st, smax = max_seq st\<rparr>"
  have f: "map_of (files d) p = Some (seg_data ?v2 rs @ t)" "\<forall>r \<in> set rs. rec_ok ?v2 r" "torn ?v2 t"
    using assms(2) by (simp_all add: file_rep_def)
  have "scan_records ?v2 (seg_data ?v2 rs @ t) ?i ?s = foldl (\<lambda>s r. scan_step ?i ?v2 r s) ?s rs"
    by (rule scan_records_all [OF f(2,3), of _ "[]"]) (simp_all add: seg_data_def)
  then show ?thesis using assms(1) f(1)
    by (simp add: scan_file_def content_def scan_steps scanned_def truncated_def Let_def)
qed

section \<open>All files\<close>

definition opened :: "nat \<Rightarrow> seg_file list \<Rightarrow> group_store" where
  "opened target fs =
     \<lparr>segments = map scanned fs,
      index = index_of [] (place_all 0 (map scanned fs) (map (fst \<circ> snd) fs)),
      writer = None, max_seq = max_of None (concat (map (fst \<circ> snd) fs)),
      segment_target = target\<rparr>"

lemma sv2_scanned [simp]: "sv2 (scanned f) = is_v2 (fst f)" "spath (scanned f) = fst f"
  by (cases f; simp add: scanned_def)+

lemma scan_paths_rep:
  "granted d \<Longrightarrow> \<forall>f \<in> set fs. file_rep d f \<Longrightarrow> distinct (map fst fs) \<Longrightarrow>
    scan_paths (map fst fs) d (opened target gs) =
      ((fold truncated fs d, opened target (gs @ fs)), Inr ())"
proof (induction fs arbitrary: d gs)
  case (Cons f fs)
  obtain p rs t where f: "f = (p, rs, t)" by (cases f)
  have "scan_file p d (opened target gs) = ((truncated f d, opened target (gs @ [f])), Inr ())"
    using scan_file_rep [of d p rs t "opened target gs"] Cons.prems(1,2)
    by (simp add: f opened_def place_all_append)
  moreover have "file_rep (truncated f d) g" if "g \<in> set fs" for g
  proof -
    obtain q rs' t' where g: "g = (q, rs', t')" by (cases g)
    have "q \<noteq> p" using that Cons.prems(3) by (force simp: f g)
    moreover have "file_rep d g" using that Cons.prems(2) by simp
    ultimately show ?thesis by (simp add: file_rep_def f g map_of_truncated)
  qed
  ultimately show ?case using Cons.IH [of "truncated f d" "gs @ [f]"] Cons.prems
    by (simp add: f)
qed simp

definition dir_rep :: "disk \<Rightarrow> seg_file list \<Rightarrow> bool" where
  "dir_rep d fs \<longleftrightarrow> granted d \<and> (\<forall>f \<in> set fs. file_rep d f) \<and> distinct (map fst fs) \<and>
     sort_key file_stem (filter is_segment_file (map fst (files d))) = map fst fs"

lemma map_of_truncates:
  "distinct (map fst fs) \<Longrightarrow> map_of (files (fold truncated fs d)) q =
    (case map_of fs q of Some (rs, t) \<Rightarrow>
       if t \<noteq> [] then Some (seg_data (is_v2 q) rs) else map_of (files d) q
     | None \<Rightarrow> map_of (files d) q)"
proof (induction fs arbitrary: d)
  case (Cons f fs)
  obtain p rs t where f: "f = (p, rs, t)" by (cases f)
  have "map_of fs p = None" using Cons.prems by (simp add: f map_of_eq_None_iff)
  then show ?case using Cons.IH [of "truncated f d"] Cons.prems
    by (auto simp: f map_of_truncated split: option.splits)
qed simp

lemma fold_truncated_simps [simp]:
  "granted (fold truncated fs d) = granted d" "room (fold truncated fs d) = room d"
  by (induction fs arbitrary: d) simp_all

text \<open>Opening recovers the complete records, cuts the torn tails off, and nothing else.\<close>

lemma open_rep:
  assumes "dir_rep d fs"
  shows "open_with_segment_target target d = (fold truncated fs d, Inr (opened target fs))"
    and "rep (fold truncated fs d) (opened target fs) (map (fst \<circ> snd) fs)"
proof -
  have g: "granted d" "\<forall>f \<in> set fs. file_rep d f" "distinct (map fst fs)"
    "sort_key file_stem (filter is_segment_file (map fst (files d))) = map fst fs"
    using assms by (simp_all add: dir_rep_def)
  have "opened target [] = \<lparr>segments = [], index = [], writer = None, max_seq = None, segment_target = target\<rparr>"
    by (simp add: opened_def)
  then show "open_with_segment_target target d = (fold truncated fs d, Inr (opened target fs))"
    using scan_paths_rep [OF g(1-3), of target "[]"] g(1)
    by (simp add: open_with_segment_target_def scan_def g(4))
  have "seg_rep (fold truncated fs d) (scanned f) (fst (snd f))" if "f \<in> set fs" for f
  proof -
    obtain p rs t where f: "f = (p, rs, t)" by (cases f)
    have "map_of fs p = Some (rs, t)" using that g(3) by (simp add: f)
    moreover have "file_rep d (p, rs, t)" using that g(2) f by blast
    ultimately show ?thesis
      by (simp add: seg_rep_def f map_of_truncates [OF g(3)] file_rep_def) (simp add: scanned_def)
  qed
  then have "list_all2 (seg_rep (fold truncated fs d)) (map scanned fs) (map (fst \<circ> snd) fs)"
    by (simp add: list_all2_map1 list_all2_map2 list_all2_same)
  moreover have "map spath (map scanned fs) = map fst fs" by simp
  moreover have "\<forall>r \<in> set (concat (map (fst \<circ> snd) fs)).
      \<exists>m. max_of None (concat (map (fst \<circ> snd) fs)) = Some m \<and> fst r \<le> m"
    using max_of_bound by blast
  ultimately show "rep (fold truncated fs d) (opened target fs) (map (fst \<circ> snd) fs)"
    unfolding rep_def opened_def using g(3)
    by (simp only: group_store.select_convs option.case simp_thms)
qed

end
