(* ===== verification/Store_GC.thy ===== *)
theory Store_GC
  imports Store_Ops
begin

text \<open>
  Garbage collection: while segments cover ascending ranges of sequence numbers, dropping the
  first one is dropping its records, the index keeps pointing at what it pointed at, and the loop
  ends with the first segment that is neither expired nor over the budget, or the last one.
\<close>

section \<open>Ascending segments\<close>

text \<open>Every segment holds sequence numbers from its first one up to the next segment's.\<close>

fun ascending :: "segment list \<Rightarrow> group_record list list \<Rightarrow> bool" where
  "ascending (s # s' # segs) (rs # rss) =
     (sfirst s \<le> sfirst s' \<and> (\<forall>r \<in> set rs. sfirst s \<le> fst r \<and> fst r < sfirst s') \<and>
      ascending (s' # segs) rss)"
| "ascending [s] (rs # rss) = (\<forall>r \<in> set rs. sfirst s \<le> fst r)"
| "ascending _ _ = True"

lemma ascending_lower:
  "length segs = length rss \<Longrightarrow> ascending (s # segs) (rs # rss) \<Longrightarrow> r \<in> set (concat (rs # rss)) \<Longrightarrow>
    sfirst s \<le> fst r"
proof (induction segs rss arbitrary: s rs rule: list_induct2)
  case (Cons s' segs rs' rss)
  then have "sfirst s \<le> sfirst s'" and "ascending (s' # segs) (rs' # rss)" by auto
  with Cons.IH [of s' rs'] Cons.prems show ?case by (cases "r \<in> set rs") force+
qed simp

section \<open>The index after one step\<close>

lemma place_shift: "place (Suc i) off v2 rs = map (\<lambda>p. (fst p\<lparr>lseg := Suc i\<rparr>, snd p)) (place i off v2 rs)"
  by (induction rs arbitrary: off) simp_all

lemma place_lseg: "p \<in> set (place i off v2 rs) \<Longrightarrow> lseg (fst p) = i"
  by (induction rs arbitrary: off) auto

lemma place_all_shift:
  "place_all (Suc i) segs rss = map (\<lambda>p. (fst p\<lparr>lseg := Suc (lseg (fst p))\<rparr>, snd p)) (place_all i segs rss)"
proof (induction i segs rss rule: place_all.induct)
  case (1 i seg segs rs rss)
  have "place (Suc i) 0 (sv2 seg) rs =
      map (\<lambda>p. (fst p\<lparr>lseg := Suc (lseg (fst p))\<rparr>, snd p)) (place i 0 (sv2 seg) rs)"
    unfolding place_shift using place_lseg by fastforce
  with 1 show ?case by simp
qed simp_all

lemma find_rev_None: "find P (rev xs) = None \<longleftrightarrow> (\<forall>x \<in> set xs. \<not> P x)"
  by (auto simp: find_None_iff)

lemma gc_index_step:
  assumes "length segs = length rss" "ascending (s # s' # segs) (rs # rs' # rss)"
  shows "gc_index (sfirst s) (sfirst s') (index_of [] (place_all 0 (s # s' # segs) (rs # rs' # rss))) =
    index_of [] (place_all 0 (s' # segs) (rs' # rss))"
proof (rule om_eqI)
  let ?A = "place 0 0 (sv2 s) rs" and ?B = "place_all 0 (s' # segs) (rs' # rss)"
  show "om_ok (gc_index (sfirst s) (sfirst s') (index_of [] (place_all 0 (s # s' # segs) (rs # rs' # rss))))"
    "om_ok (index_of [] ?B)" by (simp_all add: gc_index_def)
  fix k
  let ?P = "\<lambda>p :: location \<times> group_record. fst (snd p) = k"
  have all: "place_all 0 (s # s' # segs) (rs # rs' # rss) =
      ?A @ map (\<lambda>p. (fst p\<lparr>lseg := Suc (lseg (fst p))\<rparr>, snd p)) ?B"
    unfolding place_all.simps(1) [of 0 s] place_all_shift ..
  have findB: "find ?P (rev (map (\<lambda>p. (fst p\<lparr>lseg := Suc (lseg (fst p))\<rparr>, snd p)) ?B)) =
      map_option (\<lambda>p. (fst p\<lparr>lseg := Suc (lseg (fst p))\<rparr>, snd p)) (find ?P (rev ?B))"
    by (simp add: rev_map find_map del: place_all.simps)
  have find_app: "find Q (xs @ ys) = (case find Q xs of None \<Rightarrow> find Q ys | Some x \<Rightarrow> Some x)"
    for Q and xs ys :: "(location \<times> group_record) list"
    by (induction xs) auto
  have sndB: "snd ` set ?B = set (concat (rs' # rss))"
    using map_snd_place_all [of "s' # segs" "rs' # rss" 0] assms(1) by (metis length_Cons list.set_map)
  show "om_get (gc_index (sfirst s) (sfirst s') (index_of [] (place_all 0 (s # s' # segs) (rs # rs' # rss)))) k =
      om_get (index_of [] ?B) k"
  proof (cases "find ?P (rev ?B)")
    case None
    show ?thesis
    proof (cases "find ?P (rev ?A)")
      case None
      then show ?thesis using \<open>find ?P (rev ?B) = None\<close> findB
        unfolding all gc_index_def om_get_map om_get_retain om_get_index_of rev_append find_app by simp
    next
      case (Some p)
      then have "snd p \<in> snd ` set ?A" "fst (snd p) = k" using find_rev_Some by fastforce+
      then have "snd p \<in> set rs" by (metis list.set_map map_snd_place)
      then have "\<not> (k < sfirst s \<or> sfirst s' \<le> k)" using assms(2) \<open>fst (snd p) = k\<close> by auto
      then show ?thesis using None
        unfolding gc_index_def om_get_map om_get_retain om_get_index_of by simp
    qed
  next
    case (Some p)
    then have p: "snd p \<in> snd ` set ?B" "fst (snd p) = k" using find_rev_Some by fastforce+
    have "ascending (s' # segs) (rs' # rss)" using assms(2) by simp
    with p have "sfirst s' \<le> k" using ascending_lower [OF assms(1)] unfolding sndB by blast
    then show ?thesis using Some findB
      unfolding all gc_index_def om_get_map om_get_retain om_get_index_of rev_append find_app by simp
  qed
qed

section \<open>The loop\<close>

lemma gc_loop_rep:
  assumes "length segs = length rss" "ascending segs rss" "distinct (map spath segs)"
    and "list_all2 (seg_rep d) segs rss" "idx = index_of [] (place_all 0 segs rss)"
  shows "case gc_loop cutoff mb tot d segs idx of (d', segs', idx', n) \<Rightarrow>
    segs' = drop n segs \<and> (segs \<noteq> [] \<longrightarrow> n < length segs) \<and>
    list_all2 (seg_rep d') segs' (drop n rss) \<and> idx' = index_of [] (place_all 0 segs' (drop n rss)) \<and>
    ascending segs' (drop n rss) \<and> granted d' = granted d \<and> room d' = room d \<and>
    files d' = filter (\<lambda>f. fst f \<notin> spath ` set (take n segs)) (files d)"
  using assms
proof (induction cutoff mb tot d segs idx arbitrary: rss rule: gc_loop.induct)
  case (1 cutoff mb tot d s s' segs idx)
  from "1.prems"(1) obtain rs rs' rss' where rss: "rss = rs # rs' # rss'" and len: "length segs = length rss'"
    by (cases rss; cases "tl rss") auto
  show ?case
  proof (cases "gc_due cutoff mb tot s")
    case False
    then show ?thesis using "1.prems" by (simp add: rss)
  next
    case True
    let ?d = "d\<lparr>files := AList.delete (spath s) (files d)\<rparr>" and ?idx = "gc_index (sfirst s) (sfirst s') idx"
    have idx: "?idx = index_of [] (place_all 0 (s' # segs) (rs' # rss'))"
      unfolding "1.prems"(5) rss by (rule gc_index_step [OF len]) (use "1.prems"(2) rss in simp)
    have dist: "distinct (map spath (s' # segs))" and notin: "spath s \<notin> spath ` set (s' # segs)"
      using "1.prems"(3) by auto
    have ne: "spath t \<noteq> spath s" if "t \<in> set (s' # segs)" for t using notin that by (metis image_eqI)
    have "list_all2 (seg_rep d) (s' # segs) (rs' # rss')" using "1.prems"(4) rss by simp
    then have reps: "list_all2 (seg_rep ?d) (s' # segs) (rs' # rss')"
      by (rule seg_reps_cong) (simp add: delete_conv ne)
    have asc: "ascending (s' # segs) (rs' # rss')" using "1.prems"(2) rss by simp
    obtain d' segs' idx' n where rec: "gc_loop cutoff mb (tot - sbytes s) ?d (s' # segs) ?idx = (d', segs', idx', n)"
      by (cases "gc_loop cutoff mb (tot - sbytes s) ?d (s' # segs) ?idx") auto
    have files: "files ?d = filter (\<lambda>f. fst f \<notin> {spath s}) (files d)"
      by (auto simp: AList.delete_eq intro: filter_cong)
    from "1.IH" [of "rs' # rss'"] True len asc dist reps idx rec files rss show ?thesis
      by (auto intro: filter_cong)
  qed
qed auto

text \<open>A collection keeps every index entry whose number no first number of a later segment exceeds, and moves it by
  the number of segments dropped.\<close>

lemma gc_loop_keeps:
  assumes "\<forall>s \<in> set (tl segs). sfirst s \<le> q" "distinct (map spath segs)"
  shows "case gc_loop cutoff mb tot d segs idx of (d', segs', idx', n) \<Rightarrow>
    segs' = drop n segs \<and> granted d' = granted d \<and>
    (\<forall>s \<in> set segs'. map_of (files d') (spath s) = map_of (files d) (spath s)) \<and>
    om_get idx' q = map_option (\<lambda>loc. loc\<lparr>lseg := lseg loc - n\<rparr>) (om_get idx q)"
  using assms
proof (induction cutoff mb tot d segs idx rule: gc_loop.induct)
  case (1 cutoff mb tot d s s' segs idx)
  show ?case
  proof (cases "gc_due cutoff mb tot s")
    case False
    then show ?thesis by (cases "om_get idx q") simp_all
  next
    case True
    let ?d = "d\<lparr>files := AList.delete (spath s) (files d)\<rparr>" and ?idx = "gc_index (sfirst s) (sfirst s') idx"
    obtain d' segs' idx' n where rec: "gc_loop cutoff mb (tot - sbytes s) ?d (s' # segs) ?idx = (d', segs', idx', n)"
      by (cases "gc_loop cutoff mb (tot - sbytes s) ?d (s' # segs) ?idx") auto
    have IH: "segs' = drop n (s' # segs)" "granted d' = granted d"
      "\<forall>s \<in> set segs'. map_of (files d') (spath s) = map_of (files ?d) (spath s)"
      "om_get idx' q = map_option (\<lambda>loc. loc\<lparr>lseg := lseg loc - n\<rparr>) (om_get ?idx q)"
      using "1.IH" [OF _ , of ] True "1.prems" rec by auto
    have sub: "set segs' \<subseteq> set (s' # segs)" unfolding IH(1) by (rule set_drop_subset)
    have "spath s \<notin> spath ` set (s' # segs)" using "1.prems"(2) by simp
    then have "spath x \<noteq> spath s" if "x \<in> set segs'" for x using subsetD [OF sub that] by (metis imageI)
    then have "\<forall>x \<in> set segs'. map_of (files d') (spath x) = map_of (files d) (spath x)"
      using IH(3) by (simp add: AList.delete_conv)
    moreover have "om_get ?idx q = map_option (\<lambda>loc. loc\<lparr>lseg := lseg loc - 1\<rparr>) (om_get idx q)"
      using "1.prems"(1) by (simp add: gc_index_def)
    ultimately show ?thesis using True rec IH by (simp add: Let_def option.map_comp comp_def)
  qed
qed (simp_all add: map_option_case split: option.split)

lemma gc_loop_due:
  assumes "tot = sum_list (map sbytes segs)"
  shows "case gc_loop cutoff mb tot d segs idx of (d', segs', idx', n) \<Rightarrow>
    (\<forall>i < n. gc_due cutoff mb (sum_list (map sbytes (drop i segs))) (segs ! i)) \<and>
    (length segs' \<le> 1 \<or> \<not> gc_due cutoff mb (sum_list (map sbytes segs')) (hd segs'))"
  using assms
proof (induction cutoff mb tot d segs idx rule: gc_loop.induct)
  case (1 cutoff mb tot d s s' segs idx)
  show ?case
  proof (cases "gc_due cutoff mb tot s")
    case False
    then show ?thesis using "1.prems" by simp
  next
    case True
    let ?d = "d\<lparr>files := AList.delete (spath s) (files d)\<rparr>" and ?idx = "gc_index (sfirst s) (sfirst s') idx"
    obtain d' segs' idx' n where rec: "gc_loop cutoff mb (tot - sbytes s) ?d (s' # segs) ?idx = (d', segs', idx', n)"
      by (cases "gc_loop cutoff mb (tot - sbytes s) ?d (s' # segs) ?idx") auto
    have due: "gc_due cutoff mb (sum_list (map sbytes (drop i (s # s' # segs)))) ((s # s' # segs) ! i)"
      if "i < Suc n" "\<forall>i < n. gc_due cutoff mb (sum_list (map sbytes (drop i (s' # segs)))) ((s' # segs) ! i)" for i
      using that True "1.prems" by (cases i) simp_all
    have "gc_loop cutoff mb tot d (s # s' # segs) idx = (d', segs', idx', Suc n)"
      using True rec by simp
    moreover have "tot - sbytes s = sum_list (map sbytes (s' # segs))" using "1.prems" by simp
    note "1.IH" [OF _ this]
    then have "(\<forall>i < n. gc_due cutoff mb (sum_list (map sbytes (drop i (s' # segs)))) ((s' # segs) ! i)) \<and>
        (length segs' \<le> 1 \<or> \<not> gc_due cutoff mb (sum_list (map sbytes segs')) (hd segs'))"
      using True unfolding rec by simp
    ultimately show ?thesis using due by (simp only: prod.case) blast
  qed
qed simp_all

end
