(* ===== verification/Store_Names.thy ===== *)
theory Store_Names
  imports Store_Recovery Store_GC
begin

text \<open>
  Segment names: twenty digits sort like the numbers they spell, so the directory listing, sorted
  by file stem, is the order in which the segments were created.
\<close>

section \<open>Zero-padded numbers\<close>

fun dig :: "nat \<Rightarrow> nat \<Rightarrow> string" where
  "dig 0 n = []"
| "dig (Suc w) n = dig w (n div 10) @ [digit_char (n mod 10)]"

lemma length_dig [simp]: "length (dig w n) = w"
  by (induction w arbitrary: n) simp_all

lemma dig_0: "dig w 0 = replicate w (CHR ''0'')"
proof (induction w)
  case (Suc w)
  have "digit_char 0 = CHR ''0''" by code_simp
  then show ?case by (simp add: Suc replicate_append_same)
qed simp

lemma dig_pad: "0 < w \<Longrightarrow> n < 10 ^ w \<Longrightarrow> dig w n = replicate (w - length (dec n)) (CHR ''0'') @ dec n"
proof (induction w arbitrary: n)
  case (Suc w)
  show ?case
  proof (cases "n < 10")
    case True
    then show ?thesis by (simp add: dec.simps [of n] dig_0)
  next
    case False
    then have "0 < w" using Suc.prems(2) by (cases w) simp_all
    moreover have "n div 10 < 10 ^ w" using Suc.prems(2) by simp
    ultimately show ?thesis using Suc.IH [of "n div 10"] False by (simp add: dec.simps [of n])
  qed
qed simp

lemma digit_char_less: "a < b \<Longrightarrow> b < 10 \<Longrightarrow> digit_char a < digit_char b"
  by (simp add: digit_char_def less_char_def)

lemma dig_less: "m < n \<Longrightarrow> n < 10 ^ w \<Longrightarrow> dig w m < dig w n"
proof (induction w arbitrary: m n)
  case (Suc w)
  show ?case
  proof (cases "m div 10 = n div 10")
    case True
    then have "m mod 10 < n mod 10" using Suc.prems(1) by (metis div_mult_mod_eq nat_add_left_cancel_less)
    then have "digit_char (m mod 10) < digit_char (n mod 10)" by (simp add: digit_char_less)
    then show ?thesis using True by (auto simp: list_less_def intro: lexord_append_leftI)
  next
    case False
    then have "m div 10 < n div 10" using Suc.prems(1) by (meson div_le_mono le_neq_implies_less less_imp_le)
    then have "dig w (m div 10) < dig w (n div 10)" using Suc.IH Suc.prems(2) by simp
    then show ?thesis by (simp add: list_less_def lexord_sufI)
  qed
qed simp

definition stem_of :: "nat \<Rightarrow> string" where
  "stem_of n = pad20 (dec n)"

lemma stem_of_dig: "n < 2 ^ 64 \<Longrightarrow> stem_of n = dig 20 n"
  by (subst dig_pad) (simp_all add: stem_of_def pad20_def)

lemma stem_of_less: "m < n \<Longrightarrow> n < 2 ^ 64 \<Longrightarrow> stem_of m < stem_of n"
  using dig_less [of m n 20] by (simp add: stem_of_dig)

lemma split_name_dot: "CHR ''.'' \<notin> set ext \<Longrightarrow> xs \<noteq> [] \<Longrightarrow> split_name (xs @ CHR ''.'' # ext) = (xs, Some ext)"
proof -
  assume ext: "CHR ''.'' \<notin> set ext" and xs: "xs \<noteq> []"
  have "takeWhile (\<lambda>c. c \<noteq> CHR ''.'') (rev ext @ CHR ''.'' # rev xs) = rev ext"
    using ext by (subst takeWhile_append2) auto
  then show ?thesis using xs by (simp add: split_name_def Let_def)
qed

lemma pad20_nonempty [simp]: "pad20 (dec n) \<noteq> []"
  by (simp add: pad20_def)

lemma segment_name_simps [simp]:
  "file_stem (segment_name seq) = stem_of (unat seq)"
  "is_segment_file (segment_name seq)" "is_v2 (segment_name seq)"
  using split_name_dot [of "''seg2''" "pad20 (dec (unat seq))"]
  by (simp_all add: segment_name_def file_stem_def is_segment_file_def is_v2_def stem_of_def)

section \<open>The listing\<close>

lemma sort_key_unique:
  fixes f :: "'a \<Rightarrow> 'b::linorder"
  assumes "distinct xs" "set xs = set ys" "sorted_wrt (<) (map f ys)"
  shows "sort_key f xs = ys"
proof -
  have ys: "distinct (map f ys)" "sorted (map f ys)"
    using assms(3) by (simp_all add: strict_sorted_iff)
  then have inj: "inj_on f (set ys)" by (simp add: distinct_map)
  have "distinct (map f (sort_key f xs))" using assms(1,2) inj by (simp add: distinct_map)
  moreover have "set (map f (sort_key f xs)) = set (map f ys)" using assms(2) by simp
  ultimately have "map f (sort_key f xs) = map f ys"
    using sorted_distinct_set_unique [of "map f (sort_key f xs)" "map f ys"] ys by simp
  then show ?thesis using inj assms(2) by (simp add: inj_on_map_eq_map)
qed

text \<open>A directory whose segment files are the given ones, named in ascending order by numbers
  below a bound.\<close>

definition named :: "nat \<Rightarrow> string list \<Rightarrow> bool" where
  "named bound ps \<longleftrightarrow> (\<exists>ns. map file_stem ps = map stem_of ns \<and> sorted_wrt (<) ns \<and>
     (\<forall>n \<in> set ns. n < bound \<and> n < 2 ^ 64))"

definition lists :: "disk \<Rightarrow> string list \<Rightarrow> bool" where
  "lists d ps \<longleftrightarrow> distinct (map fst (files d)) \<and>
     {p \<in> fst ` set (files d). is_segment_file p} = set ps"

lemma named_sorted:
  assumes "named bound ps"
  shows "sorted_wrt (<) (map file_stem ps)"
proof -
  from assms obtain ns where ns: "map file_stem ps = map stem_of ns" "sorted_wrt (<) ns"
    "\<forall>n \<in> set ns. n < 2 ^ 64" by (auto simp: named_def)
  have "sorted_wrt (\<lambda>m n. stem_of m < stem_of n) ns"
    by (rule sorted_wrt_mono_rel [OF _ ns(2)]) (use ns(3) stem_of_less in blast)
  then show ?thesis by (simp add: ns(1) sorted_wrt_map)
qed

lemma listing_sorted:
  assumes "named bound ps" "lists d ps"
  shows "sort_key file_stem (filter is_segment_file (map fst (files d))) = ps"
  by (rule sort_key_unique) (use assms named_sorted in \<open>auto simp: lists_def\<close>)

lemma named_distinct: "named bound ps \<Longrightarrow> distinct ps"
  by (metis distinct_map named_sorted strict_sorted_iff)

lemma named_Nil [simp]: "named bound []"
  by (simp add: named_def)

lemma named_mono: "named bound ps \<Longrightarrow> bound \<le> bound' \<Longrightarrow> named bound' ps"
  unfolding named_def by (meson less_le_trans)

lemma named_drop:
  assumes "named bound ps"
  shows "named bound (drop n ps)"
proof -
  from assms obtain ns where ns: "map file_stem ps = map stem_of ns" "sorted_wrt (<) ns"
    "\<forall>n \<in> set ns. n < bound \<and> n < 2 ^ 64" by (auto simp: named_def)
  then show ?thesis unfolding named_def
    by (intro exI [of _ "drop n ns"]) (auto simp: drop_map [symmetric] sorted_wrt_drop dest: in_set_dropD)
qed

lemma unat_u64_less: "unat (s :: u64) < 2 ^ 64"
  using unsigned_less [of s] by simp

lemma named_snoc:
  assumes "named bound ps" "bound \<le> unat seq"
  shows "named (Suc (unat seq)) (ps @ [segment_name seq])"
proof -
  from assms(1) obtain ns where ns: "map file_stem ps = map stem_of ns" "sorted_wrt (<) ns"
    "\<forall>n \<in> set ns. n < bound \<and> n < 2 ^ 64" by (auto simp: named_def)
  have "\<forall>n \<in> set ns. n < unat seq" using ns(3) assms(2) by auto
  then show ?thesis unfolding named_def using ns unat_u64_less [of seq]
    by (intro exI [of _ "ns @ [unat seq]"]) (auto simp: sorted_wrt_append less_Suc_eq)
qed

lemma named_fresh:
  assumes "named bound ps" "lists d ps" "bound \<le> unat seq"
  shows "fresh_name seq d"
proof (rule ccontr)
  assume "\<not> fresh_name seq d"
  then have "segment_name seq \<in> fst ` set (files d)"
    by (auto simp: fresh_name_def map_of_eq_None_iff)
  then have "segment_name seq \<in> set ps" using assms(2) segment_name_simps(2) unfolding lists_def by blast
  moreover from assms(1) obtain ns where ns: "map file_stem ps = map stem_of ns"
    "\<forall>n \<in> set ns. n < bound \<and> n < 2 ^ 64" by (auto simp: named_def)
  ultimately have "stem_of (unat seq) \<in> stem_of ` set ns"
    by (metis image_eqI list.set_map segment_name_simps(1))
  then obtain n where "stem_of (unat seq) = stem_of n" "n < unat seq" using ns(2) assms(3) by fastforce
  then show False using stem_of_less [of n "unat seq"] unat_u64_less [of seq] by simp
qed

end
