(* ===== verification/Store_Run.thy ===== *)
theory Store_Run
  imports Store_Names
begin

text \<open>
  Lives of a store: it is opened, appended to, collected, restarted, and interrupted in the middle
  of an append, with ever larger sequence numbers. \<open>store_ok\<close> is the invariant of an open store,
  \<open>on_disk\<close> that of the directory between two lives.
\<close>

section \<open>Invariants\<close>

definition records_ok :: "nat \<Rightarrow> group_record list list \<Rightarrow> bool" where
  "records_ok bound rss \<longleftrightarrow> sorted_wrt (<) (map fst (concat rss)) \<and>
     (\<forall>r \<in> set (concat rss). unat (fst r) < bound)"

definition store_ok :: "disk \<Rightarrow> group_store \<Rightarrow> group_record list list \<Rightarrow> nat \<Rightarrow> bool" where
  "store_ok d st rss bound \<longleftrightarrow>
     rep d st rss \<and> granted d \<and> room d = None \<and>
     named bound (map spath (segments st)) \<and> lists d (map spath (segments st)) \<and>
     (\<forall>s \<in> set (segments st). sv2 s = is_v2 (spath s)) \<and>
     records_ok bound rss \<and> ascending (segments st) rss \<and>
     (\<forall>s \<in> set (segments st). unat (sfirst s) \<le> bound) \<and> (\<forall>rs \<in> set (tl rss). rs \<noteq> [])"

definition on_disk :: "disk \<Rightarrow> seg_file list \<Rightarrow> nat \<Rightarrow> bool" where
  "on_disk d fs bound \<longleftrightarrow>
     granted d \<and> room d = None \<and> (\<forall>f \<in> set fs. file_rep d f) \<and>
     named bound (map fst fs) \<and> lists d (map fst fs) \<and>
     records_ok bound (map (fst \<circ> snd) fs) \<and> (\<forall>f \<in> set (tl fs). fst (snd f) \<noteq> [])"

lemma records_ok_snoc:
  "records_ok bound rss \<Longrightarrow> concat rss' = concat rss @ [r] \<Longrightarrow> bound \<le> unat (fst r) \<Longrightarrow>
    records_ok (Suc (unat (fst r))) rss'"
  by (fastforce simp: records_ok_def sorted_wrt_append word_less_nat_alt)

lemma records_ok_mono:
  "records_ok bound rss \<Longrightarrow> bound \<le> bound' \<Longrightarrow> concat rss' = concat rss \<Longrightarrow> records_ok bound' rss'"
  unfolding records_ok_def by (auto intro: less_le_trans)

section \<open>Opening\<close>

lemma scanned_first: "rs \<noteq> [] \<Longrightarrow> sfirst (scanned (p, rs, t)) = fst (hd rs)"
  by (simp add: scanned_def)

lemma hd_least:
  fixes rs :: "group_record list"
  shows "sorted_wrt (<) (map fst rs) \<Longrightarrow> r \<in> set rs \<Longrightarrow> fst (hd rs) \<le> fst r"
  by (cases rs) (auto intro: less_imp_le)

lemma ascending_scanned:
  "sorted_wrt (<) (map fst (concat (map (fst \<circ> snd) fs))) \<Longrightarrow> \<forall>f \<in> set (tl fs). fst (snd f) \<noteq> [] \<Longrightarrow>
    ascending (map scanned fs) (map (fst \<circ> snd) fs)"
proof (induction fs rule: induct_list012)
  case (2 f)
  obtain p rs t where f: "f = (p, rs, t)" by (cases f)
  have "sorted_wrt (<) (map fst rs)" using 2(1) by (simp add: f)
  then show ?case using hd_least by (auto simp: f scanned_def)
next
  case (3 f g fs)
  obtain p rs t where f: "f = (p, rs, t)" by (cases f)
  obtain q rs' t' where g: "g = (q, rs', t')" by (cases g)
  have ne: "rs' \<noteq> []" using "3.prems"(2) by (simp add: g)
  then have firsts: "sfirst (scanned g) = fst (hd rs')" by (simp add: g scanned_def)
  have less: "fst r < fst (hd rs')" if "r \<in> set rs" for r
    using "3.prems"(1) that hd_in_set [OF ne] by (auto simp: f g sorted_wrt_append)
  have sorted: "sorted_wrt (<) (map fst rs)" using "3.prems"(1) by (simp add: f sorted_wrt_append)
  have low: "sfirst (scanned f) \<le> fst r" if "r \<in> set rs" for r
    using hd_least [OF sorted that] that by (auto simp: f scanned_def)
  have "sfirst (scanned f) \<le> sfirst (scanned g)"
  proof (cases rs)
    case Nil
    then show ?thesis by (simp add: f scanned_def)
  next
    case (Cons r rs'')
    then show ?thesis using less [of r] low [of r] by (simp add: firsts)
  qed
  moreover have "ascending (map scanned (g # fs)) (map (fst \<circ> snd) (g # fs))"
    by (rule "3.IH"(2)) (use "3.prems" in \<open>simp_all add: sorted_wrt_append\<close>)
  ultimately show ?case using less low by (simp add: f firsts [symmetric] comp_def)
qed simp

lemma lists_update:
  "lists d ps \<Longrightarrow> p \<in> set ps \<Longrightarrow> lists (d\<lparr>files := AList.update p v (files d)\<rparr>) ps"
  unfolding lists_def by (auto simp: distinct_update dom_update)

lemma lists_truncates: "set (map fst fs) \<subseteq> set ps \<Longrightarrow> lists d ps \<Longrightarrow> lists (fold truncated fs d) ps"
proof (induction fs arbitrary: d)
  case (Cons f fs)
  have "lists (truncated f d) ps"
    using Cons.prems lists_update by (cases f) (auto simp: truncated_def)
  then show ?case using Cons by simp
qed simp

lemma open_ok:
  assumes "on_disk d fs bound"
  shows "open_with_segment_target target d = (fold truncated fs d, Inr (opened target fs))"
    and "store_ok (fold truncated fs d) (opened target fs) (map (fst \<circ> snd) fs) bound"
proof -
  have o: "granted d" "room d = None" "\<forall>f \<in> set fs. file_rep d f" "named bound (map fst fs)"
    "lists d (map fst fs)" "records_ok bound (map (fst \<circ> snd) fs)" "\<forall>f \<in> set (tl fs). fst (snd f) \<noteq> []"
    using assms by (simp_all add: on_disk_def)
  have "dir_rep d fs"
    using o listing_sorted [OF o(4,5)] named_distinct [OF o(4)] by (simp add: dir_rep_def)
  note op = open_rep [OF this, of target]
  then show "open_with_segment_target target d = (fold truncated fs d, Inr (opened target fs))" by simp
  have segs: "segments (opened target fs) = map scanned fs" by (simp add: opened_def)
  have paths: "map spath (map scanned fs) = map fst fs" by simp
  have firsts: "unat (sfirst (scanned f)) \<le> bound" if "f \<in> set fs" for f
  proof -
    obtain p rs t where f: "f = (p, rs, t)" by (cases f)
    have "\<forall>r \<in> set rs. unat (fst r) < bound"
      using o(6) that by (fastforce simp: records_ok_def f)
    then show ?thesis by (cases rs) (auto simp: f scanned_def)
  qed
  have "ascending (map scanned fs) (map (fst \<circ> snd) fs)"
    using ascending_scanned o(6,7) by (simp add: records_ok_def)
  moreover have "\<forall>rs \<in> set (tl (map (fst \<circ> snd) fs)). rs \<noteq> []" using o(7) by (simp add: map_tl [symmetric])
  moreover have "lists (fold truncated fs d) (map fst fs)" by (rule lists_truncates [OF _ o(5)]) simp
  ultimately show "store_ok (fold truncated fs d) (opened target fs) (map (fst \<circ> snd) fs) bound"
    using op(2) o firsts unfolding store_ok_def segs paths by simp
qed

text \<open>A running store seen from outside: whole files.\<close>

definition whole_files :: "group_store \<Rightarrow> group_record list list \<Rightarrow> seg_file list" where
  "whole_files st rss = map (\<lambda>(s, rs). (spath s, rs, [])) (zip (segments st) rss)"

lemma map_zip_whole:
  "length xs = length ys \<Longrightarrow> map fst (map (\<lambda>(s, rs). (f s, rs, [])) (zip xs ys)) = map f xs \<and>
    map (fst \<circ> snd) (map (\<lambda>(s, rs). (f s, rs, [])) (zip xs ys)) = ys"
  by (induction xs ys rule: list_induct2) simp_all

lemma whole_files_simps [simp]:
  assumes "rep d st rss"
  shows "map fst (whole_files st rss) = map spath (segments st)"
    and "map (fst \<circ> snd) (whole_files st rss) = rss"
  using map_zip_whole [OF rep_length [OF assms]] unfolding whole_files_def by blast+

lemma whole_files_rep:
  assumes "rep d st rss" "\<forall>s \<in> set (segments st). sv2 s = is_v2 (spath s)" "f \<in> set (whole_files st rss)"
  shows "file_rep d f"
proof -
  from assms(3) obtain s rs where f: "f = (spath s, rs, [])" "(s, rs) \<in> set (zip (segments st) rss)"
    by (auto simp: whole_files_def)
  then have "seg_rep d s rs" "s \<in> set (segments st)"
    using assms(1) by (auto simp: rep_def list_all2_iff dest: set_zip_leftD)
  then show ?thesis using assms(2) by (simp add: f(1) file_rep_def seg_rep_def torn_def)
qed

lemma store_on_disk:
  assumes "store_ok d st rss bound"
  shows "on_disk d (whole_files st rss) bound"
proof -
  have rep: "rep d st rss" using assms by (simp add: store_ok_def)
  have "\<forall>rs \<in> set (tl (map (fst \<circ> snd) (whole_files st rss))). rs \<noteq> []"
    using assms unfolding whole_files_simps [OF rep] by (simp add: store_ok_def)
  then have "\<forall>f \<in> set (tl (whole_files st rss)). fst (snd f) \<noteq> []" by (simp add: map_tl [symmetric])
  then show ?thesis
    using assms whole_files_rep [OF rep] unfolding on_disk_def whole_files_simps [OF rep] store_ok_def
    by blast
qed

section \<open>Appending\<close>

lemma ascending_snoc:
  "length segs = length rss \<Longrightarrow> ascending (segs @ [s]) (rss @ [rs]) \<longleftrightarrow>
    ascending segs rss \<and> (\<forall>r \<in> set rs. sfirst s \<le> fst r) \<and>
    (segs \<noteq> [] \<longrightarrow> sfirst (last segs) \<le> sfirst s \<and> (\<forall>r \<in> set (last rss). fst r < sfirst s))"
proof (induction segs rss rule: list_induct2)
  case (Cons a segs ra rss)
  then show ?case
  proof (cases segs)
    case (Cons b segs')
    then obtain rb rss' where "rss = rb # rss'" using \<open>length segs = length rss\<close> by (cases rss) auto
    then show ?thesis using \<open>segs = b # segs'\<close> Cons.IH by auto
  qed auto
qed simp

lemma ascending_cong: "map sfirst segs = map sfirst segs' \<Longrightarrow> ascending segs rss = ascending segs' rss"
proof (induction segs rss arbitrary: segs' rule: ascending.induct)
  case (1 s s' segs rs rss)
  then obtain t t' ts where "segs' = t # t' # ts" by (cases segs'; cases "tl segs'") auto
  with "1.IH" [of "t' # ts"] "1.prems" show ?case by auto
next
  case (2 s rs rss)
  then obtain t where "segs' = [t]" by (cases segs') auto
  with 2 show ?case by auto
qed auto

text \<open>The step of \<open>ensure_writer\<close> keeps everything the store knows.\<close>

definition ready :: "u64 \<Rightarrow> disk \<Rightarrow> group_store \<Rightarrow> group_record list list \<Rightarrow> bool" where
  "ready seq d st rss \<longleftrightarrow>
     writer_ready d st rss \<and> granted d \<and>
     named (Suc (unat seq)) (map spath (segments st)) \<and> lists d (map spath (segments st)) \<and>
     (\<forall>s \<in> set (segments st). sv2 s = is_v2 (spath s)) \<and>
     ascending (segments st) rss \<and> (\<forall>s \<in> set (segments st). unat (sfirst s) \<le> unat seq)"

lemma store_ready:
  assumes "store_ok d0 st rss bound" "bound \<le> unat seq" "d = d0\<lparr>room := k\<rparr>"
  shows "\<exists>d' st'. ensure_writer seq d st = ((d', st'), Inr ()) \<and>
    ready seq d' st' (rss_ready (rotate_due st) rss) \<and> room d' = k"
proof -
  note ok = assms(1) [unfolded store_ok_def]
  have "rep d st rss" using ok unfolding rep_def assms(3)
    by (auto elim!: seg_reps_cong)
  moreover have fresh: "fresh_name seq d"
    using named_fresh [of bound _ d0 seq] ok assms(2,3) by (auto simp: fresh_name_def)
  ultimately obtain d' st' where e: "ensure_writer seq d st = ((d', st'), Inr ())"
    and w: "writer_ready d' st' (rss_ready (rotate_due st) rss)"
    and f: "files d' = (if rotate_due st then AList.update (segment_name seq) [] (files d) else files d)"
    and r: "room d' = room d" "granted d'"
    and segs: "segments st' = (if rotate_due st then segments st @ [\<lparr>spath = segment_name seq,
       sfirst = seq, snewest = 0, sbytes = 0, sv2 = True\<rparr>] else segments st)"
    using ensure_writer_rep [of d st rss seq] ok assms(3) by auto
  have len: "length (segments st) = length rss" using ok rep_length by blast
  have low: "\<forall>s \<in> set (segments st). unat (sfirst s) \<le> unat seq" using ok assms(2) by auto
  have recs: "fst r < seq" if "r \<in> set (concat rss)" for r
    using ok assms(2) that by (force simp: records_ok_def word_less_nat_alt)
  have recs': "\<forall>r \<in> set (last rss). fst r < seq" if "segments st \<noteq> []"
  proof -
    have "last rss \<in> set rss" using that len by (intro last_in_set) auto
    then show ?thesis using recs by auto
  qed
  show ?thesis
  proof (cases "rotate_due st")
    case True
    have "ascending (segments st') (rss @ [[]])"
        unfolding segs using True ok low recs' len by (simp add: ascending_snoc word_le_nat_alt)
    moreover have "lists d' (map spath (segments st'))"
      using ok f segs True assms(3)
      by (auto simp: lists_def distinct_update dom_update)
    moreover have "named (Suc (unat seq)) (map spath (segments st'))"
      using ok segs True named_snoc [OF _ assms(2)] by simp
    ultimately show ?thesis
      using e w r ok True segs low assms(3) by (auto simp: ready_def rss_ready_def)
  next
    case False
    moreover have "lists d' (map spath (segments st))" using ok f False assms(3) by (simp add: lists_def)
    moreover have "named (Suc (unat seq)) (map spath (segments st))"
      using ok assms(2) by (auto intro: named_mono)
    ultimately show ?thesis
      using e w r ok segs low assms(3) by (auto simp: ready_def rss_ready_def)
  qed
qed

lemma appended_maps [simp]:
  "map spath (segments (appended len seq ms st)) = map spath (segments st)"
  "map sfirst (segments (appended len seq ms st)) = map sfirst (segments st)"
  "map sv2 (segments (appended len seq ms st)) = map sv2 (segments st)"
  by (cases "segments st" rule: rev_cases; simp add: appended_def Let_def nth_append list_update_append)+

lemma same_maps:
  assumes "map f segs = map f segs'" "map g segs = map g segs'"
  shows "(\<forall>s \<in> set segs. P (f s) (g s)) = (\<forall>s \<in> set segs'. P (f s) (g s))"
proof -
  have "(\<forall>s \<in> set xs. P (f s) (g s)) \<longleftrightarrow> (\<forall>i < length xs. P (map f xs ! i) (map g xs ! i))" for xs
    by (auto simp: all_set_conv_all_nth)
  then show ?thesis using assms by (metis length_map)
qed

lemma written_lists: "lists d ps \<Longrightarrow> p \<in> set ps \<Longrightarrow> lists (written d p bs) ps"
  unfolding lists_def written_def by (auto simp: distinct_update dom_update)

lemma tl_add_record:
  "\<forall>rs \<in> set (tl rss). rs \<noteq> [] \<Longrightarrow> \<forall>rs \<in> set (tl (add_record r (rss_ready rot rss))). rs \<noteq> []"
proof (cases rss rule: rev_cases)
  case Nil
  then show ?thesis by (simp add: add_record_def rss_ready_def)
next
  case (snoc xs x)
  have "add_record r (ys @ [y]) = ys @ [y @ [r]]" for ys y by (simp add: add_record_def)
  from this [of "xs @ [x]" "[]"] this [of xs x]
  have "add_record r (rss_ready rot rss) = (if rot then (xs @ [x]) @ [[r]] else xs @ [x @ [r]])"
    unfolding rss_ready_def snoc by (simp del: append_assoc)
  moreover assume "\<forall>rs \<in> set (tl rss). rs \<noteq> []"
  ultimately show ?thesis by (cases xs) (auto simp: snoc)
qed

lemma room_cong [simp]:
  "rep (d\<lparr>room := k\<rparr>) st rss = rep d st rss"
  "lists (d\<lparr>room := k\<rparr>) ps = lists d ps"
  by (simp_all add: rep_def seg_rep_def [abs_def] lists_def)

lemma append_fits:
  assumes ok: "store_ok d st rss bound" and bound: "bound \<le> unat seq" and rec: "rec_ok True (seq, ms, frames)"
    and ap: "append_group seq ms frames (d\<lparr>room := k\<rparr>) st = ((d', st'), Inr ())"
  shows "\<exists>rss'. store_ok (d'\<lparr>room := None\<rparr>) st' rss' (Suc (unat seq)) \<and>
    concat rss' = concat rss @ [(seq, ms, frames)]"
proof -
  let ?r = "(seq, ms, frames)" and ?bs = "record_bytes seq ms frames"
  note o = ok [unfolded store_ok_def]
  from store_ready [OF ok bound refl, of k] obtain d1 st1 where
    e: "ensure_writer seq (d\<lparr>room := k\<rparr>) st = ((d1, st1), Inr ())"
    and r: "ready seq d1 st1 (rss_ready (rotate_due st) rss)" by blast
  let ?p = "spath (last (segments st1))" and ?rss = "rss_ready (rotate_due st) rss"
  let ?d = "written d1 ?p ?bs" and ?st = "appended (length ?bs) seq ms st1"
  note r = r [unfolded ready_def]
  have w: "writer_ready d1 st1 ?rss" using r by simp
  have acc: "room_for d1 ?bs = length ?bs" and d': "d' = ?d" "st' = ?st"
    using append_ready [OF e w, of ms frames] ap by (auto split: if_splits)
  have rep: "rep ?d ?st (add_record ?r ?rss)" by (rule rep_add_record [OF w rec acc])
  have ne: "segments st1 \<noteq> []" using w by (simp add: writer_ready_def)
  have len: "length (segments st1) = length ?rss" using w rep_length by (auto simp: writer_ready_def)
  then have rne: "?rss \<noteq> []" using ne by auto
  from ne obtain segs seg where segs: "segments st1 = segs @ [seg]" by (cases "segments st1" rule: rev_cases) auto
  from rne obtain rss0 rs where rss0: "?rss = rss0 @ [rs]" by (cases ?rss rule: rev_cases) auto
  have len0: "length segs = length rss0" using len segs rss0 by simp
  have "ascending (segs @ [seg]) (rss0 @ [rs])" using r segs rss0 by simp
  moreover have "sfirst seg \<le> seq" using r segs by (simp add: word_le_nat_alt)
  ultimately have "ascending (segs @ [seg]) (add_record ?r ?rss)"
    using len0 unfolding rss0 add_record_def by (auto simp: ascending_snoc)
  then have asc: "ascending (segments ?st) (add_record ?r ?rss)"
    using ascending_cong [of "segments ?st" "segments st1"] segs by simp
  have lists: "lists ?d (map spath (segments ?st))"
    using r written_lists ne by (simp del: length_append) 
  have v2: "\<forall>s \<in> set (segments ?st). sv2 s = is_v2 (spath s)"
    using r same_maps [of sv2 "segments ?st" "segments st1" spath "\<lambda>a b. a = is_v2 b"] by simp
  have first: "\<forall>s \<in> set (segments ?st). unat (sfirst s) \<le> Suc (unat seq)"
    using r same_maps [of sfirst "segments ?st" "segments st1" spath "\<lambda>a b. unat a \<le> Suc (unat seq)"]
    by (simp add: le_SucI)
  have "concat (add_record ?r ?rss) = concat rss @ [?r]" using rne by simp
  moreover have "records_ok (Suc (unat seq)) (add_record ?r ?rss)"
    using records_ok_snoc [of bound rss "add_record ?r ?rss" ?r] o rne bound by simp
  moreover have "granted ?d" using r by (simp_all add: written_def)
  moreover have "\<forall>rs \<in> set (tl (add_record ?r ?rss)). rs \<noteq> []"
    by (rule tl_add_record) (use o in simp)
  moreover have "named (Suc (unat seq)) (map spath (segments ?st))" using r by simp
  ultimately have "store_ok (?d\<lparr>room := None\<rparr>) ?st (add_record ?r ?rss) (Suc (unat seq))"
    "concat (add_record ?r ?rss) = concat rss @ [?r]"
    using rep asc lists v2 first unfolding store_ok_def by (simp_all del: concat_add_record)
  with d' show ?thesis by blast
qed

lemma append_ok:
  assumes ok: "store_ok d st rss bound" and bound: "bound \<le> unat seq" and rec: "rec_ok True (seq, ms, frames)"
  shows "\<exists>d' st' rss'. append_group seq ms frames d st = ((d', st'), Inr ()) \<and>
    store_ok d' st' rss' (Suc (unat seq)) \<and> concat rss' = concat rss @ [(seq, ms, frames)]"
proof -
  have d: "d\<lparr>room := None\<rparr> = d" using ok by (cases d) (simp add: store_ok_def)
  from store_ready [OF ok bound refl, of None] obtain d1 st1 where
    e: "ensure_writer seq d st = ((d1, st1), Inr ())"
    and r: "ready seq d1 st1 (rss_ready (rotate_due st) rss)" and room: "room d1 = None" unfolding d by blast
  let ?d = "written d1 (spath (last (segments st1))) (record_bytes seq ms frames)"
  have "room_for d1 (record_bytes seq ms frames) = length (record_bytes seq ms frames)"
    using room by (simp add: room_for_def)
  then obtain st' where ap: "append_group seq ms frames d st = ((?d, st'), Inr ())"
    using append_ready [OF e, of _ ms frames] r by (auto simp: ready_def)
  moreover have "?d\<lparr>room := None\<rparr> = ?d" using room by (cases d1) (simp add: written_def)
  ultimately show ?thesis using append_fits [OF ok bound rec, of None ?d st'] d by auto
qed

section \<open>Interrupted appends\<close>

lemma torn_take:
  assumes "rec_ok v2 r" "n < length (enc_record v2 r)"
  shows "torn v2 (take n (enc_record v2 r))"
proof -
  have "enc_record v2 r = take n (enc_record v2 r) @ drop n (enc_record v2 r)" by simp
  moreover have "drop n (enc_record v2 r) \<noteq> []" using assms(2) by simp
  ultimately show ?thesis using assms(1) unfolding torn_def by blast
qed

text \<open>A record of which only the first bytes reached the last file.\<close>

lemma torn_files:
  assumes "list_all2 (seg_rep d) segs rss" "seg_rep d seg rs" "sv2 seg" "rec_ok True r"
    and "\<And>s. s \<in> set segs \<Longrightarrow> spath s \<noteq> spath seg" "\<forall>s \<in> set (segs @ [seg]). sv2 s = is_v2 (spath s)"
    and "n = room_for d (enc_record True r)" "n < length (enc_record True r)"
    and "f \<in> set (map (\<lambda>(s, rs). (spath s, rs, [])) (zip segs rss) @ [(spath seg, rs, take n (enc_record True r))])"
  shows "file_rep ((written d (spath seg) (enc_record True r))\<lparr>room := None\<rparr>) f"
proof -
  note files = written_last [OF assms(2,3), of "enc_record True r", folded assms(7)]
  show ?thesis
  proof (cases "f = (spath seg, rs, take n (enc_record True r))")
    case True
    have "torn True (take n (enc_record True r))" by (rule torn_take [OF assms(4,8)])
    then show ?thesis using assms(2,3,6) by (simp add: True file_rep_def files seg_rep_def)
  next
    case False
    with assms(9) obtain s rs' where f: "f = (spath s, rs', [])" "(s, rs') \<in> set (zip segs rss)" by auto
    then have s: "s \<in> set segs" by (auto dest: set_zip_leftD)
    moreover have "seg_rep d s rs'" using assms(1) f(2) by (auto simp: list_all2_iff)
    ultimately show ?thesis using assms(5,6) by (simp add: f(1) file_rep_def files seg_rep_def torn_def)
  qed
qed

text \<open>What an interrupted append leaves in the directory.\<close>

lemma crash_files:
  assumes ok: "store_ok d st rss bound" and bound: "bound \<le> unat seq" and rec: "rec_ok True (seq, ms, frames)"
    and fails: "append_group seq ms frames (d\<lparr>room := Some k\<rparr>) st = ((d1, st1), Inl e)"
  shows "\<exists>fs. map (fst \<circ> snd) fs = rss_ready (rotate_due st) rss \<and> (\<forall>f \<in> set fs. file_rep (d1\<lparr>room := None\<rparr>) f) \<and>
    named (Suc (unat seq)) (map fst fs) \<and> lists (d1\<lparr>room := None\<rparr>) (map fst fs) \<and> granted d1"
proof -
  let ?bs = "enc_record True (seq, ms, frames)"
  from store_ready [OF ok bound refl, of "Some k"] obtain d2 st2 where
    e: "ensure_writer seq (d\<lparr>room := Some k\<rparr>) st = ((d2, st2), Inr ())"
    and r: "ready seq d2 st2 (rss_ready (rotate_due st) rss)" by blast
  let ?p = "spath (last (segments st2))" and ?rss = "rss_ready (rotate_due st) rss"
  note r = r [unfolded ready_def]
  have w: "writer_ready d2 st2 ?rss" using r by simp
  have n: "room_for d2 ?bs < length ?bs" and d1: "d1 = written d2 ?p ?bs"
    using append_ready [OF e w, of ms frames] fails
    by (auto split: if_splits simp: room_for_def record_bytes_eq intro: le_neq_implies_less split: option.splits)
  have rep: "rep d2 st2 ?rss" and ne: "segments st2 \<noteq> []" and v2: "sv2 (last (segments st2))"
    using w by (simp_all add: writer_ready_def)
  obtain segs seg rss0 rs where segs: "segments st2 = segs @ [seg]" and rss0: "?rss = rss0 @ [rs]"
    and len0: "length segs = length rss0" and reps: "list_all2 (seg_rep d2) segs rss0" "seg_rep d2 seg rs"
    and others: "\<And>s. s \<in> set segs \<Longrightarrow> spath s \<noteq> spath seg"
    using rep_lastE [OF rep ne] by metis
  let ?fs = "map (\<lambda>(s, rs). (spath s, rs, [])) (zip segs rss0) @ [(spath seg, rs, take (room_for d2 ?bs) ?bs)]"
  have fst: "map fst ?fs = map spath (segments st2)" and snd: "map (fst \<circ> snd) ?fs = ?rss"
    unfolding map_append map_zip_whole [OF len0, THEN conjunct1] map_zip_whole [OF len0, THEN conjunct2]
    by (simp_all add: segs rss0)
  have "sv2 seg" "\<forall>s \<in> set (segs @ [seg]). sv2 s = is_v2 (spath s)" using v2 r segs by simp_all
  then have "\<forall>f \<in> set ?fs. file_rep (d1\<lparr>room := None\<rparr>) f"
    using torn_files [OF reps _ rec others _ refl n] by (simp only: d1 segs last_snoc) blast
  moreover have "lists (d1\<lparr>room := None\<rparr>) (map fst ?fs)"
    using r written_lists [of d2 "map spath (segments st2)" ?p ?bs] ne unfolding fst d1
    by (simp add: lists_def)
  moreover have "named (Suc (unat seq)) (map fst ?fs)" "granted d1" using r unfolding fst by (simp_all add: d1 written_def)
  ultimately show ?thesis using snd by blast
qed

lemma crash_ok:
  assumes ok: "store_ok d st rss bound" and bound: "bound \<le> unat seq" and rec: "rec_ok True (seq, ms, frames)"
    and fails: "append_group seq ms frames (d\<lparr>room := Some k\<rparr>) st = ((d1, st1), Inl e)"
    and sole: "rotate_due st \<longrightarrow> segments st = []"
  shows "\<exists>fs. on_disk (d1\<lparr>room := None\<rparr>) fs (Suc (unat seq)) \<and> concat (map (fst \<circ> snd) fs) = concat rss"
proof -
  let ?rss = "rss_ready (rotate_due st) rss"
  note o = ok [unfolded store_ok_def]
  from crash_files [OF ok bound rec fails] obtain fs where snd: "map (fst \<circ> snd) fs = ?rss"
    and fs: "\<forall>f \<in> set fs. file_rep (d1\<lparr>room := None\<rparr>) f" "named (Suc (unat seq)) (map fst fs)"
      "lists (d1\<lparr>room := None\<rparr>) (map fst fs)" "granted d1" by blast
  have "records_ok (Suc (unat seq)) ?rss"
    by (rule records_ok_mono [of bound rss]) (use o bound in simp_all)
  moreover have "\<forall>f \<in> set (tl fs). fst (snd f) \<noteq> []"
  proof -
    have "\<forall>rs \<in> set (tl ?rss). rs \<noteq> []"
      using o sole rep_length [of d st rss] by (auto simp: rss_ready_def)
    then have "\<forall>rs \<in> set (map (fst \<circ> snd) (tl fs)). rs \<noteq> []" unfolding map_tl snd .
    then show ?thesis by simp
  qed
  ultimately have "on_disk (d1\<lparr>room := None\<rparr>) fs (Suc (unat seq))" using fs unfolding on_disk_def snd by simp
  moreover have "concat (map (fst \<circ> snd) fs) = concat rss" unfolding snd by simp
  ultimately show ?thesis by blast
qed

section \<open>Collection\<close>

lemma ascending_below:
  "length segs = length rss \<Longrightarrow> ascending segs rss \<Longrightarrow> n < length segs \<Longrightarrow> r \<in> set (concat (take n rss)) \<Longrightarrow>
    fst r < sfirst (segs ! n)"
proof (induction segs rss arbitrary: n rule: ascending.induct)
  case (1 s s' segs rs rss)
  then obtain m where n: "n = Suc m" by (cases n) auto
  have len: "length (s' # segs) = length rss" using "1.prems"(1) by simp
  have asc: "ascending (s' # segs) rss" using "1.prems"(2) by simp
  have first: "sfirst s' \<le> sfirst ((s' # segs) ! j)" if "ascending (s' # segs) rss'" "j < length (s' # segs)"
    "length (s' # segs) = length rss'" for j rss'
    using that
  proof (induction segs arbitrary: s' j rss')
    case (Cons t segs)
    then obtain x y zs where rss': "rss' = x # y # zs" by (cases rss'; cases "tl rss'") auto
    show ?case
    proof (cases j)
      case (Suc i)
      have "sfirst t \<le> sfirst ((t # segs) ! i)" using Cons.IH [of t "y # zs" i] Cons.prems Suc rss' by simp
      then show ?thesis using Cons.prems(1) Suc rss' by auto
    qed simp
  qed simp
  show ?case
  proof (cases "r \<in> set rs")
    case True
    then have "fst r < sfirst s'" using "1.prems"(2) by simp
    also have "\<dots> \<le> sfirst ((s' # segs) ! m)" using first [OF asc _ len] "1.prems"(3) n by simp
    finally show ?thesis by (simp add: n)
  next
    case False
    then show ?thesis using "1.IH" [OF len asc, of m] "1.prems"(3,4) n by simp
  qed
qed (auto simp: less_Suc_eq_0_disj)

lemma lookup_append: "lookup (xs @ ys) k = (case lookup ys k of None \<Rightarrow> lookup xs k | Some r \<Rightarrow> Some r)"
proof -
  have "find P (as @ bs) = (case find P as of None \<Rightarrow> find P bs | Some x \<Rightarrow> Some x)" for P and as bs :: "group_record list"
    by (induction as) auto
  then show ?thesis unfolding lookup_def rev_append by blast
qed

lemma contents_drop:
  assumes "length segs = length rss" "ascending segs rss" "ascending (drop n segs) (drop n rss)" "n < length segs"
  shows "contents (drop n rss) k = (if sfirst (segs ! n) \<le> k then contents rss k else None)"
proof -
  have split: "concat rss = concat (take n rss) @ concat (drop n rss)"
    by (simp flip: concat_append)
  have low: "fst r < sfirst (segs ! n)" if "r \<in> set (concat (take n rss))" for r
    by (rule ascending_below [OF assms(1,2,4) that])
  have high: "sfirst (segs ! n) \<le> fst r" if "r \<in> set (concat (drop n rss))" for r
  proof -
    obtain s' segs' rs' rss' where *: "drop n segs = s' # segs'" "drop n rss = rs' # rss'"
      using assms(1,4) by (metis Cons_nth_drop_Suc)
    then have "length segs' = length rss'" using assms(1)
      by (metis length_Cons length_drop old.nat.inject)
    moreover have "s' = segs ! n" using *(1) assms(4) by (metis Cons_nth_drop_Suc list.inject)
    ultimately show ?thesis using ascending_lower [of segs' rss' s' rs' r] assms(3) that unfolding * by simp
  qed
  show ?thesis
  proof (cases "sfirst (segs ! n) \<le> k")
    case True
    then have "lookup (concat (take n rss)) k = None" using low by (force simp: lookup_None)
    then show ?thesis using True by (simp add: contents_def split lookup_append split: option.splits)
  next
    case False
    then have "lookup (concat (drop n rss)) k = None" using high by (force simp: lookup_None)
    then show ?thesis using False by (simp add: contents_def)
  qed
qed

lemma collect_minus:
  "F' = F - X \<Longrightarrow> {p \<in> F. P p} = S \<Longrightarrow> S' = S - X \<Longrightarrow> {p \<in> F'. P p} = S'"
  by blast

lemma distinct_set_drop: "distinct xs \<Longrightarrow> set (drop n xs) = set xs - set (take n xs)"
proof -
  assume "distinct xs"
  then have "distinct (take n xs @ drop n xs)" by simp
  then have "set (take n xs) \<inter> set (drop n xs) = {}" unfolding distinct_append by blast
  moreover have "set xs = set (take n xs) \<union> set (drop n xs)" by (metis append_take_drop_id set_append)
  ultimately show ?thesis by blast
qed

text \<open>What a collection leaves behind: the files, the records and the contents of the segments kept.\<close>

lemma lists_drop:
  assumes "lists d (map spath segs)" "distinct (map spath segs)"
    and "files d' = filter (\<lambda>f. fst f \<notin> spath ` set (take n segs)) (files d)"
  shows "lists d' (map spath (drop n segs))"
proof -
  let ?ps = "map spath segs"
  have paths: "set (map spath (drop n segs)) = set ?ps - spath ` set (take n segs)"
    using distinct_set_drop [OF assms(2), of n] by (simp add: drop_map take_map)
  have fs: "fst ` set (files d') = fst ` set (files d) - spath ` set (take n segs)" unfolding assms(3) by force
  have "{p \<in> fst ` set (files d). is_segment_file p} = set ?ps" using assms(1) by (simp add: lists_def)
  note collect_minus [OF fs this paths]
  moreover have "distinct (map fst (files d'))"
    using assms(1) unfolding assms(3) by (simp add: lists_def distinct_map_filter)
  ultimately show ?thesis unfolding lists_def by (rule conjI [rotated])
qed

lemma records_ok_drop: "records_ok bound rss \<Longrightarrow> records_ok bound (drop n rss)"
proof -
  assume ok: "records_ok bound rss"
  have "concat rss = concat (take n rss) @ concat (drop n rss)" by (simp flip: concat_append)
  then show ?thesis using ok by (auto simp: records_ok_def sorted_wrt_append)
qed

lemma tl_drop_subset: "set (tl (drop n xs)) \<subseteq> set (tl xs)"
  by (metis drop_Suc set_drop_subset tl_drop)

lemma gc_ok:
  assumes ok: "store_ok d st rss bound"
  shows "\<exists>d' st' n. gc cutoff mb d st = (d', st', n) \<and> store_ok d' st' (drop n rss) bound \<and>
    segments st' = drop n (segments st) \<and> (segments st \<noteq> [] \<longrightarrow> n < length (segments st)) \<and>
    (\<forall>k. contents (drop n rss) k =
      (if segments st' \<noteq> [] \<and> sfirst (hd (segments st')) \<le> k then contents rss k else None))"
proof -
  note o = ok [unfolded store_ok_def]
  have rep: "rep d st rss" using o by simp
  have len: "length (segments st) = length rss" by (rule rep_length [OF rep])
  obtain d' segs' idx' n where g: "gc_loop cutoff mb (total_bytes st) d (segments st) (index st) = (d', segs', idx', n)"
    by (cases "gc_loop cutoff mb (total_bytes st) d (segments st) (index st)") auto
  have loop: "segs' = drop n (segments st)" "segments st \<noteq> [] \<longrightarrow> n < length (segments st)"
    "list_all2 (seg_rep d') segs' (drop n rss)" "idx' = index_of [] (place_all 0 segs' (drop n rss))"
    "ascending segs' (drop n rss)" "granted d' = granted d" "room d' = room d"
    "files d' = filter (\<lambda>f. fst f \<notin> spath ` set (take n (segments st))) (files d)"
    using gc_loop_rep [OF len, of d "index st" cutoff mb "total_bytes st"] o rep unfolding rep_def g by auto
  let ?st = "st\<lparr>segments := segs', index := idx'\<rparr>"
  have gc: "gc cutoff mb d st = (d', ?st, n)" by (simp add: gc_def g)
  have drop: "set (drop n xs) \<subseteq> set xs" for xs :: "'a list" by (rule set_drop_subset)
  have last: "segments st \<noteq> [] \<Longrightarrow> segs' \<noteq> [] \<and> last segs' = last (segments st)"
    using loop(1,2) by (simp add: last_drop)
  have dist: "distinct (map spath (segments st))" using rep by (simp add: rep_def)
  have "rep d' ?st (drop n rss)"
  proof -
    have "\<forall>r \<in> set (concat (drop n rss)). \<exists>m. max_seq st = Some m \<and> fst r \<le> m"
      using rep set_drop_subset [of n rss] unfolding rep_def by auto
    moreover have "distinct (map spath segs')" using dist by (simp add: loop(1) drop_map [symmetric])
    moreover have "case writer st of None \<Rightarrow> True
      | Some w \<Rightarrow> wbuf w = [] \<and> segs' \<noteq> [] \<and> wpath w = spath (last segs')"
      using rep last by (auto simp: rep_def split: option.splits)
    ultimately show ?thesis using loop(3,4) by (simp add: rep_def split: option.splits)
  qed
  moreover have "named bound (map spath segs')" using o named_drop [of bound "map spath (segments st)" n]
    by (simp add: loop(1) drop_map)
  moreover have "lists d' (map spath segs')"
    unfolding loop(1) by (rule lists_drop [OF _ dist loop(8)]) (use o in blast)
  moreover have "records_ok bound (drop n rss)" by (rule records_ok_drop) (use o in blast)
  moreover have "\<forall>rs \<in> set (tl (drop n rss)). rs \<noteq> []" using tl_drop_subset [of n rss] o by blast
  moreover have "set segs' \<subseteq> set (segments st)" unfolding loop(1) by (rule set_drop_subset)
  ultimately have "store_ok d' ?st (drop n rss) bound"
    using o loop(5-7) unfolding store_ok_def by auto
  moreover have "contents (drop n rss) k =
      (if segs' \<noteq> [] \<and> sfirst (hd segs') \<le> k then contents rss k else None)" for k
  proof (cases "segments st = []")
    case True
    then show ?thesis using len loop(1) by (simp add: contents_def)
  next
    case False
    then have n: "n < length (segments st)" using loop(2) by simp
    then have "segs' \<noteq> []" "hd segs' = segments st ! n" by (simp_all add: loop(1) hd_drop_conv_nth)
    then show ?thesis using contents_drop [OF len _ _ n] o loop(1,5) by simp
  qed
  ultimately show ?thesis using gc loop(1,2) by auto
qed

end
