(* ===== verification/State_Lemmas.thy ===== *)
theory State_Lemmas
  imports State_Files Store_Run
begin

text \<open>
  What the state files keep: a number written is read back, an interrupted write leaves the old
  value, and no write touches a file other than the target and its temporary file.
\<close>

section \<open>Decimal text survives\<close>

definition is_digit :: "char \<Rightarrow> bool" where
  "is_digit c \<longleftrightarrow> 48 \<le> (of_char c :: nat) \<and> (of_char c :: nat) \<le> 57"

lemma is_digit_digit_char: "n < 10 \<Longrightarrow> is_digit (digit_char n)"
  by (simp add: is_digit_def digit_char_def)

lemma dec_digits: "\<forall>c \<in> set (dec n). is_digit c"
proof (induction n rule: dec.induct)
  case (1 n)
  then show ?case
    by (cases "n < 10") (simp_all add: dec.simps [of n] is_digit_digit_char)
qed

lemma to_text_of_text [simp]: "to_text (of_text s) = s"
proof -
  have "char_of (unat (word_of_nat (of_char c) :: u8)) = c" for c
    by (simp add: unat_of_nat)
  then show ?thesis by (simp add: to_text_def of_text_def comp_def)
qed

lemma length_of_text [simp]: "length (of_text s) = length s"
  by (simp add: of_text_def)

lemma of_text_append [simp]: "of_text (s @ t) = of_text s @ of_text t"
  by (simp add: of_text_def)

lemma of_text_Cons: "of_text (c # s) = word_of_nat (of_char c) # of_text s"
  by (simp add: of_text_def)

lemma of_text_Nil [simp]: "of_text [] = []"
  by (simp add: of_text_def)

lemma rev_of_text: "rev (of_text s) = of_text (rev s)"
  by (simp add: of_text_def rev_map)

definition digit_byte :: "u8 \<Rightarrow> bool" where
  "digit_byte b \<longleftrightarrow> 48 \<le> b \<and> b \<le> 57"

lemma digit_byte_of_char: "is_digit c \<Longrightarrow> digit_byte (word_of_nat (of_char c))"
proof -
  assume "is_digit c"
  then have *: "48 \<le> (of_char c :: nat)" "(of_char c :: nat) \<le> 57" by (simp_all add: is_digit_def)
  then have "unat (word_of_nat (of_char c) :: u8) = of_char c"
    by (simp add: unat_of_nat)
  then show ?thesis using * by (simp add: digit_byte_def word_le_nat_alt)
qed

lemma strip_stop:
  "\<forall>p \<in> set pats. p \<noteq> [] \<longrightarrow> hd p \<noteq> b \<Longrightarrow> strip pats (b # bs) = b # bs"
proof -
  assume *: "\<forall>p \<in> set pats. p \<noteq> [] \<longrightarrow> hd p \<noteq> b"
  have "\<not> is_prefix p (b # bs)" if "p \<in> set pats" "p \<noteq> []" for p
    using * that by (cases p) (auto simp: is_prefix_def)
  then have "find (\<lambda>p. p \<noteq> [] \<and> is_prefix p (b # bs)) pats = None"
    by (auto simp: find_None_iff)
  then show ?thesis by (simp add: strip.simps [of pats "b # bs"])
qed

lemma white_space_heads:
  "digit_byte b \<Longrightarrow> \<forall>p \<in> set white_space. p \<noteq> [] \<longrightarrow> hd p \<noteq> b"
  "digit_byte b \<Longrightarrow> \<forall>p \<in> set (map rev white_space). p \<noteq> [] \<longrightarrow> hd p \<noteq> b"
  by (auto simp: white_space_def digit_byte_def)

lemma strip_newline:
  "strip (map rev white_space) (0x0A # b # bs) = strip (map rev white_space) (b # bs)"
proof -
  have "find (\<lambda>p. p \<noteq> [] \<and> is_prefix p (0x0A # b # bs)) (map rev white_space) = Some [0x0A]"
    by (simp add: white_space_def is_prefix_def)
  then show ?thesis by (subst strip.simps) simp
qed

lemma trim_number:
  assumes "\<forall>c \<in> set s. is_digit c" "s \<noteq> []"
  shows "trim (of_text (s @ newline)) = of_text s"
proof -
  obtain c cs where s: "s = c # cs" using assms(2) by (cases s) auto
  obtain cs' c' where s': "s = cs' @ [c']" using assms(2) by (cases s rule: rev_cases) auto
  have nl: "of_text newline = [0x0A]" by (simp add: newline_def of_text_def)
  have "strip white_space (of_text (s @ newline)) = of_text (s @ newline)"
    using assms(1) unfolding s append_Cons of_text_Cons
    by (intro strip_stop white_space_heads digit_byte_of_char) simp
  moreover have "rev (of_text (s @ newline)) = 0x0A # word_of_nat (of_char c') # of_text (rev cs')"
    by (simp add: s' nl rev_of_text of_text_Cons)
  moreover have "strip (map rev white_space) (word_of_nat (of_char c') # of_text (rev cs')) =
      word_of_nat (of_char c') # of_text (rev cs')"
    using assms(1) unfolding s'
    by (intro strip_stop white_space_heads digit_byte_of_char) simp
  ultimately show ?thesis
    by (simp add: trim_def strip_newline s' rev_of_text [symmetric] of_text_Cons)
qed

lemma utf8_number: "\<forall>c \<in> set s. is_digit c \<Longrightarrow> utf8_valid (of_text (s @ newline))"
proof (rule utf8_valid_ascii, rule ballI)
  fix b assume "\<forall>c \<in> set s. is_digit c" "b \<in> set (of_text (s @ newline))"
  then consider "digit_byte b" | "b = 0x0A"
    using digit_byte_of_char by (auto simp: of_text_def newline_def)
  then show "b < 0x80"
  proof cases
    case 1
    then have "b \<le> 57" by (simp add: digit_byte_def)
    then show ?thesis by (rule order.strict_trans1) simp
  qed simp
qed

lemma parse_u64_dec: "parse_u64 (dec (unat s)) = Some s"
proof -
  obtain c cs where d: "dec (unat s) = c # cs" by (cases "dec (unat s)") auto
  then have "is_digit c" using dec_digits [of "unat s"] by simp
  then have "c \<noteq> CHR ''+''" by (auto simp: is_digit_def)
  moreover have "digits (dec (unat s)) = Some (unat s)" by (simp add: digits_def digits_val_dec)
  ultimately show ?thesis using unat_u64_less [of s] by (simp add: parse_u64_def d)
qed

lemma dec_int_digits: "0 \<le> i \<Longrightarrow> dec_int i = dec (nat i)"
  by (simp add: dec_int_def)

lemma parse_i64_dec: "0 \<le> i \<Longrightarrow> i < 2 ^ 63 \<Longrightarrow> parse_i64 (dec_int i) = Some i"
proof -
  assume i: "0 \<le> i" "i < 2 ^ 63"
  obtain c cs where d: "dec (nat i) = c # cs" by (cases "dec (nat i)") auto
  then have "is_digit c" using dec_digits [of "nat i"] by simp
  then have "c \<noteq> CHR ''+''" "c \<noteq> CHR ''-''" by (auto simp: is_digit_def)
  moreover have "digits (dec (nat i)) = Some (nat i)" by (simp add: digits_def digits_val_dec)
  moreover have "nat i < 2 ^ 63" using i by (simp add: nat_less_iff)
  ultimately show ?thesis using i by (simp add: parse_i64_def dec_int_digits d)
qed

section \<open>Writes\<close>

lemma tmp_not_segment [simp]: "\<not> is_segment_file (tmp_name p)"
proof (cases "file_stem p = []")
  case True
  then show ?thesis by (simp add: tmp_name_def is_segment_file_def split_name_def Let_def)
next
  case False
  have "split_name (file_stem p @ CHR ''.'' # ''tmp'') = (file_stem p, Some ''tmp'')"
    by (rule split_name_dot [OF _ False]) simp
  then show ?thesis by (simp add: tmp_name_def is_segment_file_def)
qed

text \<open>Two directories that agree except on the state files.\<close>

definition elsewhere :: "disk \<Rightarrow> disk \<Rightarrow> bool" where
  "elsewhere d d' \<longleftrightarrow> granted d' = granted d \<and>
     (\<forall>q. is_segment_file q \<longrightarrow> map_of (files d') q = map_of (files d) q) \<and>
     (distinct (map fst (files d)) \<longrightarrow> distinct (map fst (files d')))"

lemma elsewhere_refl [simp]: "elsewhere d d"
  by (simp add: elsewhere_def)

lemma elsewhere_trans: "elsewhere d d' \<Longrightarrow> elsewhere d' d'' \<Longrightarrow> elsewhere d d''"
  by (simp add: elsewhere_def)

lemma elsewhere_room [simp]: "elsewhere d (d'\<lparr>room := r\<rparr>) = elsewhere d d'" "elsewhere (d\<lparr>room := r\<rparr>) d' = elsewhere d d'"
  by (simp_all add: elsewhere_def)

lemma write_state_file_outcome:
  assumes "write_state_file p txt d = (d', ok)"
  shows "ok \<longleftrightarrow> granted d \<and> (case room d of None \<Rightarrow> True | Some k \<Rightarrow> length txt \<le> k)"
    and "tmp_name p \<noteq> p \<Longrightarrow>
      map_of (files d') p = (if ok then Some (of_text txt) else map_of (files d) p)"
    and "\<not> is_segment_file p \<Longrightarrow> elsewhere d d'"
    and "room d = None \<Longrightarrow> room d' = None"
  using assms
  by (auto simp: write_state_file_def Let_def emit_def content_def update_conv delete_conv elsewhere_def
      distinct_update distinct_delete min_def split: if_splits option.splits)

lemma write_state_file_others:
  "write_state_file p txt d = (d', ok) \<Longrightarrow> q \<noteq> p \<Longrightarrow> q \<noteq> tmp_name p \<Longrightarrow>
    map_of (files d') q = map_of (files d) q \<and> granted d' = granted d"
  by (auto simp: write_state_file_def Let_def emit_def update_conv delete_conv split: if_splits)

text \<open>The cursor file: a write touches nothing else of interest, and is read back.\<close>

lemma persist_cursor_leaves:
  assumes "\<not> is_segment_file c" "tmp_name c \<noteq> q" "c \<noteq> q" "room d = None"
  shows "elsewhere d (persist_cursor (Some c) n d)" and "room (persist_cursor (Some c) n d) = None"
    and "map_of (files (persist_cursor (Some c) n d)) q = map_of (files d) q"
    and "granted (persist_cursor (Some c) n d) = granted d"
proof -
  obtain d' ok where w: "write_state_file c (dec_int n @ newline) d = (d', ok)"
    by (cases "write_state_file c (dec_int n @ newline) d")
  note o = write_state_file_outcome(3,4) [OF w] write_state_file_others [OF w]
  show "elsewhere d (persist_cursor (Some c) n d)" "room (persist_cursor (Some c) n d) = None"
    "map_of (files (persist_cursor (Some c) n d)) q = map_of (files d) q"
    "granted (persist_cursor (Some c) n d) = granted d"
    using o assms w by (auto simp: persist_cursor_def elsewhere_def)
qed

lemma cursor_read:
  assumes "granted d" "map_of (files d) c = Some (of_text (dec_int n @ newline))" "0 \<le> n" "n < 2 ^ 63"
  shows "load_initial_cursor d (Some c) dflt = n"
proof -
  have "trim (of_text (dec (nat n) @ newline)) = of_text (dec (nat n))" by (rule trim_number [OF dec_digits dec_nonempty])
  moreover have "utf8_valid (of_text (dec (nat n) @ newline))" by (rule utf8_number [OF dec_digits])
  moreover have "parse_i64 (dec (nat n)) = Some n"
    using parse_i64_dec [OF assms(3,4)] assms(3) by (simp add: dec_int_digits)
  ultimately show ?thesis
    using assms by (simp add: load_initial_cursor_def read_to_string_def dec_int_digits del: of_text_append)
qed

lemma cursor_written:
  assumes "granted d" "room d = None" "tmp_name c \<noteq> c" "0 \<le> n" "n < 2 ^ 63"
  shows "load_initial_cursor (persist_cursor (Some c) n d) (Some c) dflt = n"
proof -
  obtain d' ok where w: "write_state_file c (dec_int n @ newline) d = (d', ok)"
    by (cases "write_state_file c (dec_int n @ newline) d")
  have d': "persist_cursor (Some c) n d = d'" using assms(4) w by (simp add: persist_cursor_def)
  have g: "granted d'" using w assms(1) by (auto simp: write_state_file_def Let_def emit_def split: if_splits)
  have ok: ok using write_state_file_outcome(1) [OF w] assms(1,2) by simp
  then have "map_of (files d') c = Some (of_text (dec_int n @ newline))"
    using write_state_file_outcome(2) [OF w assms(3)] by simp
  with g show ?thesis unfolding d' by (rule cursor_read) (rule assms)+
qed

text \<open>A write of the cursor, complete or not, leaves the old cursor or the new one to be read.\<close>

lemma cursor_persisted:
  assumes "tmp_name c \<noteq> c" "n < 2 ^ 63"
  shows "load_initial_cursor (persist_cursor (Some c) n d) (Some c) dflt \<in> {load_initial_cursor d (Some c) dflt, n}"
proof (cases "n < 0")
  case True
  then show ?thesis by (simp add: persist_cursor_def)
next
  case False
  obtain d' ok where w: "write_state_file c (dec_int n @ newline) d = (d', ok)"
    by (cases "write_state_file c (dec_int n @ newline) d")
  have d': "persist_cursor (Some c) n d = d'" using False w by (simp add: persist_cursor_def)
  have g: "granted d' = granted d" using w by (auto simp: write_state_file_def Let_def emit_def split: if_splits)
  note o = write_state_file_outcome(1,2) [OF w]
  show ?thesis
  proof (cases ok)
    case True
    then have "load_initial_cursor d' (Some c) dflt = n"
      using o assms False g by (intro cursor_read) simp_all
    then show ?thesis by (simp add: d')
  next
    case False
    then have "read_to_string d' c = read_to_string d c" using o(2) assms(1) g by (simp add: read_to_string_def)
    then show ?thesis by (simp add: d' load_initial_cursor_def)
  qed
qed

lemma persist_group_seq_elsewhere:
  assumes "\<not> is_segment_file p"
  shows "elsewhere d (persist_group_seq (Some p) s d)"
    and "room d = None \<Longrightarrow> room (persist_group_seq (Some p) s d) = None"
  using write_state_file_outcome(3) [OF _ assms] write_state_file_outcome(4)
  by (cases "write_state_file p (dec (unat s) @ newline) d"; fastforce simp: persist_group_seq_def)+

lemma load_group_seq_cong:
  "granted d' = granted d \<Longrightarrow> map_of (files d') p = map_of (files d) p \<Longrightarrow>
    load_group_seq d' (Some p) = load_group_seq d (Some p)"
  by (simp add: load_group_seq_def read_to_string_def)

lemma load_group_seq_written:
  "granted d \<Longrightarrow> map_of (files d) p = Some (of_text (dec (unat s) @ newline)) \<Longrightarrow>
    load_group_seq d (Some p) = Some s"
  using trim_number [OF dec_digits dec_nonempty, of "unat s"] utf8_number [OF dec_digits, of "unat s"]
  by (simp add: load_group_seq_def read_to_string_def parse_u64_dec del: of_text_append)

lemma persist_group_seq_load:
  assumes "tmp_name p \<noteq> p" "granted d"
  shows "load_group_seq (persist_group_seq (Some p) s d) (Some p) =
    (if case room d of None \<Rightarrow> True | Some k \<Rightarrow> length (dec (unat s) @ newline) \<le> k then Some s
     else load_group_seq d (Some p))"
proof -
  obtain d' ok where w: "write_state_file p (dec (unat s) @ newline) d = (d', ok)"
    by (cases "write_state_file p (dec (unat s) @ newline) d")
  then have d': "persist_group_seq (Some p) s d = d'" by (simp add: persist_group_seq_def)
  have g: "granted d' = granted d"
    using w by (auto simp: write_state_file_def Let_def emit_def split: if_splits)
  note o = write_state_file_outcome(1,2) [OF w]
  show ?thesis
  proof (cases ok)
    case True
    then have "load_group_seq d' (Some p) = Some s"
      using o(2) assms g by (intro load_group_seq_written) simp_all
    then show ?thesis using o(1) True assms(2) d' by simp
  next
    case False
    then have "load_group_seq d' (Some p) = load_group_seq d (Some p)"
      using o(2) assms g by (intro load_group_seq_cong) simp_all
    then show ?thesis using o(1) False assms(2) d' by simp
  qed
qed

section \<open>The store does not notice\<close>

lemma lists_elsewhere:
  assumes "elsewhere d d'" "lists d ps"
  shows "lists d' ps"
proof -
  have "{p \<in> fst ` set (files d'). is_segment_file p} = {p \<in> fst ` set (files d). is_segment_file p}"
  proof (rule Collect_cong)
    fix p
    have "map_of (files d') p = None \<longleftrightarrow> map_of (files d) p = None" if "is_segment_file p"
      using assms(1) that by (simp add: elsewhere_def)
    then show "(p \<in> fst ` set (files d') \<and> is_segment_file p) = (p \<in> fst ` set (files d) \<and> is_segment_file p)"
      unfolding map_of_eq_None_iff by blast
  qed
  then show ?thesis using assms by (simp add: lists_def elsewhere_def)
qed

lemma store_ok_elsewhere:
  assumes "elsewhere d d'" "room d' = None" "store_ok d st rss b"
  shows "store_ok d' st rss b"
proof -
  have "is_segment_file (spath s)" if "s \<in> set (segments st)" for s
    using assms(3) that unfolding store_ok_def lists_def by (metis (mono_tags, lifting) imageI list.set_map mem_Collect_eq)
  then have sr: "seg_rep d' s rs \<longleftrightarrow> seg_rep d s rs" if "s \<in> set (segments st)" for s rs
    using assms(1) that by (simp add: seg_rep_def elsewhere_def)
  have "list_all2 (seg_rep d) (segments st) rss" using assms(3) by (simp add: store_ok_def rep_def)
  then have "list_all2 (seg_rep d') (segments st) rss"
    by (rule list.rel_mono_strong) (simp add: sr)
  moreover have "lists d' (map spath (segments st))"
    by (rule lists_elsewhere [OF assms(1)]) (use assms(3) in \<open>simp add: store_ok_def\<close>)
  ultimately show ?thesis
    using assms unfolding store_ok_def rep_def elsewhere_def by simp
qed

lemma on_disk_elsewhere:
  assumes "elsewhere d d'" "room d' = None" "on_disk d fs b"
  shows "on_disk d' fs b"
proof -
  have "is_segment_file (fst f)" if "f \<in> set fs" for f
    using assms(3) that unfolding on_disk_def lists_def by (metis (mono_tags, lifting) imageI list.set_map mem_Collect_eq)
  then have "map_of (files d') (fst f) = map_of (files d) (fst f)" "file_rep d f" if "f \<in> set fs" for f
    using assms(1,3) that by (simp_all add: elsewhere_def on_disk_def)
  then have "file_rep d' f" if "f \<in> set fs" for f
    using that by (cases f) (force simp: file_rep_def)
  moreover have "lists d' (map fst fs)"
    by (rule lists_elsewhere [OF assms(1)]) (use assms(3) in \<open>simp add: on_disk_def\<close>)
  ultimately show ?thesis
    using assms unfolding on_disk_def elsewhere_def by simp
qed

end
