(* ===== verification/Track_Properties.thy ===== *)
theory Track_Properties
  imports Track_Cache
begin

text \<open>
  The track cache's invariant, preserved by every operation of a producer, and what consumers may
  rely on: new sequence numbers only grow, the latest group is never evicted, no group is handed
  to a consumer twice or out of turn.
\<close>

section \<open>Live groups\<close>

definition slot_list :: "slot \<Rightarrow> handle list" where
  "slot_list s = (case s of None \<Rightarrow> [] | Some hc \<Rightarrow> [fst hc])"

lemma live_eq: "live tr = concat (map slot_list (tgroups tr))"
proof -
  have "map fst (concat (map (\<lambda>s. case s of None \<Rightarrow> [] | Some hc \<Rightarrow> [hc]) ss)) = concat (map slot_list ss)" for ss
    by (induction ss) (auto simp: slot_list_def split: option.splits)
  then show ?thesis by (simp add: live_def)
qed

definition live_of :: "slot list \<Rightarrow> handle list" where
  "live_of ss = concat (map slot_list ss)"

lemma live_of_simps [simp]:
  "live_of [] = []" "live_of (None # ss) = live_of ss" "live_of (Some hc # ss) = fst hc # live_of ss"
  "live_of (ss @ ss') = live_of ss @ live_of ss'"
  by (simp_all add: live_of_def slot_list_def)

lemma live_live_of: "live tr = live_of (tgroups tr)"
  by (simp add: live_eq live_of_def)

definition track_ok :: "'src track \<Rightarrow> bool" where
  "track_ok tr \<longleftrightarrow>
     distinct (map hseq (live tr)) \<and> tduplicates tr = hseq ` set (live tr) \<and>
     (case tmax tr of
        None \<Rightarrow> tgroups tr = []
      | Some m \<Rightarrow> m \<in> hseq ` set (live tr) \<and> (\<forall>h \<in> set (live tr). hseq h \<le> m))"

lemma track_ok_new [simp]: "track_ok track_new"
  by (simp add: track_ok_def track_new_def live_live_of)

section \<open>Eviction\<close>

lemma evict_slots_spec:
  assumes "evict_slots mx age now ss dups = (ss', dups')" "distinct (map hseq (live_of ss))"
  shows "length ss' = length ss \<and> (\<exists>P. live_of ss' = filter P (live_of ss) \<and>
    (\<forall>h. Some (hseq h) = mx \<longrightarrow> P h) \<and>
    dups' = dups - hseq ` {h \<in> set (live_of ss). \<not> P h})"
  using assms
proof (induction mx age now ss dups arbitrary: ss' dups' rule: evict_slots.induct)
  case (1 mx age now dups)
  then show ?case by (auto intro: exI [of _ "\<lambda>_. True"])
next
  case (2 mx age now ss dups)
  obtain s1 d1 where e: "evict_slots mx age now ss dups = (s1, d1)" by (cases "evict_slots mx age now ss dups")
  with 2 show ?case by auto
next
  case (3 mx age now h created_at ss dups)
  have d: "distinct (map hseq (live_of ss))" and nh: "hseq h \<notin> hseq ` set (live_of ss)"
    using "3.prems"(2) by auto
  consider "Some (hseq h) = mx" | "Some (hseq h) \<noteq> mx" "now - created_at \<le> age"
    | "Some (hseq h) \<noteq> mx" "\<not> now - created_at \<le> age" by blast
  then show ?case
  proof cases
    case 1
    obtain s1 d1 where e: "evict_slots mx age now ss dups = (s1, d1)" by (cases "evict_slots mx age now ss dups")
    from "3.IH"(1) [OF 1 e d] obtain P where P: "length s1 = length ss" "live_of s1 = filter P (live_of ss)"
      "\<forall>h. Some (hseq h) = mx \<longrightarrow> P h" "d1 = dups - hseq ` {h \<in> set (live_of ss). \<not> P h}" by blast
    have "P h" using P(3) 1 by simp
    then have "{h' \<in> set (live_of (Some (h, created_at) # ss)). \<not> P h'} = {h \<in> set (live_of ss). \<not> P h}" by auto
    moreover have "ss' = Some (h, created_at) # s1" "dups' = d1" using "3.prems"(1) 1 e by auto
    ultimately show ?thesis using P \<open>P h\<close> by (intro conjI exI [of _ P]) simp_all
  next
    case 2
    then have "ss' = Some (h, created_at) # ss" "dups' = dups" using "3.prems"(1) by auto
    then show ?thesis by (intro conjI exI [of _ "\<lambda>_. True"]) simp_all
  next
    case 3
    obtain s1 d1 where e: "evict_slots mx age now ss (dups - {hseq h}) = (s1, d1)"
      by (cases "evict_slots mx age now ss (dups - {hseq h})")
    from "3.IH"(2) [OF 3 e d] obtain P where P: "length s1 = length ss" "live_of s1 = filter P (live_of ss)"
      "\<forall>h. Some (hseq h) = mx \<longrightarrow> P h" "d1 = dups - {hseq h} - hseq ` {h \<in> set (live_of ss). \<not> P h}" by blast
    have ss': "ss' = None # s1" "dups' = d1" using "3.prems"(1) 3 e by auto
    let ?Q = "\<lambda>h'. P h' \<and> hseq h' \<noteq> hseq h"
    have ne: "hseq x \<noteq> hseq h" if "x \<in> set (live_of ss)" for x using nh that by (metis imageI)
    have "filter ?Q (live_of ss) = filter P (live_of ss)" by (rule filter_cong) (use ne in auto)
    moreover have "{h' \<in> set (live_of (Some (h, created_at) # ss)). \<not> ?Q h'} = insert h {h \<in> set (live_of ss). \<not> P h}"
      using ne by auto
    moreover have "\<forall>h'. Some (hseq h') = mx \<longrightarrow> ?Q h'" using P(3) 3(1) by auto
    ultimately show ?thesis using P ss' by (intro conjI exI [of _ ?Q]) auto
  qed
qed

lemma trim_slots_spec:
  "trim_slots ss offset = (ss', offset') \<Longrightarrow>
    \<exists>n. ss = replicate n None @ ss' \<and> offset' = offset + n \<and> (ss' = [] \<or> hd ss' \<noteq> None)"
proof (induction ss offset rule: trim_slots.induct)
  case (1 ss offset)
  then obtain n where "ss = replicate n None @ ss'" "offset' = offset + 1 + n" "ss' = [] \<or> hd ss' \<noteq> None"
    by auto
  then show ?case by (intro exI [of _ "Suc n"]) simp
qed (auto intro: exI [of _ 0])

lemma live_of_replicate [simp]: "live_of (replicate n None) = []"
  by (induction n) simp_all

lemma evict_expired_spec:
  assumes "distinct (map hseq (live tr))"
  obtains P where "live (evict_expired now tr) = filter P (live tr)"
    and "\<forall>h. Some (hseq h) = tmax tr \<longrightarrow> P h"
    and "tduplicates (evict_expired now tr) = tduplicates tr - hseq ` {h \<in> set (live tr). \<not> P h}"
    and "tmax (evict_expired now tr) = tmax tr"
proof -
  let ?age = "case tage tr of None \<Rightarrow> MAX_GROUP_AGE | Some a \<Rightarrow> a"
  obtain s1 d1 where e: "evict_slots (tmax tr) ?age now (tgroups tr) (tduplicates tr) = (s1, d1)"
    by (cases "evict_slots (tmax tr) ?age now (tgroups tr) (tduplicates tr)")
  obtain s2 o2 where t: "trim_slots s1 (toffset tr) = (s2, o2)" by (cases "trim_slots s1 (toffset tr)")
  from evict_slots_spec [OF e] assms obtain P where "live_of s1 = filter P (live tr)"
    "\<forall>h. Some (hseq h) = tmax tr \<longrightarrow> P h" "d1 = tduplicates tr - hseq ` {h \<in> set (live tr). \<not> P h}"
    unfolding live_live_of by blast
  moreover have "live_of s2 = live_of s1" using trim_slots_spec [OF t] by auto
  ultimately show thesis
    by (intro that [of P]) (simp_all add: evict_expired_def e t Let_def live_live_of)
qed

lemma push_group_fields [simp]:
  "tclosed (push_group h now mx tr) = tclosed tr" "tfinal (push_group h now mx tr) = tfinal tr"
  "tage (push_group h now mx tr) = tage tr" "tsource (push_group h now mx tr) = tsource tr"
  by (simp_all add: push_group_def evict_expired_def Let_def split: prod.splits)

lemma push_group_ok:
  assumes "track_ok tr" "hseq h \<notin> tduplicates tr"
    and mx: "hseq h \<le> mx" "case tmax tr of None \<Rightarrow> mx = hseq h | Some m \<Rightarrow> mx = max m (hseq h)"
  shows "track_ok (push_group h now mx tr)" and "tmax (push_group h now mx tr) = Some mx"
proof -
  let ?tr = "tr\<lparr>tduplicates := insert (hseq h) (tduplicates tr), tmax := Some mx,
    tgroups := tgroups tr @ [Some (h, now)]\<rparr>"
  have live: "live ?tr = live tr @ [h]" by (simp add: live_live_of)
  have ok: "distinct (map hseq (live tr))" "tduplicates tr = hseq ` set (live tr)"
    using assms(1) by (simp_all add: track_ok_def)
  have dist: "distinct (map hseq (live ?tr))" unfolding live using ok assms(2) by auto
  from evict_expired_spec [OF dist, of now] obtain P where
    P: "live (evict_expired now ?tr) = filter P (live ?tr)" "\<forall>h. Some (hseq h) = tmax ?tr \<longrightarrow> P h"
      "tduplicates (evict_expired now ?tr) = tduplicates ?tr - hseq ` {h \<in> set (live ?tr). \<not> P h}"
      "tmax (evict_expired now ?tr) = tmax ?tr" by blast
  have inj: "inj_on hseq (set (live ?tr))" using dist by (simp add: distinct_map)
  have dups: "tduplicates ?tr = hseq ` set (live ?tr)" unfolding live using ok(2) by simp
  have "tduplicates (evict_expired now ?tr) = hseq ` {h \<in> set (live ?tr). P h}"
    unfolding P(3) dups by (subst inj_on_image_set_diff [OF inj, symmetric]) auto
  moreover have "{h \<in> set (live ?tr). P h} = set (live (evict_expired now ?tr))" unfolding P(1) by auto
  moreover have "distinct (map hseq (live (evict_expired now ?tr)))"
    unfolding P(1) using dist by (rule distinct_map_filter)
  moreover have "mx \<in> hseq ` set (live ?tr)"
  proof (cases "tmax tr")
    case None
    then show ?thesis unfolding live using mx(2) by simp
  next
    case (Some m)
    then have "m \<in> hseq ` set (live tr)" using assms(1) by (simp add: track_ok_def)
    then show ?thesis unfolding live using mx(2) Some by (auto simp: max_def)
  qed
  then have "mx \<in> hseq ` set (live (evict_expired now ?tr))" unfolding P(1) using P(2) by auto
  moreover have "\<forall>h \<in> set (live ?tr). hseq h \<le> mx"
    using assms(1) mx by (auto simp: live track_ok_def live_live_of le_max_iff_disj split: option.splits)
  then have "\<forall>h \<in> set (live (evict_expired now ?tr)). hseq h \<le> mx" unfolding P(1) by auto
  ultimately show "track_ok (push_group h now mx tr)"
    using P(4) unfolding track_ok_def push_group_def by simp
  show "tmax (push_group h now mx tr) = Some mx" unfolding push_group_def using P(4) by simp
qed

section \<open>A small track\<close>

definition sample_track :: "unit track" where
  "sample_track =
     (case append_group_at 0 0 track_new of Inr (_, tr) \<Rightarrow>
        (case create_group \<lparr>href = 1, hseq = 5\<rparr> 10 tr of Inr tr \<Rightarrow> tr))"

lemma sample_track_eq: "sample_track =
  \<lparr>tgroups = [Some (\<lparr>href = 0, hseq = 0\<rparr>, 0), Some (\<lparr>href = 1, hseq = 5\<rparr>, 10)], tduplicates = {0, 5},
   toffset = 0, tmax = Some 5, tfinal = None, tabort = None, tage = None, tsource = None, tclosed = False\<rparr>"
  by (simp add: sample_track_def append_group_at_def create_group_def track_modify_def track_new_def is_final_def
      push_group_def evict_expired_def MAX_GROUP_AGE_def insert_commute Let_def)

lemma sample_track_ok: "track_ok sample_track"
  by (simp add: track_ok_def sample_track_eq live_live_of insert_commute)

section \<open>Producers\<close>

lemma track_modify_Inr: "track_modify tr f = Inr x \<longleftrightarrow> \<not> tclosed tr \<and> f tr = Inr x"
  by (simp add: track_modify_def)

lemma succ_u64_Inr: "succ_u64 m = Inr s \<Longrightarrow> unat s = Suc (unat m) \<and> m < s"
proof -
  assume "succ_u64 m = Inr s"
  then have s: "s = m + 1" "m \<noteq> - 1" by (auto simp: succ_u64_def split: if_splits)
  then have "1 + m \<noteq> 0" by (metis add.commute eq_neg_iff_add_eq_0)
  then have "unat s = Suc (unat m)" unfolding s(1) by (metis add.commute unatSuc)
  then show ?thesis by (simp add: word_less_nat_alt)
qed

lemma append_group_push:
  assumes "track_ok tr" "append_group_at ref now tr = Inr (h, tr')"
  shows "tr' = push_group h now (hseq h) tr \<and> href h = ref \<and> hseq h \<notin> tduplicates tr \<and>
    (case tmax tr of None \<Rightarrow> hseq h = 0 | Some m \<Rightarrow> unat (hseq h) = Suc (unat m) \<and> m < hseq h)"
proof -
  from assms(2) obtain s where s: "(case tmax tr of None \<Rightarrow> Inr 0 | Some m \<Rightarrow> succ_u64 m) = Inr s"
    and h: "h = \<lparr>href = ref, hseq = s\<rparr>" and tr': "tr' = push_group h now s tr"
    by (auto simp: append_group_at_def track_modify_Inr Let_def split: if_splits)
  have nxt: "case tmax tr of None \<Rightarrow> s = 0 | Some m \<Rightarrow> unat s = Suc (unat m) \<and> m < s"
    using s succ_u64_Inr by (auto split: option.splits)
  have "s \<notin> tduplicates tr"
  proof
    assume "s \<in> tduplicates tr"
    then obtain g where g: "g \<in> set (live tr)" "hseq g = s" using assms(1) by (auto simp: track_ok_def)
    show False
    proof (cases "tmax tr")
      case None
      then show ?thesis using assms(1) g by (simp add: track_ok_def live_live_of)
    next
      case (Some m)
      then show ?thesis using assms(1) g nxt by (auto simp: track_ok_def)
    qed
  qed
  then show ?thesis using nxt tr' by (cases "tmax tr") (simp_all add: h)
qed

lemma create_group_push:
  assumes "create_group h now tr = Inr tr'"
  shows "tr' = push_group h now (max (case tmax tr of None \<Rightarrow> 0 | Some m \<Rightarrow> m) (hseq h)) tr \<and>
    hseq h \<notin> tduplicates tr"
  using assms by (auto simp: create_group_def track_modify_Inr split: if_splits)

text \<open>appending hands out a sequence number one above the highest the track ever saw, so numbers
  only grow, whatever has been evicted; the new group is cached and the invariant kept.\<close>

theorem append_group_fresh:
  assumes "track_ok tr" "append_group_at ref now tr = Inr (h, tr')"
  shows "track_ok tr' \<and> tmax tr' = Some (hseq h) \<and> href h = ref \<and>
    (case tmax tr of None \<Rightarrow> hseq h = 0 | Some m \<Rightarrow> unat (hseq h) = Suc (unat m))"
proof -
  note p = append_group_push [OF assms]
  then have "case tmax tr of None \<Rightarrow> hseq h = hseq h | Some m \<Rightarrow> hseq h = max m (hseq h)"
    by (cases "tmax tr") (auto simp: max_def)
  then have "track_ok tr'" "tmax tr' = Some (hseq h)"
    using push_group_ok [OF assms(1), of h "hseq h" now] p by simp_all
  then show ?thesis using p by (cases "tmax tr") simp_all
qed

theorem append_group_fresh_witness:
  "case append_group_at 2 20 sample_track of Inr (h, tr') \<Rightarrow> track_ok tr' \<and> unat (hseq h) = 6"
proof -
  obtain h tr' where a: "append_group_at 2 20 sample_track = Inr (h, tr')"
    by (simp add: append_group_at_def track_modify_def sample_track_eq succ_u64_def is_final_def Let_def)
  from append_group_fresh [OF sample_track_ok a] have "track_ok tr' \<and> unat (hseq h) = 6"
    by (simp add: sample_track_eq)
  then show ?thesis unfolding a by simp
qed

text \<open>a group is created under a given sequence number unless the track is closed or finished
  below it, or a group of that number is still cached; then it is cached, and the highest number
  is kept.\<close>

theorem create_group_ok:
  assumes "track_ok tr" "\<not> tclosed tr"
  shows "case create_group h now tr of
      Inl e \<Rightarrow> is_final tr (hseq h) \<or> hseq h \<in> hseq ` set (live tr)
    | Inr tr' \<Rightarrow> \<not> is_final tr (hseq h) \<and> hseq h \<notin> hseq ` set (live tr) \<and> track_ok tr' \<and>
        tmax tr' = Some (case tmax tr of None \<Rightarrow> hseq h | Some m \<Rightarrow> max m (hseq h))"
proof -
  have dups: "tduplicates tr = hseq ` set (live tr)" using assms(1) by (simp add: track_ok_def)
  let ?mx = "max (case tmax tr of None \<Rightarrow> 0 | Some m \<Rightarrow> m) (hseq h)"
  have "track_ok (push_group h now ?mx tr)" "tmax (push_group h now ?mx tr) = Some ?mx"
    if "hseq h \<notin> tduplicates tr"
    by (rule push_group_ok [OF assms(1) that]; simp split: option.splits)+
  then show ?thesis using assms(2)
    by (auto simp: create_group_def track_modify_def dups split: option.splits)
qed

theorem create_group_ok_witness: "create_group \<lparr>href = 2, hseq = 5\<rparr> 20 sample_track \<noteq> Inr tr"
  using create_group_ok [OF sample_track_ok, of "\<lparr>href = 2, hseq = 5\<rparr>" 20]
  by (simp add: sample_track_eq live_live_of split: sum.splits)

section \<open>Consumers\<close>

text \<open>\<open>next_group\<close> only moves forward: the group it returns is one of the cache, at or above the
  starting sequence and the ones returned before, and the next one will be above it.\<close>

theorem next_group_increases:
  assumes "next_group tr c = (Ready (Inr (Some h)), c')"
  shows "h \<in> set (live tr) \<and> cmin c \<le> hseq h \<and> cnext c \<le> hseq h \<and> cnext c' = sat_succ (hseq h) \<and>
    cmin c' = cmin c \<and> cindex c < cindex c'"
  using assms
proof (induction tr c rule: next_group.induct)
  case (1 tr c)
  obtain r c1 where r: "recv_group tr c = (r, c1)" by (cases "recv_group tr c")
  then obtain g where g: "recv_group tr c = (Ready (Inr (Some g)), c1)"
    using "1.prems" by (auto simp: next_group.simps [of tr c] split: poll.splits sum.splits option.splits)
  from recv_group_Some [OF g] obtain k t where k: "c1 = c\<lparr>cindex := k + 1\<rparr>" "cindex c \<le> k" "cmin c \<le> hseq g"
    "k - toffset tr < length (tgroups tr)" "tgroups tr ! (k - toffset tr) = Some (g, t)" by auto
  show ?case
  proof (cases "hseq g < cnext c")
    case True
    then have "next_group tr c1 = (Ready (Inr (Some h)), c')"
      using "1.prems" by (simp add: next_group.simps [of tr c] g)
    from "1.IH" [OF g [symmetric] refl refl refl True this] k show ?thesis by simp
  next
    case False
    then have "h = g" "c' = c1\<lparr>cnext := sat_succ (hseq g)\<rparr>"
      using "1.prems" by (auto simp: next_group.simps [of tr c] g)
    moreover have "Some (g, t) \<in> set (tgroups tr)" using k(4,5) by (metis nth_mem)
    then have "g \<in> set (live tr)" by (force simp: live_eq slot_list_def)
    ultimately show ?thesis using False k by simp
  qed
qed

theorem next_group_increases_witness:
  "case next_group sample_track (start_at 3 consume) of (Ready (Inr (Some h)), c') \<Rightarrow> 3 \<le> hseq h"
proof -
  have n: "next_group sample_track (start_at 3 consume) =
      (Ready (Inr (Some \<lparr>href = 1, hseq = 5\<rparr>)), \<lparr>cindex = 2, cmin = 3, cnext = 6\<rparr>)"
    by (subst next_group.simps) (simp add: sample_track_eq recv_group_def state_poll_recv_group_def
        start_at_def consume_def track_poll_def sat_succ_def Let_def)
  from next_group_increases [OF n] have "(3 :: u64) \<le> 5" by (simp add: start_at_def)
  then show ?thesis unfolding n by simp
qed

text \<open>Receiving until nothing is left.\<close>

fun recv_n :: "nat \<Rightarrow> 'src track \<Rightarrow> consumer \<Rightarrow> handle list \<times> consumer" where
  "recv_n 0 tr c = ([], c)"
| "recv_n (Suc n) tr c =
     (case recv_group tr c of
        (Ready (Inr (Some h)), c) \<Rightarrow> (let (hs, c) = recv_n n tr c in (h # hs, c))
      | (_, c) \<Rightarrow> ([], c))"

lemma find_slot_live:
  "case find_slot m i ss of
     None \<Rightarrow> filter (\<lambda>h. m \<le> hseq h) (live_of ss) = []
   | Some (h, k) \<Rightarrow> filter (\<lambda>h. m \<le> hseq h) (live_of ss) =
       h # filter (\<lambda>h. m \<le> hseq h) (live_of (drop (k + 1 - i) ss)) \<and> i \<le> k"
proof (induction m i ss rule: find_slot.induct)
  case (2 m i ss)
  then show ?case by (auto split: option.splits simp: Suc_diff_le)
next
  case (3 m i h c ss)
  then show ?case by (auto split: option.splits simp: Suc_diff_le)
qed simp

lemma poll_end_not_Some: "track_poll tr (poll_end tr) \<noteq> Ready (Inr (Some x))"
  by (auto simp: track_poll_def poll_end_def split: option.splits)

lemma recv_n_live:
  assumes "length (tgroups tr) \<le> n"
  shows "fst (recv_n n tr c) =
    filter (\<lambda>h. cmin c \<le> hseq h) (live_of (drop (cindex c - toffset tr) (tgroups tr)))"
proof -
  have "length (tgroups tr) - (cindex c - toffset tr) \<le> n" using assms by simp
  then show ?thesis
  proof (induction n arbitrary: c)
    case 0
    then show ?case by simp
  next
    case (Suc n)
    let ?start = "cindex c - toffset tr"
    note f = find_slot_live [where m = "cmin c" and i = "toffset tr + ?start" and ss = "drop ?start (tgroups tr)"]
    show ?case
    proof (cases "find_slot (cmin c) (toffset tr + ?start) (drop ?start (tgroups tr))")
      case None
      then have "recv_group tr c = (r, c') \<Longrightarrow> r \<noteq> Ready (Inr (Some h))" for r c' h
        by (auto simp: recv_group_def state_poll_recv_group_def Let_def poll_end_not_Some
            split: poll.splits sum.splits option.splits)
      then have "fst (recv_n (Suc n) tr c) = []"
        by (auto split: prod.splits poll.splits sum.splits option.splits)
      then show ?thesis using f None by simp
    next
      case (Some hk)
      obtain h k where hk: "hk = (h, k)" by (cases hk)
      let ?c = "c\<lparr>cindex := k + 1\<rparr>"
      have r: "recv_group tr c = (Ready (Inr (Some h)), ?c)"
        using Some by (simp add: recv_group_def state_poll_recv_group_def track_poll_def hk Let_def)
      have k: "toffset tr + ?start \<le> k" "k < toffset tr + ?start + length (drop ?start (tgroups tr))"
        using find_slot_Some [OF Some [unfolded hk]] by auto
      then have "length (tgroups tr) - (cindex ?c - toffset tr) \<le> n" using Suc.prems by simp
      from Suc.IH [OF this] have "fst (recv_n n tr ?c) =
        filter (\<lambda>h. cmin c \<le> hseq h) (live_of (drop (k + 1 - toffset tr) (tgroups tr)))" by simp
      moreover have "drop (k + 1 - (toffset tr + ?start)) (drop ?start (tgroups tr)) = drop (k + 1 - toffset tr) (tgroups tr)"
        using k(1) by simp
      ultimately show ?thesis using f Some hk r by (auto split: prod.splits)
    qed
  qed
qed

text \<open>receiving yields every cached group at or above the starting sequence exactly once, in
  the order of arrival, from the consumer's position on.\<close>

theorem recv_in_order:
  assumes "length (tgroups tr) \<le> n"
  shows "fst (recv_n n tr c) =
    filter (\<lambda>h. cmin c \<le> hseq h) (live_of (drop (cindex c - toffset tr) (tgroups tr)))"
  by (rule recv_n_live [OF assms])

theorem recv_in_order_witness: "fst (recv_n 2 sample_track consume) = [\<lparr>href = 0, hseq = 0\<rparr>, \<lparr>href = 1, hseq = 5\<rparr>]"
  using recv_in_order [of sample_track 2 consume] by (simp add: sample_track_eq consume_def)

end
