(* ===== verification/Publisher_Cache.thy ===== *)
theory Publisher_Cache
  imports Publisher State_Lemmas Track_Properties
begin

text \<open>
  The live cache against the history of what was published: \<open>sent\<close> gives, for every sequence
  number, the frames ever written under it. \<open>cache_ok\<close> says that each cached group holds the
  frames sent under its number (less what it evicted), and is kept by pushing a group, by writing
  to one, and by the reload of a restart.
\<close>

type_synonym history = "u64 \<Rightarrow> bytes list"

definition cache_ok :: "history \<Rightarrow> 'src track \<Rightarrow> group list \<Rightarrow> bool" where
  "cache_ok sent tr heap \<longleftrightarrow>
     track_ok tr \<and> \<not> tclosed tr \<and> tfinal tr = None \<and> distinct (map href (live tr)) \<and>
     (\<forall>h \<in> set (live tr). href h < length heap \<and> group_ok (sent (hseq h)) (heap ! href h))"

lemma push_group_live:
  assumes "track_ok tr" "hseq h \<notin> tduplicates tr"
  obtains P where "live (push_group h now mx tr) = filter P (live tr @ [h])" "\<And>g. hseq g = mx \<Longrightarrow> P g"
proof -
  let ?tr = "tr\<lparr>tduplicates := insert (hseq h) (tduplicates tr), tmax := Some mx,
    tgroups := tgroups tr @ [Some (h, now)]\<rparr>"
  have live: "live ?tr = live tr @ [h]" by (simp add: live_live_of)
  have "distinct (map hseq (live ?tr))" unfolding live using assms by (auto simp: track_ok_def)
  from evict_expired_spec [OF this, of now] obtain P where
    P: "live (evict_expired now ?tr) = filter P (live ?tr)" "\<forall>h. Some (hseq h) = tmax ?tr \<longrightarrow> P h"
      "tduplicates (evict_expired now ?tr) = tduplicates ?tr - hseq ` {h \<in> set (live ?tr). \<not> P h}"
      "tmax (evict_expired now ?tr) = tmax ?tr" by blast
  have "live (push_group h now mx tr) = filter P (live tr @ [h])"
    unfolding push_group_def P(1) live ..
  moreover have "P g" if "hseq g = mx" for g using P(2) that by simp
  ultimately show thesis by (rule that)
qed

lemma cache_push:
  assumes "cache_ok sent tr heap" "hseq h \<notin> tduplicates tr" "href h = length heap"
    and mx: "hseq h \<le> mx" "case tmax tr of None \<Rightarrow> mx = hseq h | Some m \<Rightarrow> mx = max m (hseq h)"
    and g: "group_ok (sent (hseq h)) g"
  shows "cache_ok sent (push_group h now mx tr) (heap @ [g])"
    and "tmax (push_group h now mx tr) = Some mx"
    and "hseq h = mx \<Longrightarrow> h \<in> set (live (push_group h now mx tr))"
    and "set (live (push_group h now mx tr)) \<subseteq> insert h (set (live tr))"
proof -
  have ok: "track_ok tr" using assms(1) by (simp add: cache_ok_def)
  from push_group_live [OF ok assms(2)] obtain P where
    P: "live (push_group h now mx tr) = filter P (live tr @ [h])" "\<And>g. hseq g = mx \<Longrightarrow> P g" by blast
  have old: "href k < length heap" "group_ok (sent (hseq k)) (heap ! href k)" if "k \<in> set (live tr)" for k
    using assms(1) that by (simp_all add: cache_ok_def)
  have "distinct (map href (live tr @ [h]))" using assms(1,3) old(1) by (force simp: cache_ok_def)
  then have "distinct (map href (live (push_group h now mx tr)))" unfolding P(1) by (rule distinct_map_filter)
  moreover have "href k < length (heap @ [g]) \<and> group_ok (sent (hseq k)) ((heap @ [g]) ! href k)"
    if "k \<in> set (live tr @ [h])" for k
    using that old assms(3) g by (auto simp: nth_append less_SucI)
  ultimately show "cache_ok sent (push_group h now mx tr) (heap @ [g])"
    using push_group_ok(1) [OF ok assms(2) mx] assms(1) by (simp add: cache_ok_def P(1))
  show "tmax (push_group h now mx tr) = Some mx" by (rule push_group_ok(2) [OF ok assms(2) mx])
  show "hseq h = mx \<Longrightarrow> h \<in> set (live (push_group h now mx tr))" unfolding P(1) using P(2) by simp
  show "set (live (push_group h now mx tr)) \<subseteq> insert h (set (live tr))" unfolding P(1) by auto
qed

text \<open>Histories that agree on the cached numbers.\<close>

lemma cache_cong:
  assumes "cache_ok sent tr heap" "\<And>h. h \<in> set (live tr) \<Longrightarrow> sent' (hseq h) = sent (hseq h)"
  shows "cache_ok sent' tr heap"
  using assms by (simp add: cache_ok_def)

lemma cache_same_track:
  assumes "cache_ok sent tr heap" "tgroups tr' = tgroups tr" "tduplicates tr' = tduplicates tr"
    "tmax tr' = tmax tr" "tclosed tr' = tclosed tr" "tfinal tr' = tfinal tr"
  shows "cache_ok sent tr' heap"
proof -
  have "live tr' = live tr" using assms(2) by (simp add: live_live_of)
  then show ?thesis using assms by (cases "tmax tr") (simp_all add: cache_ok_def track_ok_def)
qed

text \<open>An operation on one cached group leaves the others alone.\<close>

lemma cache_update:
  assumes "cache_ok sent tr heap" "h \<in> set (live tr)" "group_ok fs g"
  shows "cache_ok (sent(hseq h := fs)) tr (heap[href h := g])"
proof -
  have d: "distinct (map hseq (live tr))" "distinct (map href (live tr))"
    using assms(1) by (simp_all add: cache_ok_def track_ok_def)
  have "hseq k \<noteq> hseq h \<and> href h \<noteq> href k" if "k \<in> set (live tr)" "k \<noteq> h" for k
    using d assms(2) that by (auto simp: distinct_map dest: inj_onD)
  moreover have "href h < length heap" using assms(1,2) by (simp add: cache_ok_def)
  ultimately have "href k < length (heap[href h := g]) \<and>
      group_ok ((sent(hseq h := fs)) (hseq k)) (heap[href h := g] ! href k)" if "k \<in> set (live tr)" for k
    using assms(1,3) that by (cases "k = h") (auto simp: cache_ok_def)
  then show ?thesis using assms(1) by (simp add: cache_ok_def)
qed

lemma group_finish_ok: "group_ok fs g \<Longrightarrow> group_finish g = Inr g' \<Longrightarrow> group_ok fs g'"
  by (auto simp: group_finish_def group_modify_def group_ok_def split: if_splits)

lemma group_finish_Inr: "\<not> gclosed g \<Longrightarrow> \<exists>g'. group_finish g = Inr g'"
  by (simp add: group_finish_def group_modify_def)

section \<open>Reloading\<close>

text \<open>Groups of distinct numbers, all new to the track, come back as they were stored.\<close>

lemma reload_groups_ok:
  assumes "cache_ok sent tr heap" "distinct seqs" "\<forall>s \<in> set seqs. s \<notin> hseq ` set (live tr)"
    and "\<And>s. s \<in> set seqs \<Longrightarrow> read d st s = Inr (Some (sent s))"
    and "\<forall>s. tmax tr = Some s \<longrightarrow> s < lim" "\<forall>s \<in> set seqs. s < lim"
  shows "\<exists>tr' heap'. reload_groups now seqs d st tr heap = Inr (tr', heap') \<and> cache_ok sent tr' heap' \<and>
    (\<forall>h \<in> set (live tr'). h \<in> set (live tr) \<or> hseq h \<in> set seqs) \<and>
    (\<forall>s. tmax tr' = Some s \<longrightarrow> s < lim) \<and> (tmax tr = None \<and> seqs = [] \<longrightarrow> tmax tr' = None)"
  using assms
proof (induction seqs arbitrary: tr heap)
  case Nil
  then show ?case by simp
next
  case (Cons s seqs)
  let ?h = "\<lparr>href = length heap, hseq = s\<rparr>"
  let ?mx = "max (case tmax tr of None \<Rightarrow> 0 | Some m \<Rightarrow> m) s"
  let ?tr = "push_group ?h (now s) ?mx tr"
  have c: "track_ok tr" "\<not> tclosed tr" "tfinal tr = None" using Cons.prems(1) by (simp_all add: cache_ok_def)
  have new: "s \<notin> tduplicates tr" using Cons.prems(3) c(1) by (simp add: track_ok_def)
  then have create: "create_group ?h (now s) tr = Inr ?tr"
    using c by (simp add: create_group_def track_modify_def is_final_def)
  from write_frames_new [of "sent s"] obtain g where
    g: "write_frames (sent s) group_new = Inr g" "group_ok (sent s) g" "\<not> gclosed g" by blast
  from group_finish_Inr [OF g(3)] obtain g' where g': "group_finish g = Inr g'" by blast
  have mx: "case tmax tr of None \<Rightarrow> ?mx = hseq ?h | Some m \<Rightarrow> ?mx = max m (hseq ?h)" by (simp split: option.splits)
  note p = cache_push [OF Cons.prems(1) _ _ _ mx, of g' "now s", simplified, OF new group_finish_ok [OF g(2) g']]
  have sub: "set (live ?tr) \<subseteq> insert ?h (set (live tr))" using p(4) by simp
  have "?mx < lim" using Cons.prems(5,6) by (cases "tmax tr") (simp_all add: max_def)
  then have IH: "\<exists>tr' heap'. reload_groups now seqs d st ?tr (heap @ [g']) = Inr (tr', heap') \<and> cache_ok sent tr' heap' \<and>
    (\<forall>h \<in> set (live tr'). h \<in> set (live ?tr) \<or> hseq h \<in> set seqs) \<and>
    (\<forall>s. tmax tr' = Some s \<longrightarrow> s < lim) \<and> (tmax ?tr = None \<and> seqs = [] \<longrightarrow> tmax tr' = None)"
  proof (intro Cons.IH)
    show "cache_ok sent ?tr (heap @ [g'])" by (rule p(1))
    show "\<forall>k \<in> set seqs. k \<notin> hseq ` set (live ?tr)"
    proof (intro ballI notI)
      fix k assume k: "k \<in> set seqs" "k \<in> hseq ` set (live ?tr)"
      then have "k = s \<or> k \<in> hseq ` set (live tr)" using sub by auto
      then show False using Cons.prems(2,3) k(1) by auto
    qed
    show "\<forall>k. tmax ?tr = Some k \<longrightarrow> k < lim" using p(2) \<open>?mx < lim\<close> by (simp del: max_less_iff_conj)
  qed (use Cons.prems in auto)
  moreover have "reload_groups now (s # seqs) d st tr heap = reload_groups now seqs d st ?tr (heap @ [g'])"
    using Cons.prems(4) [of s] by (simp add: io_def moq_def create g(1) g')
  ultimately show ?case using sub by fastforce
qed

end
