(* ===== verification/Publisher_Run.thy ===== *)
theory Publisher_Run
  imports Publisher_Cache
begin

text \<open>
  The publisher's invariant between its operations (\<open>pub_ok\<close>) and that of the directory between
  two lives (\<open>down_ok\<close>), against the history of everything ever published, and one preservation
  lemma per operation: start, write with rotation, collection, clean shutdown, and interruption.
\<close>

section \<open>Invariants\<close>

definition seq_name :: "string option \<Rightarrow> string" where
  "seq_name cfg = (case cfg of None \<Rightarrow> ''group_seq'' | Some p \<Rightarrow> p)"

lemma default_seq_name [simp]: "default_seq_file cfg = Some (seq_name cfg)"
  by (simp add: default_seq_file_def seq_name_def split: option.split)

text \<open>A sequence file that is not itself taken for a segment or a temporary file.\<close>

definition good_file :: "string \<Rightarrow> bool" where
  "good_file p \<longleftrightarrow> \<not> is_segment_file p \<and> tmp_name p \<noteq> p"

definition holds :: "group_record list list \<Rightarrow> history \<Rightarrow> bool" where
  "holds rss sent \<longleftrightarrow> (\<forall>q fs. contents rss q = Some fs \<longrightarrow> fs = sent q)"

definition pub_ok :: "string \<Rightarrow> disk \<Rightarrow> publisher \<Rightarrow> history \<Rightarrow> bool" where
  "pub_ok file d p sent \<longleftrightarrow>
     (\<exists>st rss b. pstore p = Some st \<and> store_ok d st rss b \<and> b \<le> unat (hseq (pgroup p)) \<and> holds rss sent) \<and>
     pseq_file p = Some file \<and> load_group_seq d (Some file) = Some (hseq (pgroup p)) \<and>
     cache_ok sent (ptrack p) (pheap p) \<and> tmax (ptrack p) = Some (hseq (pgroup p)) \<and>
     pgroup p \<in> set (live (ptrack p)) \<and>
     \<not> gclosed (pheap p ! href (pgroup p)) \<and> \<not> gfin (pheap p ! href (pgroup p)) \<and>
     sent (hseq (pgroup p)) = pframes p \<and> (\<forall>s ms. rec_ok True (s, ms, pframes p)) \<and>
     (\<forall>q. sent q \<noteq> [] \<longrightarrow> q \<le> hseq (pgroup p))"

definition down_ok :: "string \<Rightarrow> disk \<Rightarrow> history \<Rightarrow> bool" where
  "down_ok file d sent \<longleftrightarrow>
     (\<exists>fs b. on_disk d fs b \<and> holds (map (fst \<circ> snd) fs) sent \<and>
        (case load_group_seq d (Some file) of
           None \<Rightarrow> b = 0 \<and> (\<forall>q. sent q = [])
         | Some f \<Rightarrow> b \<le> Suc (unat f) \<and> (\<forall>q. sent q \<noteq> [] \<longrightarrow> q \<le> f)))"

lemma contents_bound: "records_ok b rss \<Longrightarrow> contents rss q = Some fs \<Longrightarrow> unat q < b"
  unfolding contents_def records_ok_def using lookup_Some by fastforce

lemma holds_concat: "concat rss' = concat rss \<Longrightarrow> holds rss' sent = holds rss sent"
  by (simp add: holds_def contents_def)

lemma holds_snoc:
  "holds rss sent \<Longrightarrow> concat rss' = concat rss @ [(s, ms, sent s)] \<Longrightarrow> holds rss' sent"
  by (auto simp: holds_def contents_def split: if_splits)

text \<open>Publishing under a number the store does not hold yet.\<close>

lemma holds_upd:
  "holds rss sent \<Longrightarrow> records_ok b rss \<Longrightarrow> b \<le> unat s \<Longrightarrow> holds rss (sent(s := fs))"
  unfolding holds_def using contents_bound by fastforce

section \<open>Between two lives\<close>

text \<open>A publisher that stops dead leaves its directory as it is.\<close>

lemma pub_down:
  assumes "pub_ok file d p sent"
  shows "down_ok file d sent"
proof -
  from assms obtain st rss b where st: "store_ok d st rss b" "b \<le> unat (hseq (pgroup p))" "holds rss sent"
    by (auto simp: pub_ok_def)
  have rep: "rep d st rss" using st(1) by (simp add: store_ok_def)
  have "on_disk d (whole_files st rss) b" by (rule store_on_disk [OF st(1)])
  moreover have "holds (map (fst \<circ> snd) (whole_files st rss)) sent"
    unfolding whole_files_simps [OF rep] by (rule st(3))
  ultimately show ?thesis using assms st(2) unfolding down_ok_def pub_ok_def
    by (intro exI [of _ "whole_files st rss"] exI [of _ b]) auto
qed

lemma room_None: "room d = None \<Longrightarrow> d\<lparr>room := None\<rparr> = d"
  by (cases d) simp

lemma pub_room: "pub_ok file d p sent \<Longrightarrow> d\<lparr>room := None\<rparr> = d"
  by (rule room_None) (auto simp: pub_ok_def store_ok_def)

lemma load_room [simp]: "load_group_seq (d\<lparr>room := r\<rparr>) f = load_group_seq d f"
  by (cases f) (simp_all add: load_group_seq_def read_to_string_def)

text \<open>An append touches segment files only.\<close>

lemma append_leaves:
  assumes "store_ok d st rss b" "b \<le> unat seq"
    and ap: "append_group seq ms frames (d\<lparr>room := r\<rparr>) st = ((d', st'), res)"
  shows "granted d' = granted d" and "\<not> is_segment_file q \<Longrightarrow> map_of (files d') q = map_of (files d) q"
proof -
  let ?d = "d\<lparr>room := r\<rparr>"
  note o = assms(1) [unfolded store_ok_def]
  have rep: "rep ?d st rss" using o by simp
  have fresh: "rotate_due st \<longrightarrow> fresh_name seq ?d"
    using named_fresh [of b _ d seq] o assms(2) by (auto simp: fresh_name_def)
  from ensure_writer_rep [OF rep _ fresh] o obtain d1 st1 where
    e: "ensure_writer seq ?d st = ((d1, st1), Inr ())"
      "files d1 = (if rotate_due st then AList.update (segment_name seq) [] (files ?d) else files ?d)"
      "granted d1" by auto
  from store_ready [OF assms(1,2) refl, of r] e(1) have rd: "ready seq d1 st1 (rss_ready (rotate_due st) rss)" by auto
  then have "writer_ready d1 st1 (rss_ready (rotate_due st) rss)" by (simp add: ready_def)
  note ar = append_ready [OF e(1) this, of ms frames]
  let ?p = "spath (last (segments st1))"
  have d': "d' = written d1 ?p (record_bytes seq ms frames)" using ar ap by (auto split: if_splits)
  have "segments st1 \<noteq> []" "lists d1 (map spath (segments st1))" using rd by (simp_all add: ready_def writer_ready_def)
  then have "is_segment_file ?p" unfolding lists_def by force
  moreover have "is_segment_file (segment_name seq)" by simp
  ultimately show "\<not> is_segment_file q \<Longrightarrow> map_of (files d') q = map_of (files d) q"
    unfolding d' by (auto simp: written_def update_conv e(2))
  show "granted d' = granted d" using e(3) o by (simp add: d' written_def)
qed

text \<open>Storing the group in progress, then dying: the directory is consistent whether the append
  went through or was cut off.\<close>

lemma append_down:
  assumes p: "pub_ok file d p sent" "pstore p = Some st"
    and gf: "good_file file"
    and sole: "r \<noteq> None \<Longrightarrow> rotate_due st \<longrightarrow> segments st = []"
    and ap: "append_group (hseq (pgroup p)) ms (sent (hseq (pgroup p))) (d\<lparr>room := r\<rparr>) st = ((d', st'), res)"
    and rec: "rec_ok True (hseq (pgroup p), ms, sent (hseq (pgroup p)))"
  shows "down_ok file (d'\<lparr>room := None\<rparr>) sent"
proof -
  let ?s = "hseq (pgroup p)"
  from p obtain rss b where st: "store_ok d st rss b" "b \<le> unat ?s" "holds rss sent"
    by (auto simp: pub_ok_def)
  have "\<exists>fs. on_disk (d'\<lparr>room := None\<rparr>) fs (Suc (unat ?s)) \<and> holds (map (fst \<circ> snd) fs) sent"
  proof (cases res)
    case (Inl e)
    have "d\<lparr>room := None\<rparr> = d" by (rule room_None) (use st(1) in \<open>simp add: store_ok_def\<close>)
    then obtain k where r: "r = Some k" using append_ok [OF st(1,2) rec] ap Inl by (cases r) auto
    from crash_ok [OF st(1,2) rec ap [unfolded Inl r]] sole r obtain fs where
      "on_disk (d'\<lparr>room := None\<rparr>) fs (Suc (unat ?s))" "concat (map (fst \<circ> snd) fs) = concat rss" by blast
    then show ?thesis using st(3) holds_concat by blast
  next
    case (Inr u)
    from append_fits [OF st(1,2) rec, of r d' st'] ap Inr obtain rss' where
      s': "store_ok (d'\<lparr>room := None\<rparr>) st' rss' (Suc (unat ?s))"
        "concat rss' = concat rss @ [(?s, ms, sent ?s)]" by auto
    then have rep: "rep (d'\<lparr>room := None\<rparr>) st' rss'" unfolding store_ok_def by blast
    have "holds (map (fst \<circ> snd) (whole_files st' rss')) sent"
      unfolding whole_files_simps [OF rep] by (rule holds_snoc [OF st(3) s'(2)])
    then show ?thesis using store_on_disk [OF s'(1)] by blast
  qed
  then obtain fs where fs: "on_disk (d'\<lparr>room := None\<rparr>) fs (Suc (unat ?s))" "holds (map (fst \<circ> snd) fs) sent" by blast
  have "load_group_seq d' (Some file) = load_group_seq d (Some file)"
  proof (rule load_group_seq_cong)
    show "granted d' = granted d" "map_of (files d') file = map_of (files d) file"
      using append_leaves [OF st(1,2) ap] gf by (simp_all add: good_file_def)
  qed
  then have "load_group_seq d' (Some file) = Some ?s" using p(1) by (simp add: pub_ok_def)
  then show ?thesis using fs p(1) unfolding down_ok_def pub_ok_def
    by (intro exI [of _ fs] exI [of _ "Suc (unat ?s)"]) auto
qed

text \<open>Writing the sequence file forward, or being cut off while doing so.\<close>

lemma down_persist:
  assumes "down_ok file (d\<lparr>room := None\<rparr>) sent" "good_file file"
    and "case load_group_seq d (Some file) of None \<Rightarrow> True | Some f \<Rightarrow> f \<le> f'"
  shows "down_ok file ((persist_group_seq (Some file) f' d)\<lparr>room := None\<rparr>) sent"
proof -
  let ?d = "persist_group_seq (Some file) f' d"
  from assms(1) obtain fs b where fs: "on_disk (d\<lparr>room := None\<rparr>) fs b" "holds (map (fst \<circ> snd) fs) sent"
    and old: "case load_group_seq d (Some file) of
           None \<Rightarrow> b = 0 \<and> (\<forall>q. sent q = [])
         | Some f \<Rightarrow> b \<le> Suc (unat f) \<and> (\<forall>q. sent q \<noteq> [] \<longrightarrow> q \<le> f)"
    by (auto simp: down_ok_def)
  have g: "granted d" using fs(1) by (simp add: on_disk_def)
  have new: "b \<le> Suc (unat f')" "sent q \<noteq> [] \<Longrightarrow> q \<le> f'" for q
    using old assms(3) by (auto split: option.splits simp: word_le_nat_alt)
  have "on_disk (?d\<lparr>room := None\<rparr>) fs b"
    by (rule on_disk_elsewhere [OF _ _ fs(1)])
      (use assms(2) persist_group_seq_elsewhere(1) [of "file" d f'] in \<open>simp_all add: good_file_def\<close>)
  moreover have "load_group_seq ?d (Some file) = Some f' \<or>
      load_group_seq ?d (Some file) = load_group_seq d (Some file)"
    using persist_group_seq_load [of "file" d f'] g assms(2) by (auto simp: good_file_def split: if_splits)
  then have "case load_group_seq ?d (Some file) of
           None \<Rightarrow> b = 0 \<and> (\<forall>q. sent q = [])
         | Some f \<Rightarrow> b \<le> Suc (unat f) \<and> (\<forall>q. sent q \<noteq> [] \<longrightarrow> q \<le> f)"
    using old new by (elim disjE) simp_all
  ultimately show ?thesis using fs(2) unfolding down_ok_def load_room by blast
qed

section \<open>Writing\<close>

lemma publish_frame:
  assumes ok: "pub_ok file d p sent" and rec: "\<And>s ms. rec_ok True (s, ms, pframes p @ [data])"
  obtains heap where "on_group (pgroup p) (write_frame data) (pheap p) = Inr heap"
    and "\<And>n. pub_ok file d (p\<lparr>pheap := heap, pframes := pframes p @ [data], pcount := n\<rparr>)
      (sent(hseq (pgroup p) := pframes p @ [data]))"
proof -
  let ?h = "pgroup p" and ?g = "pheap p ! href (pgroup p)"
  note o = ok [unfolded pub_ok_def]
  have h: "?h \<in> set (live (ptrack p))" and c: "cache_ok sent (ptrack p) (pheap p)" using o by simp_all
  have g: "group_ok (pframes p) ?g" "href ?h < length (pheap p)" using h c o by (auto simp: cache_ok_def)
  from append_frame_Inr [of ?g data] o obtain g' where g': "append_frame data ?g = Inr g'" by blast
  note a = append_frame_ok [OF g(1) g']
  let ?heap = "(pheap p)[href ?h := g']" and ?sent = "sent(hseq ?h := pframes p @ [data])"
  have w: "on_group ?h (write_frame data) (pheap p) = Inr ?heap"
    by (simp add: on_group_def write_frame_def g')
  from o obtain st rss b where st: "pstore p = Some st" "store_ok d st rss b" "b \<le> unat (hseq ?h)" "holds rss sent"
    by auto
  have "holds rss ?sent" by (rule holds_upd [OF st(4) _ st(3)]) (use st(2) in \<open>simp add: store_ok_def\<close>)
  moreover have "cache_ok ?sent (ptrack p) ?heap" by (rule cache_update [OF c h a(1)])
  ultimately have "pub_ok file d (p\<lparr>pheap := ?heap, pframes := pframes p @ [data], pcount := n\<rparr>) ?sent" for n
    using o st g(2) a rec unfolding pub_ok_def by auto
  with w show thesis by (rule that)
qed

section \<open>Rotation\<close>

text \<open>The part in memory: the group is closed and the next one, still empty, takes its place.\<close>

lemma rotate_groups:
  assumes ok: "pub_ok file d p sent" and app: "append_group_at (length (pheap p)) now (ptrack p) = Inr (h, tr)"
  obtains heap where "on_group (pgroup p) group_finish (pheap p @ [group_new]) = Inr heap"
    and "cache_ok sent tr heap" "tmax tr = Some (hseq h)" "h \<in> set (live tr)" "heap ! href h = group_new"
    and "hseq (pgroup p) < hseq h" "unat (hseq h) = Suc (unat (hseq (pgroup p)))" "sent (hseq h) = []"
proof -
  let ?o = "pgroup p" and ?heap = "pheap p @ [group_new]"
  note o = ok [unfolded pub_ok_def]
  have c: "cache_ok sent (ptrack p) (pheap p)" and live: "?o \<in> set (live (ptrack p))" using o by simp_all
  then have ref: "href ?o < length (pheap p)" "group_ok (sent (hseq ?o)) (pheap p ! href ?o)"
    by (auto simp: cache_ok_def)
  have "track_ok (ptrack p)" using c by (simp add: cache_ok_def)
  note a = append_group_push [OF this app]
  have nxt: "unat (hseq h) = Suc (unat (hseq ?o))" "hseq ?o < hseq h" using a o by simp_all
  then have fresh: "sent (hseq h) = []" using o by (metis linorder_not_less)
  have mx: "case tmax (ptrack p) of None \<Rightarrow> hseq h = hseq h | Some m \<Rightarrow> hseq h = max m (hseq h)"
    using o nxt(2) by (simp add: max.absorb2)
  have "group_ok (sent (hseq h)) group_new" by (simp add: fresh)
  note push = cache_push [OF c _ _ order_refl mx this, of now] a
  then have tr: "cache_ok sent tr ?heap" "tmax tr = Some (hseq h)" "h \<in> set (live tr)" by auto
  have sub: "set (live tr) \<subseteq> insert h (set (live (ptrack p)))" using push by auto
  have "\<not> gclosed (?heap ! href ?o)" using o ref(1) by (simp add: nth_append)
  from group_finish_Inr [OF this] obtain g where g: "group_finish (?heap ! href ?o) = Inr g" by blast
  then have gok: "group_ok (sent (hseq ?o)) g"
    using group_finish_ok [of "sent (hseq ?o)" "pheap p ! href ?o" g] ref by (simp add: nth_append)
  have "on_group ?o group_finish ?heap = Inr (?heap[href ?o := g])" by (simp add: on_group_def g)
  moreover have "cache_ok sent tr (?heap[href ?o := g])"
  proof (cases "?o \<in> set (live tr)")
    case True
    from cache_update [OF tr(1) True gok] show ?thesis by simp
  next
    case False
    have "href ?o \<noteq> href k" if "k \<in> set (live tr)" for k
    proof -
      have "k = h \<or> k \<in> set (live (ptrack p)) \<and> k \<noteq> ?o" using that sub False by auto
      moreover have "inj_on href (set (live (ptrack p)))" using c by (simp add: cache_ok_def distinct_map)
      ultimately show ?thesis using a ref(1) live by (auto dest: inj_onD)
    qed
    then show ?thesis using tr(1) by (auto simp: cache_ok_def)
  qed
  moreover have "(?heap[href ?o := g]) ! href h = group_new" using a ref(1) by (simp add: nth_append)
  ultimately show thesis using that tr nxt fresh by blast
qed

lemma persist_pub:
  assumes "store_ok d st rss b" "good_file file"
  shows "store_ok (persist_group_seq (Some file) s d) st rss b"
    and "load_group_seq (persist_group_seq (Some file) s d) (Some file) = Some s"
proof -
  have d: "room d = None" "granted d" using assms(1) by (simp_all add: store_ok_def)
  have f: "\<not> is_segment_file file" "tmp_name file \<noteq> file" using assms(2) by (simp_all add: good_file_def)
  show "store_ok (persist_group_seq (Some file) s d) st rss b"
    by (rule store_ok_elsewhere [OF persist_group_seq_elsewhere(1) [OF f(1)] persist_group_seq_elsewhere(2) [OF f(1) d(1)] assms(1)])
  show "load_group_seq (persist_group_seq (Some file) s d) (Some file) = Some s"
    using persist_group_seq_load [OF f(2) d(2), of s] d(1) by simp
qed

lemma rotate_ok:
  assumes ok: "pub_ok file d p sent" and gf: "good_file file"
    and rot: "rotate now_ms now d p = ((d', p'), res)"
  shows "pub_ok file d' p' sent" and "hseq (pgroup p) \<noteq> -1 \<Longrightarrow> res = Inr ()"
proof -
  note o = ok [unfolded pub_ok_def]
  have "pub_ok file d' p' sent \<and> (hseq (pgroup p) \<noteq> -1 \<longrightarrow> res = Inr ())"
  proof (cases "append_group_at (length (pheap p)) now (ptrack p)")
    case (Inl e)
    then have "d' = d" "p' = p" using rot by (simp_all add: rotate_def)
    moreover have "hseq (pgroup p) = -1" using Inl o
      by (auto simp: append_group_at_def track_modify_def cache_ok_def succ_u64_def is_final_def Let_def
          split: if_splits option.splits)
    ultimately show ?thesis using ok by simp
  next
    case (Inr x)
    obtain h tr where x: "x = (h, tr)" by (cases x)
    from rotate_groups [OF ok Inr [unfolded x]] obtain heap where
      fin: "on_group (pgroup p) group_finish (pheap p @ [group_new]) = Inr heap"
      and c: "cache_ok sent tr heap" "tmax tr = Some (hseq h)" "h \<in> set (live tr)" "heap ! href h = group_new"
      and nxt: "hseq (pgroup p) < hseq h" "unat (hseq h) = Suc (unat (hseq (pgroup p)))" "sent (hseq h) = []" by blast
    from o obtain st rss b where st: "pstore p = Some st" "store_ok d st rss b" "b \<le> unat (hseq (pgroup p))"
      "holds rss sent" by auto
    have rec: "rec_ok True (hseq (pgroup p), now_ms, pframes p)" using o by simp
    from append_ok [OF st(2,3) rec] obtain d1 st1 rss1 where
      ap: "append_group (hseq (pgroup p)) now_ms (pframes p) d st = ((d1, st1), Inr ())"
      and s1: "store_ok d1 st1 rss1 (Suc (unat (hseq (pgroup p))))"
        "concat rss1 = concat rss @ [(hseq (pgroup p), now_ms, sent (hseq (pgroup p)))]" using o by auto
    note per = persist_pub [OF s1(1) gf, of "hseq h"]
    have "holds rss1 sent" by (rule holds_snoc [OF st(4) s1(2)])
    moreover have "sent q \<noteq> [] \<Longrightarrow> q \<le> hseq h" for q using o nxt(1) by (metis order.strict_implies_order order_trans)
    moreover have d': "d' = persist_group_seq (Some file) (hseq h) d1" "res = Inr ()"
      and p': "pstore p' = Some st1" "pseq_file p' = Some file" "ptrack p' = tr" "pheap p' = heap" "pgroup p' = h"
        "pframes p' = []"
      using rot o by (auto simp: rotate_def Inr x fin store_finished_def st(1) ap Let_def)
    ultimately show ?thesis
      using per c nxt st unfolding pub_ok_def p' d'
      by (intro conjI exI [of _ st1] exI [of _ rss1] exI [of _ "Suc (unat (hseq (pgroup p)))"])
        (simp_all add: rec_ok_def frames_body_def)
  qed
  then show "pub_ok file d' p' sent" "hseq (pgroup p) \<noteq> -1 \<Longrightarrow> res = Inr ()" by simp_all
qed

lemma rotate_next:
  assumes ok: "pub_ok file d p sent" and rot: "rotate now_ms now d p = ((d', p'), Inr ())"
  shows "unat (hseq (pgroup p')) = Suc (unat (hseq (pgroup p))) \<and> pframes p' = [] \<and> pcount p' = 0"
proof -
  note o = ok [unfolded pub_ok_def]
  from rot obtain h tr where app: "append_group_at (length (pheap p)) now (ptrack p) = Inr (h, tr)"
    by (cases "append_group_at (length (pheap p)) now (ptrack p)") (auto simp: rotate_def)
  from rotate_groups [OF ok app] obtain heap where
    fin: "on_group (pgroup p) group_finish (pheap p @ [group_new]) = Inr heap"
    and nxt: "unat (hseq h) = Suc (unat (hseq (pgroup p)))" by blast
  from o obtain st where st: "pstore p = Some st" by blast
  show ?thesis using rot nxt by (auto simp: rotate_def app fin store_finished_def st Let_def split: prod.splits)
qed

lemma rotate_crash:
  assumes ok: "pub_ok file d p sent" and gf: "good_file file"
    and rot: "rotate now_ms now (d\<lparr>room := r\<rparr>) p = ((d', p'), res)"
    and sole: "\<And>st. pstore p = Some st \<Longrightarrow> rotate_due st \<longrightarrow> segments st = []"
  shows "down_ok file (d'\<lparr>room := None\<rparr>) sent"
proof -
  note o = ok [unfolded pub_ok_def]
  from o obtain st rss b where st: "pstore p = Some st" "store_ok d st rss b" "b \<le> unat (hseq (pgroup p))" by auto
  have "d\<lparr>room := None\<rparr> = d" by (rule room_None) (use st(2) in \<open>simp add: store_ok_def\<close>)
  show ?thesis
  proof (cases "append_group_at (length (pheap p)) now (ptrack p)")
    case (Inl e)
    then have "d' = d\<lparr>room := r\<rparr>" using rot by (simp add: rotate_def)
    then show ?thesis using pub_down [OF ok] \<open>d\<lparr>room := None\<rparr> = d\<close> by simp
  next
    case (Inr x)
    obtain h tr where x: "x = (h, tr)" by (cases x)
    from rotate_groups [OF ok Inr [unfolded x]] obtain heap where
      fin: "on_group (pgroup p) group_finish (pheap p @ [group_new]) = Inr heap"
      and nxt: "hseq (pgroup p) < hseq h" by blast
    obtain d1 st1 res1 where
      ap: "append_group (hseq (pgroup p)) now_ms (pframes p) (d\<lparr>room := r\<rparr>) st = ((d1, st1), res1)"
      by (cases "append_group (hseq (pgroup p)) now_ms (pframes p) (d\<lparr>room := r\<rparr>) st") auto
    have s: "sent (hseq (pgroup p)) = pframes p" using o by simp
    have down: "down_ok file (d1\<lparr>room := None\<rparr>) sent"
      by (rule append_down [OF ok st(1) gf sole [OF st(1)], of now_ms r]) (use ap o in \<open>simp_all add: s\<close>)
    have "load_group_seq d1 (Some file) = Some (hseq (pgroup p))"
      using append_leaves [OF st(2,3) ap] gf o load_group_seq_cong [of d1 d "file"] by (simp add: good_file_def)
    then have "down_ok file ((persist_group_seq (Some file) (hseq h) d1)\<lparr>room := None\<rparr>) sent"
      using nxt by (intro down_persist [OF down gf]) simp
    moreover have "d' = persist_group_seq (Some file) (hseq h) d1"
      using rot o by (auto simp: rotate_def Inr x fin store_finished_def st(1) ap Let_def)
    ultimately show ?thesis by simp
  qed
qed

section \<open>Whole operations\<close>

definition published :: "publisher \<Rightarrow> bytes \<Rightarrow> history \<Rightarrow> history" where
  "published p data sent = sent(hseq (pgroup p) := sent (hseq (pgroup p)) @ [data])"

lemma publish_cases:
  assumes ok: "pub_ok file d p sent" and rec: "\<And>s ms. rec_ok True (s, ms, pframes p @ [data])"
  obtains p1 where "pub_ok file d p1 (published p data sent)" "pstore p1 = pstore p" "pgroup p1 = pgroup p"
    and "pframes p1 = pframes p @ [data]" "pcount p1 = pcount p + 1"
    and "\<And>r. publish data n now_ms now (d\<lparr>room := r\<rparr>) p =
      (if n \<le> pcount p + 1 then rotate now_ms now (d\<lparr>room := r\<rparr>) p1 else ((d\<lparr>room := r\<rparr>, p1), Inr ()))"
    and "publish data n now_ms now d p = (if n \<le> pcount p + 1 then rotate now_ms now d p1 else ((d, p1), Inr ()))"
proof -
  from publish_frame [OF ok rec] obtain heap where
    w: "on_group (pgroup p) (write_frame data) (pheap p) = Inr heap"
    and p1: "\<And>n. pub_ok file d (p\<lparr>pheap := heap, pframes := pframes p @ [data], pcount := n\<rparr>)
      (sent(hseq (pgroup p) := pframes p @ [data]))" by blast
  have "pstore p \<noteq> None" and s: "sent (hseq (pgroup p)) = pframes p" using ok by (auto simp: pub_ok_def)
  then show thesis using p1 [of "pcount p + 1"]
    by (intro that [of "p\<lparr>pheap := heap, pframes := pframes p @ [data], pcount := pcount p + 1\<rparr>"])
      (simp_all add: publish_def w published_def Let_def)
qed

lemma publish_ok:
  assumes "pub_ok file d p sent" "good_file file" "\<And>s ms. rec_ok True (s, ms, pframes p @ [data])"
    and "publish data n now_ms now d p = ((d', p'), res)"
  shows "pub_ok file d' p' (published p data sent)" and "hseq (pgroup p) \<noteq> -1 \<Longrightarrow> res = Inr ()"
proof -
  from publish_cases [OF assms(1,3), of n now_ms now] obtain p1 where
    p1: "pub_ok file d p1 (published p data sent)" "pgroup p1 = pgroup p"
    and "publish data n now_ms now d p = (if n \<le> pcount p + 1 then rotate now_ms now d p1 else ((d, p1), Inr ()))"
    by metis
  then have "rotate now_ms now d p1 = ((d', p'), res) \<or> (d', p', res) = (d, p1, Inr ())"
    using assms(4) by (auto split: if_splits)
  then show "pub_ok file d' p' (published p data sent)" "hseq (pgroup p) \<noteq> -1 \<Longrightarrow> res = Inr ()"
    using rotate_ok [OF p1(1) assms(2)] p1 by auto
qed

lemma publish_outcome:
  assumes ok: "pub_ok file d p sent" and gf: "good_file file" and rec: "\<And>s ms. rec_ok True (s, ms, pframes p @ [data])"
    and run: "publish data n now_ms now d p = ((d', p'), res)"
  shows "res = Inr () \<Longrightarrow>
    (if n \<le> pcount p + 1
     then unat (hseq (pgroup p')) = Suc (unat (hseq (pgroup p))) \<and> pframes p' = [] \<and> pcount p' = 0
     else pgroup p' = pgroup p \<and> pframes p' = pframes p @ [data] \<and> pcount p' = pcount p + 1 \<and> d' = d)"
    and "res \<noteq> Inr () \<Longrightarrow> pgroup p' = pgroup p \<and> hseq (pgroup p) = -1"
proof -
  from publish_cases [OF ok rec, of n now_ms now] obtain p1 where
    p1: "pub_ok file d p1 (published p data sent)" "pgroup p1 = pgroup p"
      "pframes p1 = pframes p @ [data]" "pcount p1 = pcount p + 1"
    and run1: "publish data n now_ms now d p =
      (if n \<le> pcount p + 1 then rotate now_ms now d p1 else ((d, p1), Inr ()))" by metis
  show "res = Inr () \<Longrightarrow>
    (if n \<le> pcount p + 1
     then unat (hseq (pgroup p')) = Suc (unat (hseq (pgroup p))) \<and> pframes p' = [] \<and> pcount p' = 0
     else pgroup p' = pgroup p \<and> pframes p' = pframes p @ [data] \<and> pcount p' = pcount p + 1 \<and> d' = d)"
    using rotate_next [OF p1(1), of now_ms now d' p'] run run1 p1 by (auto split: if_splits)
  assume res: "res \<noteq> Inr ()"
  then have rot: "rotate now_ms now d p1 = ((d', p'), res)" using run run1 by (auto split: if_splits)
  have "hseq (pgroup p1) = -1" using rotate_ok(2) [OF p1(1) gf rot] res by blast
  then have "append_group_at (length (pheap p1)) now (ptrack p1) = Inl BoundsExceeded"
    using p1(1) by (simp add: pub_ok_def append_group_at_def track_modify_def cache_ok_def succ_u64_def)
  then show "pgroup p' = pgroup p \<and> hseq (pgroup p) = -1"
    using rot p1(2) \<open>hseq (pgroup p1) = -1\<close> by (simp add: rotate_def)
qed

lemma publish_crash:
  assumes "pub_ok file d p sent" "good_file file" "\<And>s ms. rec_ok True (s, ms, pframes p @ [data])"
    and "publish data n now_ms now (d\<lparr>room := r\<rparr>) p = ((d', p'), res)"
    and "\<And>st. pstore p = Some st \<Longrightarrow> rotate_due st \<longrightarrow> segments st = []"
  shows "down_ok file (d'\<lparr>room := None\<rparr>) (published p data sent)"
proof -
  from publish_cases [OF assms(1,3), of n now_ms now] obtain p1 where
    p1: "pub_ok file d p1 (published p data sent)" "pstore p1 = pstore p"
    and run: "publish data n now_ms now (d\<lparr>room := r\<rparr>) p =
      (if n \<le> pcount p + 1 then rotate now_ms now (d\<lparr>room := r\<rparr>) p1 else ((d\<lparr>room := r\<rparr>, p1), Inr ()))"
    by metis
  show ?thesis
  proof (cases "n \<le> pcount p + 1")
    case True
    then have "rotate now_ms now (d\<lparr>room := r\<rparr>) p1 = ((d', p'), res)" using run assms(4) by simp
    then show ?thesis by (rule rotate_crash [OF p1(1) assms(2)]) (use assms(5) p1(2) in simp)
  next
    case False
    have "room d = None" using assms(1) by (auto simp: pub_ok_def store_ok_def)
    then show ?thesis using pub_down [OF p1(1)] run assms(4) False by (auto simp: room_None)
  qed
qed

lemma map_of_filter_key: "P k \<Longrightarrow> map_of (filter (\<lambda>f. P (fst f)) xs) k = map_of xs k"
  by (induction xs) auto

lemma gc_leaves:
  assumes "store_ok d st rss b" "gc cutoff_ms mb d st = (d', st', n)" "\<not> is_segment_file q"
  shows "granted d' = granted d \<and> map_of (files d') q = map_of (files d) q"
proof -
  note o = assms(1) [unfolded store_ok_def]
  obtain segs' idx' n' where g: "gc_loop cutoff_ms mb (total_bytes st) d (segments st) (index st) = (d', segs', idx', n')"
    using assms(2) by (auto simp: gc_def split: prod.splits)
  have "length (segments st) = length rss" by (rule rep_length) (use o in blast)
  from gc_loop_rep [OF this, of d "index st" cutoff_ms mb "total_bytes st"] o g obtain k where
    gr: "granted d' = granted d" and f: "files d' = filter (\<lambda>f. fst f \<notin> spath ` set (take k (segments st))) (files d)"
    unfolding rep_def by auto
  have "q \<notin> spath ` set (take k (segments st))"
  proof
    assume "q \<in> spath ` set (take k (segments st))"
    then have "q \<in> set (map spath (segments st))" using set_take_subset by fastforce
    then show False using o assms(3) by (auto simp: lists_def)
  qed
  then show ?thesis using gr f map_of_filter_key [of "\<lambda>p. p \<notin> spath ` set (take k (segments st))" q] by simp
qed

lemma publisher_gc_ok:
  assumes ok: "pub_ok file d p sent" and gf: "good_file file"
    and run: "publisher_gc now_ms w mb d p = (d', p')"
  shows "pub_ok file d' p' sent" and "pgroup p' = pgroup p"
proof -
  note o = ok [unfolded pub_ok_def]
  from o obtain st rss b where st: "pstore p = Some st" "store_ok d st rss b" "b \<le> unat (hseq (pgroup p))"
    "holds rss sent" by auto
  have "\<exists>st' rss'. pstore p' = Some st' \<and> store_ok d' st' rss' b \<and> holds rss' sent \<and>
      load_group_seq d' (Some file) = load_group_seq d (Some file)"
  proof (cases "0 < w \<or> 0 < mb")
    case True
    let ?limit = "if 0 < w then cutoff now_ms w else 0"
    from gc_ok [OF st(2), of ?limit "unat mb"] obtain d1 st1 n where
      g: "gc ?limit (unat mb) d st = (d1, st1, n)" "store_ok d1 st1 (drop n rss) b"
        "\<And>k. contents (drop n rss) k =
          (if segments st1 \<noteq> [] \<and> sfirst (hd (segments st1)) \<le> k then contents rss k else None)" by blast
    have "holds (drop n rss) sent" using st(4) g(3) by (simp add: holds_def)
    moreover have "load_group_seq d1 (Some file) = load_group_seq d (Some file)"
      using gc_leaves [OF st(2) g(1), of "file"] gf load_group_seq_cong [of d1 d "file"]
      by (auto simp: good_file_def)
    moreover have "d' = d1" "pstore p' = Some st1" using run g(1) True by (auto simp: publisher_gc_def st(1) Let_def)
    ultimately show ?thesis using g(2) by blast
  next
    case False
    then have "d' = d" "pstore p' = Some st" using run by (auto simp: publisher_gc_def st(1) Let_def)
    then show ?thesis using st by blast
  qed
  moreover have same: "pseq_file p' = pseq_file p" "ptrack p' = ptrack p" "pheap p' = pheap p" "pgroup p' = pgroup p"
    "pframes p' = pframes p"
    using run by (auto simp: publisher_gc_def st(1) Let_def split: prod.splits)
  ultimately show "pub_ok file d' p' sent" using o st(3) unfolding pub_ok_def same by metis
  show "pgroup p' = pgroup p" by (rule same(4))
qed

lemma publisher_finish_down:
  assumes ok: "pub_ok file d p sent" and gf: "good_file file"
    and run: "publisher_finish now_ms d p = (d', res)"
  shows "down_ok file d' sent"
    and "\<exists>fs b. on_disk d' fs b \<and> (pframes p \<noteq> [] \<longrightarrow>
      contents (map (fst \<circ> snd) fs) (hseq (pgroup p)) = Some (pframes p))"
proof -
  note o = ok [unfolded pub_ok_def]
  from o obtain st rss b where st: "pstore p = Some st" "store_ok d st rss b" "b \<le> unat (hseq (pgroup p))" by auto
  have rec: "rec_ok True (hseq (pgroup p), now_ms, pframes p)" and s: "sent (hseq (pgroup p)) = pframes p" using o by simp_all
  have room: "d\<lparr>room := None\<rparr> = d" by (rule room_None) (use st(2) in \<open>simp add: store_ok_def\<close>)
  have "down_ok file d' sent \<and> (\<exists>fs b. on_disk d' fs b \<and> (pframes p \<noteq> [] \<longrightarrow>
      contents (map (fst \<circ> snd) fs) (hseq (pgroup p)) = Some (pframes p)))"
  proof (cases "pframes p = []")
    case True
    then have "d' = d" using run by (auto simp: publisher_finish_def st(1) Let_def)
    then show ?thesis using pub_down [OF ok] True store_on_disk [OF st(2)] by blast
  next
    case False
    from append_ok [OF st(2,3) rec] obtain d1 st1 rss1 where
      ap: "append_group (hseq (pgroup p)) now_ms (pframes p) d st = ((d1, st1), Inr ())"
      and s1: "store_ok d1 st1 rss1 (Suc (unat (hseq (pgroup p))))"
        "concat rss1 = concat rss @ [(hseq (pgroup p), now_ms, pframes p)]" by blast
    have d': "d' = d1" using run False by (auto simp: publisher_finish_def st(1) ap Let_def)
    have room1: "d1\<lparr>room := None\<rparr> = d1" by (rule room_None) (use s1(1) in \<open>simp add: store_ok_def\<close>)
    have "down_ok file (d1\<lparr>room := None\<rparr>) sent"
      by (rule append_down [OF ok st(1) gf, of None now_ms]) (use ap rec in \<open>simp_all add: s room\<close>)
    moreover have "rep d1 st1 rss1" using s1(1) by (simp add: store_ok_def)
    then have "contents (map (fst \<circ> snd) (whole_files st1 rss1)) (hseq (pgroup p)) = Some (pframes p)"
      using s1(2) by (simp add: contents_def)
    ultimately show ?thesis using store_on_disk [OF s1(1)] d' room1 by auto
  qed
  then show "down_ok file d' sent" "\<exists>fs b. on_disk d' fs b \<and> (pframes p \<noteq> [] \<longrightarrow>
      contents (map (fst \<circ> snd) fs) (hseq (pgroup p)) = Some (pframes p))" by blast+
qed

section \<open>Starting\<close>

lemma fold_truncated_room: "fold truncated fs (d\<lparr>room := r\<rparr>) = (fold truncated fs d)\<lparr>room := r\<rparr>"
proof (induction fs arbitrary: d)
  case (Cons f fs)
  have "truncated f (d\<lparr>room := r\<rparr>) = (truncated f d)\<lparr>room := r\<rparr>" by (cases f) (simp add: truncated_def)
  then show ?case using Cons by simp
qed simp

lemma open_store_ok:
  assumes od: "on_disk d fs b"
  obtains d2 st where "\<And>r. open_store (d\<lparr>room := r\<rparr>) = (d2\<lparr>room := r\<rparr>, Inr st)" "open_store d = (d2, Inr st)"
    and "store_ok d2 st (map (fst \<circ> snd) fs) b" "max_seq st = max_of None (concat (map (fst \<circ> snd) fs))"
    and "\<And>q. \<not> is_segment_file q \<Longrightarrow> map_of (files d2) q = map_of (files d) q" "granted d2 = granted d" "room d2 = None"
proof -
  let ?d = "fold truncated fs d" and ?st = "opened SEGMENT_TARGET_BYTES fs"
  note o = od [unfolded on_disk_def]
  have "file_rep (d\<lparr>room := r\<rparr>) f = file_rep d f" for r f by (cases f) (simp add: file_rep_def)
  then have "dir_rep (d\<lparr>room := r\<rparr>) fs" for r
    using o listing_sorted [of b "map fst fs" "d\<lparr>room := r\<rparr>"] named_distinct [of b "map fst fs"]
    by (simp add: dir_rep_def)
  from open_rep(1) [OF this] have "open_store (d\<lparr>room := r\<rparr>) = (?d\<lparr>room := r\<rparr>, Inr ?st)" for r
    by (simp add: open_store_def fold_truncated_room)
  moreover have "map_of (files ?d) q = map_of (files d) q" if "\<not> is_segment_file q" for q
  proof -
    have "q \<notin> set (map fst fs)" using o that by (auto simp: lists_def)
    then have "map_of fs q = None" by (simp add: map_of_eq_None_iff)
    then show ?thesis using map_of_truncates [of fs d q] o named_distinct [of b "map fst fs"] by simp
  qed
  ultimately show thesis
    using open_ok [OF od, of SEGMENT_TARGET_BYTES] o
    by (intro that [of ?d ?st]) (simp_all add: open_store_def opened_def)
qed

lemma groups_since_stored:
  assumes "rep d st rss" "granted d"
  shows "distinct (groups_since st c)"
    and "s \<in> set (groups_since st c) \<Longrightarrow> \<exists>fs. contents rss s = Some fs \<and> read d st s = Inr (Some fs)"
proof -
  have i: "index st = index_of [] (place_all 0 (segments st) rss)" using assms by (simp add: rep_def)
  have "om_ok (index st)" unfolding i by simp
  note d = om_distinct [OF this]
  then show "distinct (groups_since st c)" unfolding groups_since_def by (rule distinct_map_filter)
  assume "s \<in> set (groups_since st c)"
  then obtain loc where "om_get (index st) s = Some loc" using d by (force simp: groups_since_def om_get_def)
  then have "contents rss s \<noteq> None"
    unfolding i om_get_index_of contents_def lookup_placed [OF rep_length [OF assms(1)], of s 0]
    by (auto split: option.splits)
  then show "\<exists>fs. contents rss s = Some fs \<and> read d st s = Inr (Some fs)" using rep_read [OF assms, of s] by auto
qed

lemma cache_new: "apply_replay_window secs track_new = Inr tr \<Longrightarrow> cache_ok sent tr [] \<and> tmax tr = None \<and> live tr = []"
  by (auto simp: apply_replay_window_def set_max_group_age_def track_modify_def cache_ok_def track_ok_def
      live_live_of track_new_def split: if_splits)

lemma reload_window_ok:
  assumes "rep d st rss" "granted d" "holds rss sent"
    and lim: "\<And>s fs. contents rss s = Some fs \<Longrightarrow> s < lim"
    and new: "cache_ok sent tr []" "tmax tr = None" "live tr = []"
  obtains tr' heap where "reload_window now_ms rnow w d st tr [] = Inr (tr', heap)" "cache_ok sent tr' heap"
    and "\<forall>h \<in> set (live tr'). hseq h < lim" "\<forall>s. tmax tr' = Some s \<longrightarrow> s < lim"
    and "contents rss = Map.empty \<longrightarrow> tmax tr' = None"
proof (cases "w = 0")
  case True
  then show thesis using new by (intro that [of tr "[]"]) (simp_all add: reload_window_def)
next
  case False
  let ?seqs = "groups_since st (cutoff now_ms w)"
  note g = groups_since_stored [OF assms(1,2)]
  have r: "read d st s = Inr (Some (sent s))" "s < lim" if "s \<in> set ?seqs" for s
    using g(2) [OF that] assms(3) lim by (auto simp: holds_def)
  have empty: "contents rss = Map.empty \<Longrightarrow> ?seqs = []" using g(2) [where c = "cutoff now_ms w"]
    by (metis list.set_intros(1) neq_Nil_conv option.distinct(1))
  from reload_groups_ok [OF new(1) g(1), of "cutoff now_ms w" d st lim rnow] new r obtain tr' heap' where
    *: "reload_groups rnow ?seqs d st tr [] = Inr (tr', heap')" "cache_ok sent tr' heap'"
      "\<forall>h \<in> set (live tr'). hseq h \<in> set ?seqs" "\<forall>s. tmax tr' = Some s \<longrightarrow> s < lim"
      "?seqs = [] \<longrightarrow> tmax tr' = None" by auto
  then show thesis using that False r(2) empty by (simp add: reload_window_def)
qed

text \<open>The first group of a run: its number is new, and it is the highest of the track.\<close>

lemma first_group_ok:
  assumes c: "cache_ok sent tr heap" and live: "\<forall>h \<in> set (live tr). hseq h < s" "\<forall>m. tmax tr = Some m \<longrightarrow> m < s"
    and seed: "case seed of Some prev \<Rightarrow> s = prev + 1 | None \<Rightarrow> s = 0 \<and> tmax tr = None" and new: "sent s = []"
  obtains tr' where "\<And>d. make_first_group (length heap) now seed f d tr =
      (persist_group_seq f s d, Inr (\<lparr>href = length heap, hseq = s\<rparr>, tr'))"
    and "cache_ok sent tr' (heap @ [group_new])" "tmax tr' = Some s" "\<lparr>href = length heap, hseq = s\<rparr> \<in> set (live tr')"
proof -
  let ?h = "\<lparr>href = length heap, hseq = s\<rparr>" and ?tr = "push_group \<lparr>href = length heap, hseq = s\<rparr> now s tr"
  have ok: "track_ok tr" "\<not> tclosed tr" "tfinal tr = None" using c by (simp_all add: cache_ok_def)
  have fresh: "s \<notin> tduplicates tr" using ok(1) live(1) by (auto simp: track_ok_def)
  have mx: "case tmax tr of None \<Rightarrow> s = hseq ?h | Some m \<Rightarrow> s = max m (hseq ?h)"
    using live(2) by (cases "tmax tr") (auto simp: max.absorb2)
  have "group_ok (sent (hseq ?h)) group_new" by (simp add: new)
  note p = cache_push [OF c _ _ _ mx this, of now, simplified, OF fresh]
  have "make_first_group (length heap) now seed f d tr = (persist_group_seq f s d, Inr (?h, ?tr))" for d
  proof (cases seed)
    case (Some prev)
    have "max (case tmax tr of None \<Rightarrow> 0 | Some m \<Rightarrow> m) s = s"
      using live(2) by (cases "tmax tr") (auto simp: max.absorb2)
    then show ?thesis using Some seed ok fresh
      by (simp add: make_first_group_def create_group_def track_modify_def is_final_def moq_def Let_def)
  next
    case None
    then show ?thesis using seed ok
      by (simp add: make_first_group_def append_group_at_def track_modify_def is_final_def moq_def Let_def)
  qed
  then show thesis using p by (intro that [of ?tr]) auto
qed

lemma reload_room:
  "reload_window now_ms rnow w (d\<lparr>room := r\<rparr>) st tr heap = reload_window now_ms rnow w d st tr heap"
proof -
  have "read_group_at (d\<lparr>room := r\<rparr>) loc q = read_group_at d loc q" for loc q
    by (simp add: read_group_at_def)
  then have "read (d\<lparr>room := r\<rparr>) st q = read d st q" for q
    by (simp add: read_def cong: option.case_cong)
  then have "reload_groups rnow seqs (d\<lparr>room := r\<rparr>) st tr heap = reload_groups rnow seqs d st tr heap" for seqs
    by (induction seqs arbitrary: tr heap)
      (auto simp: bind_res_def split: sum.splits option.splits)
  then show ?thesis by (simp add: reload_window_def)
qed

text \<open>The first number of a run, one above the number in the file: above all that was sent, all that is
  stored, and what the seed makes of the two.\<close>

lemma first_number:
  fixes file_seq :: "u64 option"
  assumes "case file_seq of None \<Rightarrow> b = 0 \<and> (\<forall>q. sent q = [])
      | Some f \<Rightarrow> b \<le> Suc (unat f) \<and> (\<forall>q. sent q \<noteq> [] \<longrightarrow> q \<le> f)"
    and "file_seq \<noteq> Some (-1)" "s = (case file_seq of None \<Rightarrow> 0 | Some f \<Rightarrow> f + 1)"
  shows "b \<le> unat s" "\<And>q. sent q \<noteq> [] \<Longrightarrow> q < s" "case file_seq of None \<Rightarrow> True | Some f \<Rightarrow> f \<le> s"
    and "(\<And>mx. newest = Some mx \<Longrightarrow> unat mx < b) \<Longrightarrow>
      case seed_of file_seq newest of Some prev \<Rightarrow> s = prev + 1 | None \<Rightarrow> s = 0"
proof -
  have "unat (f + 1) = Suc (unat f)" if "file_seq = Some f" for f
    using assms(2) that by (metis add.commute add_eq_0_iff unatSuc)
  then show "b \<le> unat s" "\<And>q. sent q \<noteq> [] \<Longrightarrow> q < s" "case file_seq of None \<Rightarrow> True | Some f \<Rightarrow> f \<le> s"
    using assms(1,3) by (auto simp: word_less_nat_alt word_le_nat_alt le_imp_less_Suc split: option.splits)
  assume max: "\<And>mx. newest = Some mx \<Longrightarrow> unat mx < b"
  show "case seed_of file_seq newest of Some prev \<Rightarrow> s = prev + 1 | None \<Rightarrow> s = 0"
  proof (cases file_seq)
    case None
    then have "newest = None" using assms(1) max by (cases newest) auto
    then show ?thesis using None assms(3) by (simp add: seed_of_def)
  next
    case (Some f)
    then have "newest = Some mx \<Longrightarrow> mx \<le> f" for mx using assms(1) max by (fastforce simp: word_le_nat_alt)
    then show ?thesis using Some assms(3) by (cases newest) (simp_all add: seed_of_def max.absorb1)
  qed
qed

text \<open>Opening the store of a directory a life has left.\<close>

lemma opened_down:
  assumes "down_ok file d sent" "good_file file"
  obtains d2 st rss b where
    "\<And>r. open_store (d\<lparr>room := r\<rparr>) = (d2\<lparr>room := r\<rparr>, Inr st)" "d\<lparr>room := None\<rparr> = d" "room d2 = None"
    and "store_ok d2 st rss b" "max_seq st = max_of None (concat rss)" "holds rss sent"
    and "case load_group_seq d (Some file) of
           None \<Rightarrow> b = 0 \<and> (\<forall>q. sent q = [])
         | Some f \<Rightarrow> b \<le> Suc (unat f) \<and> (\<forall>q. sent q \<noteq> [] \<longrightarrow> q \<le> f)"
    and "load_group_seq d2 (Some file) = load_group_seq d (Some file)" "down_ok file d2 sent"
proof -
  from assms(1) obtain fs b where fs: "on_disk d fs b" "holds (map (fst \<circ> snd) fs) sent"
    and old: "case load_group_seq d (Some file) of
           None \<Rightarrow> b = 0 \<and> (\<forall>q. sent q = [])
         | Some f \<Rightarrow> b \<le> Suc (unat f) \<and> (\<forall>q. sent q \<noteq> [] \<longrightarrow> q \<le> f)"
    by (auto simp: down_ok_def)
  let ?rss = "map (fst \<circ> snd) fs"
  from open_store_ok [OF fs(1)] obtain d2 st where
    op: "\<And>r. open_store (d\<lparr>room := r\<rparr>) = (d2\<lparr>room := r\<rparr>, Inr st)"
    and st: "store_ok d2 st ?rss b" "max_seq st = max_of None (concat ?rss)"
    and d2: "\<And>q. \<not> is_segment_file q \<Longrightarrow> map_of (files d2) q = map_of (files d) q" "granted d2 = granted d" "room d2 = None"
    by metis
  have load: "load_group_seq d2 (Some file) = load_group_seq d (Some file)"
    by (rule load_group_seq_cong) (use d2 assms(2) in \<open>simp_all add: good_file_def\<close>)
  have rep: "rep d2 st ?rss" using st(1) by (simp add: store_ok_def)
  have "on_disk d2 (whole_files st ?rss) b" by (rule store_on_disk [OF st(1)])
  moreover have "holds (map (fst \<circ> snd) (whole_files st ?rss)) sent"
    unfolding whole_files_simps [OF rep] by (rule fs(2))
  ultimately have down2: "down_ok file d2 sent" using old unfolding down_ok_def load by blast
  have "d\<lparr>room := None\<rparr> = d" using fs(1) by (simp add: room_None on_disk_def)
  from that [OF op this d2(3) st fs(2) old load down2] show thesis .
qed

text \<open>The cache a run starts with: the groups reloaded and the first one of the run.\<close>

lemma filled_cache:
  assumes "rep d st rss" "granted d" "holds rss sent" and lim: "\<And>q x. contents rss q = Some x \<Longrightarrow> q < s"
    and "apply_replay_window secs track_new = Inr tr"
    and seed: "case seed of Some prev \<Rightarrow> s = prev + 1 | None \<Rightarrow> s = 0 \<and> contents rss = Map.empty" and "sent s = []"
  obtains tr1 heap tr' where "\<And>r. reload_window now_ms rnow w (d\<lparr>room := r\<rparr>) st tr [] = Inr (tr1, heap)"
    and "set_group_source StoreSource tr1 = Inr (tr1\<lparr>tsource := Some StoreSource\<rparr>)"
    and "\<And>d. make_first_group (length heap) now seed (Some path) d (tr1\<lparr>tsource := Some StoreSource\<rparr>) =
      (persist_group_seq (Some path) s d, Inr (\<lparr>href = length heap, hseq = s\<rparr>, tr'))"
    and "cache_ok sent tr' (heap @ [group_new])" "tmax tr' = Some s" "\<lparr>href = length heap, hseq = s\<rparr> \<in> set (live tr')"
proof -
  have new: "cache_ok sent tr []" "tmax tr = None" "live tr = []" using cache_new [OF assms(5), of sent] by blast+
  obtain tr1 heap where
    rw: "reload_window now_ms rnow w d st tr [] = Inr (tr1, heap)" and c1: "cache_ok sent tr1 heap"
      "\<forall>h \<in> set (live tr1). hseq h < s" "\<forall>m. tmax tr1 = Some m \<longrightarrow> m < s" "contents rss = Map.empty \<longrightarrow> tmax tr1 = None"
    by (rule reload_window_ok [OF assms(1-3) lim new])
  let ?tr = "tr1\<lparr>tsource := Some StoreSource\<rparr>"
  have sg: "set_group_source StoreSource tr1 = Inr ?tr"
    using c1(1) by (simp add: set_group_source_def track_modify_def cache_ok_def)
  have c2: "cache_ok sent ?tr heap" by (rule cache_same_track [OF c1(1)]) simp_all
  have live2: "live ?tr = live tr1" by (simp add: live_live_of)
  have seed': "case seed of Some prev \<Rightarrow> s = prev + 1 | None \<Rightarrow> s = 0 \<and> tmax ?tr = None"
    using seed c1(4) by (cases seed) simp_all
  have rw': "reload_window now_ms rnow w (d\<lparr>room := r\<rparr>) st tr [] = Inr (tr1, heap)" for r
    using rw reload_room by metis
  from first_group_ok [OF c2 _ _ seed' assms(7), where f = "Some path" and now = now] c1(2,3) live2 obtain tr' where
    "\<And>d. make_first_group (length heap) now seed (Some path) d ?tr =
      (persist_group_seq (Some path) s d, Inr (\<lparr>href = length heap, hseq = s\<rparr>, tr'))"
    "cache_ok sent tr' (heap @ [group_new])" "tmax tr' = Some s" "\<lparr>href = length heap, hseq = s\<rparr> \<in> set (live tr')" by auto
  with rw' sg show thesis by (rule that)
qed

lemma build_ok:
  assumes down: "down_ok file d sent" and gf: "good_file file" and cfg: "file = seq_name cfg"
    and room_for: "load_group_seq d (Some file) \<noteq> Some (-1)"
    and window: "apply_replay_window secs track_new = Inr tr"
  obtains d2 p where
    "\<And>r. build_lite_publisher now_ms rnow now tr cfg w m (d\<lparr>room := r\<rparr>) =
      (persist_group_seq (Some file) (hseq (pgroup p)) (d2\<lparr>room := r\<rparr>), Inr p)"
    and "build_lite_publisher now_ms rnow now tr cfg w m d = (persist_group_seq (Some file) (hseq (pgroup p)) d2, Inr p)"
    and "pub_ok file (persist_group_seq (Some file) (hseq (pgroup p)) d2) p sent"
    and "\<And>q. sent q \<noteq> [] \<Longrightarrow> q < hseq (pgroup p)"
    and "down_ok file d2 sent" "room d2 = None"
    and "case load_group_seq d2 (Some file) of None \<Rightarrow> True | Some f \<Rightarrow> f \<le> hseq (pgroup p)"
    and "hseq (pgroup p) = (case load_group_seq d (Some file) of None \<Rightarrow> 0 | Some f \<Rightarrow> f + 1)"
proof -
  obtain d2 st rss b where
    op: "\<And>r. open_store (d\<lparr>room := r\<rparr>) = (d2\<lparr>room := r\<rparr>, Inr st)" and d_room: "d\<lparr>room := None\<rparr> = d" "room d2 = None"
    and st: "store_ok d2 st rss b" "max_seq st = max_of None (concat rss)" "holds rss sent"
    and old: "case load_group_seq d (Some file) of
           None \<Rightarrow> b = 0 \<and> (\<forall>q. sent q = [])
         | Some f \<Rightarrow> b \<le> Suc (unat f) \<and> (\<forall>q. sent q \<noteq> [] \<longrightarrow> q \<le> f)"
    and load: "load_group_seq d2 (Some file) = load_group_seq d (Some file)" and down2: "down_ok file d2 sent"
    by (rule opened_down [OF down gf], rule that)
  have rep: "rep d2 st rss" and g: "granted d2" and recs: "records_ok b rss" using st(1) by (simp_all add: store_ok_def)
  define seed where "seed = seed_of (load_group_seq d (Some file)) (max_seq st)"
  define s where "s = (case load_group_seq d (Some file) of None \<Rightarrow> 0 | Some f \<Rightarrow> f + 1)"
  note s = first_number(1-3) [OF old room_for s_def]
  have bounds: "unat q < b" if "contents rss q = Some x" for q x by (rule contents_bound [OF recs that])
  then have lim: "q < s" if "contents rss q = Some x" for q x
    using s(1) that by (fastforce simp: word_less_nat_alt)
  have "unat mx < b" if "max_seq st = Some mx" for mx
    using max_of_in [of "concat rss" mx] that st(2) recs by (auto simp: records_ok_def)
  then have seed: "case seed of Some prev \<Rightarrow> s = prev + 1 | None \<Rightarrow> s = 0"
    unfolding seed_def by (rule first_number(4) [OF old room_for s_def])
  have "contents rss = Map.empty" if "seed = None"
  proof -
    have "load_group_seq d (Some file) = None" using that by (auto simp: seed_def seed_of_def split: option.splits)
    then have "contents rss q = None" for q using bounds [of q] old by (cases "contents rss q") auto
    then show ?thesis by (simp add: fun_eq_iff)
  qed
  then have seed': "case seed of Some prev \<Rightarrow> s = prev + 1 | None \<Rightarrow> s = 0 \<and> contents rss = Map.empty"
    using seed by (cases seed) simp_all
  have new_s: "sent s = []" using s(2) [of s] by blast
  obtain tr1 heap tr' where rw: "\<And>r. reload_window now_ms rnow w (d2\<lparr>room := r\<rparr>) st tr [] = Inr (tr1, heap)"
    and sg: "set_group_source StoreSource tr1 = Inr (tr1\<lparr>tsource := Some StoreSource\<rparr>)"
    and mk: "\<And>d. make_first_group (length heap) now seed (Some file) d (tr1\<lparr>tsource := Some StoreSource\<rparr>) =
      (persist_group_seq (Some file) s d, Inr (\<lparr>href = length heap, hseq = s\<rparr>, tr'))"
    and c: "cache_ok sent tr' (heap @ [group_new])" "tmax tr' = Some s" "\<lparr>href = length heap, hseq = s\<rparr> \<in> set (live tr')"
    by (rule filled_cache [OF rep g st(3) lim window seed' new_s, where path = "file" and now_ms = now_ms and rnow = rnow
        and now = now and w = w], assumption, rule that)
  let ?p = "\<lparr>ptrack = tr', pheap = heap @ [group_new], pgroup = \<lparr>href = length heap, hseq = s\<rparr>, pcount = 0,
    pseq_file = Some file, pstore = Some st, pframes = [], pmetrics = m\<rparr>"
  have run: "build_lite_publisher now_ms rnow now tr cfg w m (d\<lparr>room := r\<rparr>) =
      (persist_group_seq (Some file) s (d2\<lparr>room := r\<rparr>), Inr ?p)" for r
    using load by (simp add: build_lite_publisher_def op rw sg mk [unfolded seed_def]
        cfg [symmetric] moq_def Let_def)
  have "pub_ok file (persist_group_seq (Some file) s d2) ?p sent"
    using persist_pub [OF st(1) gf, of s] s(1) st(3) c new_s s(2) unfolding pub_ok_def
    by (auto simp: rec_ok_def frames_body_def less_imp_le)
  then show thesis using that [of ?p d2] run run [of None] d_room room_None [OF d_room(2)] s down2 load s_def
    by (simp cong: option.case_cong)
qed

end
