(* ===== verification/Publisher_Properties.thy ===== *)
theory Publisher_Properties
  imports Publisher_Run
begin

text \<open>
  All lives of a relay's publisher over one directory, as one relation: first start, writes,
  rotations, collections, clean stops, kills, and interruptions of a start or a write after any
  number of bytes; the shared counters and other files of the directory may change at any time. What subscribers see of it is consistent over all lives.
\<close>

section \<open>Lives of a publisher\<close>

text \<open>\<open>None\<close> is a directory without a running publisher. The last argument is everything ever
  published. The frames of a group fit the store's 32-bit counts. A relay that stays up has every
  write taken by the disk: a write is cut off only when the process dies in it, and then, as for the
  store alone, not in the first append to a new segment file behind older ones. The code tolerates
  more: it logs a refused write and goes on. \<open>Publisher_Failures\<close> and \<open>Store_Failures\<close> show which
  of the properties below that costs.\<close>

inductive relay_run :: "string option \<Rightarrow> disk \<Rightarrow> publisher option \<Rightarrow> history \<Rightarrow> bool" for cfg where
  empty: "granted d \<Longrightarrow> room d = None \<Longrightarrow> lists d [] \<Longrightarrow> good_file (seq_name cfg) \<Longrightarrow>
    load_group_seq d (default_seq_file cfg) = None \<Longrightarrow> relay_run cfg d None (\<lambda>_. [])"
| boot: "relay_run cfg d None sent \<Longrightarrow> load_group_seq d (default_seq_file cfg) \<noteq> Some (-1) \<Longrightarrow>
    apply_replay_window secs track_new = Inr tr \<Longrightarrow>
    build_lite_publisher now_ms reload_now now tr cfg window_secs m d = (d', Inr p) \<Longrightarrow>
    relay_run cfg d' (Some p) sent"
| boot_crash: "relay_run cfg d None sent \<Longrightarrow> load_group_seq d (default_seq_file cfg) \<noteq> Some (-1) \<Longrightarrow>
    apply_replay_window secs track_new = Inr tr \<Longrightarrow>
    build_lite_publisher now_ms reload_now now tr cfg window_secs m (d\<lparr>room := Some k\<rparr>) = (d', res) \<Longrightarrow>
    relay_run cfg (d'\<lparr>room := None\<rparr>) None sent"
| wrote: "relay_run cfg d (Some p) sent \<Longrightarrow> (\<forall>s ms. rec_ok True (s, ms, pframes p @ [data])) \<Longrightarrow>
    publish data group_size now_ms now d p = ((d', p'), res) \<Longrightarrow>
    relay_run cfg d' (Some p') (published p data sent)"
| write_crash: "relay_run cfg d (Some p) sent \<Longrightarrow> (\<forall>s ms. rec_ok True (s, ms, pframes p @ [data])) \<Longrightarrow>
    publish data group_size now_ms now (d\<lparr>room := Some k\<rparr>) p = ((d', p'), res) \<Longrightarrow>
    (\<forall>st. pstore p = Some st \<longrightarrow> rotate_due st \<longrightarrow> segments st = []) \<Longrightarrow>
    relay_run cfg (d'\<lparr>room := None\<rparr>) None (published p data sent)"
| collect: "relay_run cfg d (Some p) sent \<Longrightarrow> publisher_gc now_ms window_secs max_bytes d p = (d', p') \<Longrightarrow>
    relay_run cfg d' (Some p') sent"
| stop: "relay_run cfg d (Some p) sent \<Longrightarrow> publisher_finish now_ms d p = (d', res) \<Longrightarrow>
    relay_run cfg d' None sent"
| kill: "relay_run cfg d (Some p) sent \<Longrightarrow> relay_run cfg d None sent"
| counters: "relay_run cfg d (Some p) sent \<Longrightarrow> relay_run cfg d (Some (p\<lparr>pmetrics := m\<rparr>)) sent"
| other_file: "relay_run cfg d u sent \<Longrightarrow> elsewhere d d' \<Longrightarrow> room d' = None \<Longrightarrow>
    load_group_seq d' (default_seq_file cfg) = load_group_seq d (default_seq_file cfg) \<Longrightarrow>
    relay_run cfg d' u sent"

lemma empty_down:
  assumes "on_disk d [] 0" "load_group_seq d (Some file) = None"
  shows "down_ok file d (\<lambda>_. [])"
proof -
  have "holds (map (fst \<circ> snd) []) (\<lambda>_. [])" by (simp add: holds_def contents_def)
  then show ?thesis using assms unfolding down_ok_def by (intro exI [of _ "[]"] exI [of _ 0]) simp
qed

text \<open>A start that dies while it writes the sequence file.\<close>

lemma boot_crash_down:
  assumes down: "down_ok (seq_name cfg) d sent" "good_file (seq_name cfg)" "load_group_seq d (Some (seq_name cfg)) \<noteq> Some (-1)"
    and "apply_replay_window secs track_new = Inr tr"
    and "build_lite_publisher now_ms rnow now tr cfg w m (d\<lparr>room := Some k\<rparr>) = (d', res)"
  shows "down_ok (seq_name cfg) (d'\<lparr>room := None\<rparr>) sent"
proof -
  from build_ok [OF down(1,2) refl down(3) assms(4), of now_ms rnow now w m] obtain d2 q where
    run: "\<And>r. build_lite_publisher now_ms rnow now tr cfg w m (d\<lparr>room := r\<rparr>) =
      (persist_group_seq (Some (seq_name cfg)) (hseq (pgroup q)) (d2\<lparr>room := r\<rparr>), Inr q)"
    and d2: "down_ok (seq_name cfg) d2 sent" "room d2 = None"
      "case load_group_seq d2 (Some (seq_name cfg)) of None \<Rightarrow> True | Some f \<Rightarrow> f \<le> hseq (pgroup q)" by metis
  have "d' = persist_group_seq (Some (seq_name cfg)) (hseq (pgroup q)) (d2\<lparr>room := Some k\<rparr>)"
    using run [of "Some k"] assms(5) by simp
  moreover have "down_ok (seq_name cfg) ((d2\<lparr>room := Some k\<rparr>)\<lparr>room := None\<rparr>) sent" using d2(1,2) by (simp add: room_None)
  ultimately show ?thesis using down_persist [of "seq_name cfg" "d2\<lparr>room := Some k\<rparr>" sent "hseq (pgroup q)"] down(2) d2(3)
    by (simp cong: option.case_cong)
qed

text \<open>Files that are neither segments nor the sequence file do not matter.\<close>

lemma other_file_ok:
  assumes "elsewhere d d'" "room d' = None" "load_group_seq d' (Some file) = load_group_seq d (Some file)"
  shows "down_ok file d sent \<Longrightarrow> down_ok file d' sent" and "pub_ok file d p sent \<Longrightarrow> pub_ok file d' p sent"
proof -
  note st = store_ok_elsewhere [OF assms(1,2)] and od = on_disk_elsewhere [OF assms(1,2)]
  show "down_ok file d sent \<Longrightarrow> down_ok file d' sent" using od unfolding down_ok_def assms(3) by auto
  assume ok: "pub_ok file d p sent"
  then have "\<exists>st rss b. pstore p = Some st \<and> store_ok d' st rss b \<and> b \<le> unat (hseq (pgroup p)) \<and> holds rss sent"
    using st unfolding pub_ok_def by blast
  then show "pub_ok file d' p sent" using ok unfolding pub_ok_def assms(3) by simp
qed

lemma relay_run_ok:
  "relay_run cfg d u sent \<Longrightarrow> good_file (seq_name cfg) \<and>
    (case u of None \<Rightarrow> down_ok (seq_name cfg) d sent | Some p \<Rightarrow> pub_ok (seq_name cfg) d p sent)"
proof (induction rule: relay_run.induct)
  case (empty d)
  then have "on_disk d [] 0" by (simp add: on_disk_def records_ok_def)
  then show ?case using empty(4,5) empty_down by simp
next
  case (boot d sent secs tr now_ms reload_now now window_secs m d' p)
  then have down: "down_ok (seq_name cfg) d sent" "good_file (seq_name cfg)" by simp_all
  have "load_group_seq d (Some (seq_name cfg)) \<noteq> Some (-1)" using boot(2) by simp
  from build_ok [OF down refl this boot.hyps(3), of now_ms reload_now now window_secs m] boot.hyps(4)
  have "pub_ok (seq_name cfg) d' p sent" by (metis Pair_inject sum.inject(2))
  then show ?case using down(2) by simp
next
  case (boot_crash d sent secs tr now_ms reload_now now window_secs m k d' res)
  then show ?case using boot_crash_down [of cfg d sent] by simp
next
  case (wrote d p sent data group_size now_ms now d' p' res)
  then show ?case using publish_ok(1) [of "seq_name cfg" d p sent data] by simp
next
  case (write_crash d p sent data group_size now_ms now k d' p' res)
  then show ?case using publish_crash [of "seq_name cfg" d p sent data] by simp
next
  case (collect d p sent now_ms window_secs max_bytes d' p')
  then show ?case using publisher_gc_ok(1) [of "seq_name cfg" d p sent] by simp
next
  case (stop d p sent now_ms d' res)
  then show ?case using publisher_finish_down(1) [of "seq_name cfg" d p sent] by simp
next
  case (kill d p sent)
  then show ?case by (auto intro: pub_down)
next
  case (counters d p sent m)
  then show ?case by (simp add: pub_ok_def)
next
  case (other_file d u sent d')
  then have "load_group_seq d' (Some (seq_name cfg)) = load_group_seq d (Some (seq_name cfg))" by simp
  then show ?case using other_file_ok [OF other_file.hyps(2,3)] other_file.IH by (cases u) simp_all
qed

lemmas relay_up = relay_run_ok [where u = "Some p" for p, simplified]
lemmas relay_down = relay_run_ok [where u = None, simplified]

lemma source_group_read:
  assumes "source_group d st q m = Inr (Some frames, m')"
  shows "read d st q = Inr (Some frames)"
proof -
  from assms obtain l where l: "locate st q = Inr l" by (auto simp: source_group_def)
  then obtain loc where loc: "l = Some loc" using assms by (cases l) (simp_all add: source_group_def)
  then have "read_group_at d loc q = Inr frames"
    using assms l by (cases "read_group_at d loc q") (simp_all add: source_group_def)
  then show ?thesis using l loc by (simp add: read_def)
qed

section \<open>A short life\<close>

definition new_dir :: disk where
  "new_dir = \<lparr>files = [], room = None, granted = True\<rparr>"

definition boot1 :: "disk \<times> (relay_error + publisher)" where
  "boot1 = build_lite_publisher 1000 (\<lambda>_. 0) 0 track_new None 0 metrics_default new_dir"

definition relay1 :: "disk \<times> publisher" where
  "relay1 = (case boot1 of (d, Inr p) \<Rightarrow> (d, p))"

definition relay2 :: "disk \<times> publisher" where
  "relay2 = (case relay1 of (d, p) \<Rightarrow> fst (publish [1] 2 1001 5 d p))"

definition relay3 :: "disk \<times> publisher" where
  "relay3 = (case relay2 of (d, p) \<Rightarrow> fst (publish [2] 2 1002 7 d p))"

definition sent2 :: history where
  "sent2 = (\<lambda>_. [])(0 := [[1]])"

definition sent3 :: history where
  "sent3 = (\<lambda>_. [])(0 := [[1], [2]])"

lemma boot1_eq: "boot1 = (fst relay1, Inr (snd relay1))"
proof -
  have ok: "case boot1 of (_, Inr _) \<Rightarrow> True | _ \<Rightarrow> False" by code_simp
  obtain d r where b: "boot1 = (d, r)" by (cases boot1)
  show ?thesis using ok unfolding relay1_def b by (cases r) simp_all
qed

lemma relay_seqs:
  "hseq (pgroup (snd relay1)) = 0" "hseq (pgroup (snd relay2)) = 0"
  "pframes (snd relay1) = []" "pframes (snd relay2) = [[1]]" "pcount (snd relay1) = 0" "pcount (snd relay2) = 1"
  by code_simp+

lemma relay_steps:
  "publish [1] 2 1001 5 (fst relay1) (snd relay1) =
    ((fst relay2, snd relay2), snd (publish [1] 2 1001 5 (fst relay1) (snd relay1)))"
  "publish [2] 2 1002 7 (fst relay2) (snd relay2) =
    ((fst relay3, snd relay3), snd (publish [2] 2 1002 7 (fst relay2) (snd relay2)))"
  by (simp_all add: relay2_def relay3_def split_beta)

lemma new_dir_run: "relay_run None new_dir None (\<lambda>_. [])"
  by (rule relay_run.empty) (simp add: new_dir_def, simp add: new_dir_def, simp add: lists_def new_dir_def,
      simp add: good_file_def seq_name_def, code_simp, code_simp)

lemma small_rec: "length frames \<le> 2 \<Longrightarrow> \<forall>f \<in> set frames. length f \<le> 8 \<Longrightarrow> rec_ok True (s, ms, frames)"
proof -
  assume "length frames \<le> 2" "\<forall>f \<in> set frames. length f \<le> 8"
  moreover then have "sum_list (map (\<lambda>f. 4 + length f) frames) \<le> 24"
    using sum_list_mono [of frames "\<lambda>f. 4 + length f" "\<lambda>_. 12"] by (auto simp: sum_list_triv)
  ultimately show ?thesis by (fastforce simp: rec_ok_def frame_ok_def length_frames_body)
qed

lemma relay1_run: "relay_run None (fst relay1) (Some (snd relay1)) (\<lambda>_. [])"
proof (rule relay_run.boot [OF new_dir_run])
  show "load_group_seq new_dir (default_seq_file None) \<noteq> Some (-1)" by code_simp
  show "apply_replay_window 0 track_new = Inr track_new" by (simp add: apply_replay_window_def)
qed (rule boot1_eq [unfolded boot1_def])

lemma relay2_run: "relay_run None (fst relay2) (Some (snd relay2)) sent2"
  using relay_run.wrote [OF relay1_run _ relay_steps(1)] by (simp add: published_def relay_seqs small_rec sent2_def)

lemma relay3_run: "relay_run None (fst relay3) (Some (snd relay3)) sent3"
  using relay_run.wrote [OF relay2_run _ relay_steps(2)] by (simp add: published_def relay_seqs small_rec sent2_def sent3_def)

section \<open>What subscribers see\<close>

text \<open>C3: replay is faithful, provided the disk takes every write of a relay that stays up: over all such
  lives, stops, kills and writes cut off by the death of the process included (the first write to a new
  segment file behind older ones excepted), a group served from disk or from the live cache under a
  sequence number is what was published under that number: from disk all its frames, from the cache
  each frame at its index unless it was evicted. A write the disk refuses to a relay that goes on breaks
  this: the next group can then replay as other bytes.\<close>

theorem replay_faithful:
  assumes "relay_run cfg d (Some p) sent" "pstore p = Some st"
  shows "(source_group d st q m = Inr (Some frames, m') \<longrightarrow> frames = sent q) \<and>
    (h \<in> set (live (ptrack p)) \<and> i < length (sent (hseq h)) \<longrightarrow>
      fst (group_read_frame (pheap p ! href h) i) \<in> {Ready (Inl CacheFull), Ready (Inr (Some (sent (hseq h) ! i)))})"
proof -
  note ok = relay_up [OF assms(1), THEN conjunct2, unfolded pub_ok_def]
  then obtain rss b where st: "store_ok d st rss b" "holds rss sent" using assms(2) by auto
  have "rep d st rss" "granted d" using st(1) by (simp_all add: store_ok_def)
  note rd = rep_read [OF this, of q]
  have "frames = sent q" if s: "source_group d st q m = Inr (Some frames, m')"
  proof -
    have "read d st q = Inr (Some frames)" by (rule source_group_read [OF s])
    then show ?thesis using rd st(2) by (simp add: holds_def)
  qed
  moreover have "fst (group_read_frame (pheap p ! href h) i) \<in>
      {Ready (Inl CacheFull), Ready (Inr (Some (sent (hseq h) ! i)))}"
    if h: "h \<in> set (live (ptrack p))" "i < length (sent (hseq h))"
  proof -
    let ?g = "pheap p ! href h"
    have g: "group_ok (sent (hseq h)) ?g" using ok h(1) by (simp add: cache_ok_def)
    then have "gframes ?g = drop (goffset ?g) (sent (hseq h))" by (simp add: group_ok_def)
    then have "get_at (gframes ?g) (i - goffset ?g) = Some (sent (hseq h) ! i)" if "\<not> i < goffset ?g"
      using that h(2) by (simp add: get_at_def)
    then show ?thesis
      by (cases "i < goffset ?g") (simp_all add: group_read_frame_def group_poll_get_frame_def group_poll_def del: get_at_Some)
  qed
  ultimately show ?thesis by blast
qed

theorem replay_faithful_witness:
  "\<exists>m'. source_group (fst relay3) (the (pstore (snd relay3))) 0 metrics_default = Inr (Some [[1], [2]], m')"
proof -
  let ?r = "source_group (fst relay3) (the (pstore (snd relay3))) 0 metrics_default"
  have "case ?r of Inr (Some _, _) \<Rightarrow> True | _ \<Rightarrow> False" by code_simp
  then obtain frames m' where r: "?r = Inr (Some frames, m')" by (auto split: sum.splits prod.splits option.splits)
  have "pstore (snd relay3) \<noteq> None" by code_simp
  then have "pstore (snd relay3) = Some (the (pstore (snd relay3)))" by simp
  from replay_faithful [OF relay3_run this, of 0 metrics_default frames m'] r
  have "frames = [[1], [2]]" by (simp add: sent3_def)
  then show ?thesis using r by blast
qed

text \<open>C7: a sequence number is never used twice, provided the disk took every write of the relays while they
  were up: whether those lives ended by a stop, a kill or inside a write (not the first one to a new
  segment file behind older ones), as long as the numbers are not used up a start succeeds and its first
  group has a number above every one under which a frame was ever published.\<close>

theorem restart_never_reuses:
  assumes "relay_run cfg d None sent" "load_group_seq d (default_seq_file cfg) \<noteq> Some (-1)"
    and "apply_replay_window secs track_new = Inr tr"
    and "build_lite_publisher now_ms reload_now now tr cfg window_secs m d = (d', res)"
  shows "\<exists>p. res = Inr p \<and> pframes p = [] \<and> (\<forall>q. sent q \<noteq> [] \<longrightarrow> q < hseq (pgroup p))"
proof -
  have "load_group_seq d (Some (seq_name cfg)) \<noteq> Some (-1)" using assms(2) by simp
  from build_ok [OF relay_down [OF assms(1), THEN conjunct2] relay_down [OF assms(1), THEN conjunct1] refl this assms(3),
      of now_ms reload_now now window_secs m] obtain d2 p where
    b: "build_lite_publisher now_ms reload_now now tr cfg window_secs m d =
      (persist_group_seq (Some (seq_name cfg)) (hseq (pgroup p)) d2, Inr p)"
    and p: "pub_ok (seq_name cfg) (persist_group_seq (Some (seq_name cfg)) (hseq (pgroup p)) d2) p sent"
      "\<And>q. sent q \<noteq> [] \<Longrightarrow> q < hseq (pgroup p)" by metis
  have "pframes p = []" using p(1) p(2) [of "hseq (pgroup p)"] by (auto simp: pub_ok_def)
  then show ?thesis using b p(2) assms(4) by auto
qed

theorem restart_never_reuses_witness:
  "case snd (build_lite_publisher 2000 (\<lambda>_. 9) 9 track_new None 0 metrics_default (fst relay2)) of
     Inr p \<Rightarrow> 0 < hseq (pgroup p) | Inl _ \<Rightarrow> False"
proof -
  have k: "relay_run None (fst relay2) None sent2" by (rule relay_run.kill [OF relay2_run])
  have l: "load_group_seq (fst relay2) (default_seq_file None) \<noteq> Some (-1)" by code_simp
  have w: "apply_replay_window 0 track_new = Inr track_new" by (simp add: apply_replay_window_def)
  from restart_never_reuses [OF k l w surjective_pairing, of 2000 "\<lambda>_. 9" 9 0 metrics_default] obtain p where
    "snd (build_lite_publisher 2000 (\<lambda>_. 9) 9 track_new None 0 metrics_default (fst relay2)) = Inr p"
    "\<forall>q. sent2 q \<noteq> [] \<longrightarrow> q < hseq (pgroup p)" by blast
  then show ?thesis by (simp add: sent2_def)
qed

text \<open>C23: a clean stop keeps the group in progress: if the disk takes the flush, the directory opens again
  and the group can be read back.\<close>

theorem clean_stop_keeps_group:
  assumes "relay_run cfg d (Some p) sent" "publisher_finish now_ms d p = (d', res)" "pframes p \<noteq> []"
  shows "\<exists>d2 st. open_store d' = (d2, Inr st) \<and> read d2 st (hseq (pgroup p)) = Inr (Some (pframes p))"
proof -
  note up = relay_up [OF assms(1)]
  from publisher_finish_down(2) [OF up [THEN conjunct2] up [THEN conjunct1] assms(2)] assms(3) obtain fs b where
    fs: "on_disk d' fs b" "contents (map (fst \<circ> snd) fs) (hseq (pgroup p)) = Some (pframes p)" by blast
  note op = open_ok [OF fs(1), of SEGMENT_TARGET_BYTES]
  then have "store_ok (fold truncated fs d') (opened SEGMENT_TARGET_BYTES fs) (map (fst \<circ> snd) fs) b" by simp
  then have "read (fold truncated fs d') (opened SEGMENT_TARGET_BYTES fs) (hseq (pgroup p)) = Inr (Some (pframes p))"
    using rep_read [of "fold truncated fs d'" "opened SEGMENT_TARGET_BYTES fs" "map (fst \<circ> snd) fs"] fs(2)
    by (simp add: store_ok_def)
  then show ?thesis using op(1) by (auto simp: open_store_def)
qed

theorem clean_stop_keeps_group_witness:
  "case open_store (fst (publisher_finish 1500 (fst relay2) (snd relay2))) of
     (d2, Inr st) \<Rightarrow> read d2 st 0 = Inr (Some [[1]]) | _ \<Rightarrow> False"
proof -
  have "pframes (snd relay2) \<noteq> []" by (simp add: relay_seqs)
  from clean_stop_keeps_group [OF relay2_run surjective_pairing this, of 1500] show ?thesis
    by (auto simp: relay_seqs)
qed

text \<open>publishing does not fail before the sequence numbers run out, and rotates exactly when the
  group is full; the new number is in the sequence file before a frame is written under it.\<close>

theorem publish_rotates_when_full:
  assumes "relay_run cfg d (Some p) sent" "\<forall>s ms. rec_ok True (s, ms, pframes p @ [data])"
    and "hseq (pgroup p) \<noteq> -1" "publish data group_size now_ms now d p = ((d', p'), res)"
  shows "res = Inr () \<and> load_group_seq d' (pseq_file p') = Some (hseq (pgroup p')) \<and>
    (if group_size \<le> pcount p + 1
     then unat (hseq (pgroup p')) = Suc (unat (hseq (pgroup p))) \<and> pframes p' = [] \<and> pcount p' = 0
     else pgroup p' = pgroup p \<and> pframes p' = pframes p @ [data] \<and> pcount p' = pcount p + 1 \<and> d' = d)"
proof -
  note up = relay_up [OF assms(1)]
  have ok: "pub_ok (seq_name cfg) d p sent" and gf: "good_file (seq_name cfg)" using up by simp_all
  have rec: "rec_ok True (s, ms, pframes p @ [data])" for s ms using assms(2) by blast
  have "load_group_seq d' (pseq_file p') = Some (hseq (pgroup p'))" and "res = Inr ()"
    using publish_ok [OF ok gf rec assms(4)] assms(3) by (simp_all add: pub_ok_def)
  then show ?thesis using publish_outcome(1) [OF ok gf rec assms(4)] by blast
qed

theorem publish_rotates_when_full_witness: "unat (hseq (pgroup (snd relay3))) = 1"
proof -
  have "\<forall>s ms. rec_ok True (s, ms, pframes (snd relay2) @ [[2]])" by (simp add: relay_seqs small_rec)
  from publish_rotates_when_full [OF relay2_run this _ relay_steps(2)] show ?thesis by (simp add: relay_seqs)
qed

end
