(* ===== verification/Store_Properties.thy ===== *)
theory Store_Properties
  imports Store_Run
begin

text \<open>
  What the store guarantees over its lives, as one relation \<open>store_run\<close> between the directory,
  the store and the groups it promises to hold, and what holds over them: reads, progress, the
  high-water mark, the floor and the policy of collections.
\<close>

section \<open>Lives of a store\<close>

definition forget_below :: "segment list \<Rightarrow> (u64 \<Rightarrow> bytes list option) \<Rightarrow> u64 \<Rightarrow> bytes list option" where
  "forget_below segs c k = (if segs \<noteq> [] \<and> sfirst (hd segs) \<le> k then c k else None)"

text \<open>The last argument bounds the sequence numbers ever attempted. Every append of a process that lives
  on succeeds. A crash may hit an append at any byte; the one case left out is a crash in the first
  append to a new segment file behind older ones, which leaves that file without a complete record.
  \<open>Store_Failures\<close> shows what an append that fails in a living process, and such a file, lead to.\<close>

inductive store_run :: "disk \<Rightarrow> group_store \<Rightarrow> (u64 \<Rightarrow> bytes list option) \<Rightarrow> nat \<Rightarrow> bool" where
  start: "granted d \<Longrightarrow> room d = None \<Longrightarrow> lists d [] \<Longrightarrow>
    open_with_segment_target target d = (d', Inr st) \<Longrightarrow> store_run d' st Map.empty 0"
| append: "store_run d st c b \<Longrightarrow> b \<le> unat seq \<Longrightarrow> rec_ok True (seq, ms, frames) \<Longrightarrow>
    append_group seq ms frames d st = ((d', st'), Inr ()) \<Longrightarrow>
    store_run d' st' (c(seq \<mapsto> frames)) (Suc (unat seq))"
| collect: "store_run d st c b \<Longrightarrow> gc cutoff_ms max_bytes d st = (d', st', n) \<Longrightarrow>
    store_run d' st' (forget_below (segments st') c) b"
| restart: "store_run d st c b \<Longrightarrow> open_with_segment_target target d = (d', Inr st') \<Longrightarrow>
    store_run d' st' c b"
| crash: "store_run d st c b \<Longrightarrow> b \<le> unat seq \<Longrightarrow> rec_ok True (seq, ms, frames) \<Longrightarrow>
    append_group seq ms frames (d\<lparr>room := Some k\<rparr>) st = ((torn_d, torn_st), Inl e) \<Longrightarrow>
    (rotate_due st \<longrightarrow> segments st = []) \<Longrightarrow>
    open_with_segment_target target (torn_d\<lparr>room := None\<rparr>) = (d', Inr st') \<Longrightarrow>
    store_run d' st' c (Suc (unat seq))"

lemma contents_concat: "concat rss = concat rss' \<Longrightarrow> contents rss = contents rss'"
  by (simp add: contents_def fun_eq_iff)

lemma contents_snoc: "concat rss' = concat rss @ [(seq, ms, frames)] \<Longrightarrow>
    contents rss' = (contents rss)(seq \<mapsto> frames)"
  by (simp add: contents_def fun_eq_iff)

lemma restart_ok:
  assumes "store_ok d st rss bound" "open_with_segment_target target d = (d', Inr st')"
  shows "store_ok d' st' rss bound" and "max_seq st' = max_of None (concat rss)"
proof -
  have rep: "rep d st rss" using assms(1) by (simp add: store_ok_def)
  note op = open_ok [OF store_on_disk [OF assms(1)], of target]
  then have *: "d' = fold truncated (whole_files st rss) d" "st' = opened target (whole_files st rss)"
    using assms(2) by simp_all
  show "store_ok d' st' rss bound" using op(2) unfolding * whole_files_simps [OF rep] .
  have "max_seq st' = max_of None (concat (map (fst \<circ> snd) (whole_files st rss)))"
    unfolding * by (simp add: opened_def)
  then show "max_seq st' = max_of None (concat rss)" unfolding whole_files_simps [OF rep] .
qed

lemma store_run_ok: "store_run d st c b \<Longrightarrow> \<exists>rss. store_ok d st rss b \<and> contents rss = c"
proof (induction rule: store_run.induct)
  case (start d target d' st)
  then have "on_disk d [] 0" by (simp add: on_disk_def records_ok_def)
  from open_ok [OF this, of target] start(4) have "store_ok d' st [] 0" by simp
  moreover have "contents [] = Map.empty" by (simp add: contents_def fun_eq_iff)
  ultimately show ?case by blast
next
  case (append d st c b seq ms frames d' st')
  then obtain rss where ok: "store_ok d st rss b" "contents rss = c" by blast
  from append_ok [OF ok(1) append.hyps(2,3)] append.hyps(4) obtain rss' where
    "store_ok d' st' rss' (Suc (unat seq))" "concat rss' = concat rss @ [(seq, ms, frames)]" by auto
  then show ?case using contents_snoc ok(2) by blast
next
  case (collect d st c b cutoff_ms max_bytes d' st' n)
  then obtain rss where ok: "store_ok d st rss b" "contents rss = c" by blast
  from gc_ok [OF ok(1), of cutoff_ms max_bytes] collect.hyps(2)
  have "store_ok d' st' (drop n rss) b" "contents (drop n rss) = forget_below (segments st') c"
    using ok(2) by (auto simp: fun_eq_iff forget_below_def)
  then show ?case by blast
next
  case (restart d st c b target d' st')
  then show ?case using restart_ok by blast
next
  case (crash d st c b seq ms frames k torn_d torn_st e target d' st')
  then obtain rss where ok: "store_ok d st rss b" "contents rss = c" by blast
  from crash_ok [OF ok(1) crash.hyps(2-5)] obtain fs where
    fs: "on_disk (torn_d\<lparr>room := None\<rparr>) fs (Suc (unat seq))" "concat (map (fst \<circ> snd) fs) = concat rss" by blast
  from open_ok [OF fs(1), of target] crash.hyps(6)
  have "store_ok d' st' (map (fst \<circ> snd) fs) (Suc (unat seq))" by simp
  then show ?case using contents_concat [OF fs(2)] ok(2) by blast
qed

text \<open>C8: over any life of the store made of openings, successful appends under growing sequence numbers,
  garbage collections, restarts, and crashes after any number of bytes of an append (except in the first
  append to a new segment file behind older ones) reading a sequence number returns exactly the frames
  appended under it and not collected since.\<close>

theorem store_run_reads:
  assumes "store_run d st c b"
  shows "read d st seq = Inr (c seq)"
proof -
  from store_run_ok [OF assms] obtain rss where "store_ok d st rss b" "contents rss = c" by blast
  then show ?thesis using rep_read [of d st rss seq] by (simp add: store_ok_def)
qed

definition empty_dir :: disk where
  "empty_dir = \<lparr>files = [], room = None, granted = True\<rparr>"

definition life1 :: "disk \<times> group_store" where
  "life1 = (case open_with_segment_target 40 empty_dir of (d, Inr st) \<Rightarrow> (d, st))"

definition life2 :: "disk \<times> group_store" where
  "life2 = (case life1 of (d, st) \<Rightarrow> fst (append_group 5 100 [[1, 2], [3]] d st))"

text \<open>A crash after 9 bytes of the next record, in the same segment.\<close>

definition life3 :: "disk \<times> group_store" where
  "life3 = (case life2 of (d, st) \<Rightarrow> fst (append_group 6 101 [[4]] (d\<lparr>room := Some 9\<rparr>) st))"

definition life4 :: "disk \<times> group_store" where
  "life4 = (case life3 of (d, _) \<Rightarrow>
     (case open_with_segment_target 40 (d\<lparr>room := None\<rparr>) of (d, Inr st) \<Rightarrow> (d, st)))"

lemma life2_run: "store_run (fst life2) (snd life2) [5 \<mapsto> [[1, 2], [3]]] (Suc (unat (5 :: u64)))"
proof -
  have "store_run (fst life1) (snd life1) Map.empty 0"
    by (rule store_run.start [of empty_dir 40]) (code_simp, code_simp, simp add: lists_def empty_dir_def, code_simp)
  then show ?thesis
    by (rule store_run.append [where ms = 100]) (simp, simp add: rec_ok_def frame_ok_def frames_body_def, code_simp)
qed

lemma life4_run: "store_run (fst life4) (snd life4) [5 \<mapsto> [[1, 2], [3]]] 7"
proof -
  have "store_run (fst life4) (snd life4) [5 \<mapsto> [[1, 2], [3]]] (Suc (unat (6 :: u64)))"
    by (rule store_run.crash [OF life2_run, where ms = 101 and frames = "[[4]]" and k = 9 and torn_d = "fst life3" and
          torn_st = "snd life3" and e = WriteFailed and target = 40])
      (simp, simp add: rec_ok_def frame_ok_def frames_body_def, code_simp, code_simp, code_simp)
  then show ?thesis by simp
qed

theorem store_run_reads_witness: "read (fst life4) (snd life4) 5 = Inr (Some [[1, 2], [3]])"
  using store_run_reads [OF life4_run, of 5] by simp

text \<open>The store never gets stuck in such a life: while the disk accepts writes, an append of a group
  that fits the 32-bit counts under a new, larger sequence number succeeds, and the directory opens
  again.\<close>

theorem store_run_progress:
  assumes "store_run d st c b" "b \<le> unat seq" "rec_ok True (seq, ms, frames)"
  shows "(\<exists>d' st'. append_group seq ms frames d st = ((d', st'), Inr ())) \<and>
    (\<exists>d' st'. open_with_segment_target target d = (d', Inr st'))"
proof -
  from store_run_ok [OF assms(1)] obtain rss where ok: "store_ok d st rss b" by blast
  from append_ok [OF ok assms(2,3)] open_ok(1) [OF store_on_disk [OF ok], of target]
  show ?thesis by blast
qed

theorem store_run_progress_witness:
  "(\<exists>d' st'. append_group 7 9 [[1]] (fst life4) (snd life4) = ((d', st'), Inr ())) \<and>
    (\<exists>d' st'. open_with_segment_target 40 (fst life4) = (d', Inr st'))"
  by (rule store_run_progress [OF life4_run]) (simp_all add: rec_ok_def frame_ok_def frames_body_def)

section \<open>Queries\<close>

lemma contents_None: "contents rss k = None \<longleftrightarrow> (\<forall>r \<in> set (concat rss). fst r \<noteq> k)"
  by (simp add: contents_def lookup_None)

text \<open>a restart recovers the high-water sequence: the highest one stored, and none when nothing
  is stored.\<close>

theorem restart_max_seq:
  assumes "store_run d st c b" "open_with_segment_target target d = (d', Inr st')"
  shows "max_seq st' = Some k \<longleftrightarrow> c k \<noteq> None \<and> (\<forall>j. c j \<noteq> None \<longrightarrow> j \<le> k)"
proof -
  from store_run_ok [OF assms(1)] obtain rss where ok: "store_ok d st rss b" and c: "contents rss = c" by blast
  have m: "max_seq st' = max_of None (concat rss)" by (rule restart_ok(2) [OF ok assms(2)])
  have stored: "c j \<noteq> None \<longleftrightarrow> (\<exists>r \<in> set (concat rss). fst r = j)" for j
    using contents_None [of rss j] c by auto
  show ?thesis
  proof
    assume "max_seq st' = Some k"
    then have k: "max_of None (concat rss) = Some k" using m by simp
    have "\<exists>r \<in> set (concat rss). fst r = k" by (rule max_of_in [OF k])
    moreover have "fst r \<le> k" if "r \<in> set (concat rss)" for r
      using max_of_bound [OF that, of None] k by simp
    ultimately show "c k \<noteq> None \<and> (\<forall>j. c j \<noteq> None \<longrightarrow> j \<le> k)" unfolding stored by blast
  next
    assume k: "c k \<noteq> None \<and> (\<forall>j. c j \<noteq> None \<longrightarrow> j \<le> k)"
    then obtain m' where m': "max_of None (concat rss) = Some m'" "k \<le> m'"
      unfolding stored using max_of_bound by blast
    from max_of_in [OF m'(1)] have "c m' \<noteq> None" unfolding stored by blast
    then show "max_seq st' = Some k" using m m' k by auto
  qed
qed

theorem restart_max_seq_witness: "max_seq (snd life4) = Some 5"
proof -
  have "open_with_segment_target 40 (fst life4) = (fst life4, Inr (snd life4))" by code_simp
  from restart_max_seq [OF life4_run this, of 5] show ?thesis by simp
qed

text \<open>the oldest sequence the store reports is the floor of what it can serve.\<close>

theorem oldest_seq_floor:
  assumes "store_run d st c b"
  shows "oldest_seq st = Some k \<longleftrightarrow> c k \<noteq> None \<and> (\<forall>j. c j \<noteq> None \<longrightarrow> k \<le> j)"
proof -
  from store_run_ok [OF assms] obtain rss where ok: "store_ok d st rss b" and c: "contents rss = c" by blast
  then have rep: "rep d st rss" by (simp add: store_ok_def)
  have get: "om_get (index st) j \<noteq> None \<longleftrightarrow> c j \<noteq> None" for j using rep_index(1) [OF rep, of j] c by simp
  note first = om_first_le [OF rep_index(2) [OF rep]]
  show ?thesis
  proof
    assume "oldest_seq st = Some k"
    then have k: "om_first (index st) = Some k" by (simp add: oldest_seq_def)
    show "c k \<noteq> None \<and> (\<forall>j. c j \<noteq> None \<longrightarrow> k \<le> j)" using first [OF k] unfolding get by blast
  next
    assume k: "c k \<noteq> None \<and> (\<forall>j. c j \<noteq> None \<longrightarrow> k \<le> j)"
    then have "om_get (index st) k \<noteq> None" unfolding get by blast
    then have "index st \<noteq> []" by auto
    then obtain m where m: "om_first (index st) = Some m" by (cases "om_first (index st)") auto
    from first [OF m] have "c m \<noteq> None" "m \<le> k" using k unfolding get by blast+
    then show "oldest_seq st = Some k" using k m by (auto simp: oldest_seq_def)
  qed
qed

theorem oldest_seq_floor_witness: "oldest_seq (snd life4) = Some 5"
  using oldest_seq_floor [OF life4_run, of 5] by simp

lemma ensure_writer_index:
  "ensure_writer seq d st = ((d', st'), res) \<Longrightarrow> index st' = index st"
  by (auto simp: ensure_writer_def take_writer_def Let_def split: if_splits option.splits prod.splits)

lemma append_group_index:
  assumes "append_group seq ms frames d st = ((d', st'), Inr ())"
  shows "\<exists>loc. lms loc = ms \<and> index st' = om_insert seq loc (index st)"
proof -
  from assms obtain d1 st1 where e: "ensure_writer seq d st = ((d1, st1), Inr ())"
    by (auto simp: append_group_def split: prod.splits sum.splits)
  have "index st' = om_insert seq \<lparr>lseg = length (segments st1) - 1,
      loff = sbytes (segments st1 ! (length (segments st1) - 1)), lms = ms\<rparr> (index st1)"
    using assms by (auto simp: append_group_def e Let_def split: prod.splits option.splits if_splits)
  then show ?thesis using ensure_writer_index [OF e] by (metis location.select_convs(3))
qed

text \<open>the reload set for a cutoff grows by exactly the group just appended, if its time is not
  below the cutoff, and replaces an earlier entry of the same sequence.\<close>

theorem groups_since_append:
  assumes "append_group seq ms frames d st = ((d', st'), Inr ())" "om_ok (index st)"
  shows "k \<in> set (groups_since st' cutoff_ms) \<longleftrightarrow>
    (if k = seq then cutoff_ms \<le> ms else k \<in> set (groups_since st cutoff_ms))"
proof -
  have mem: "j \<in> set (groups_since s cutoff_ms) \<longleftrightarrow> (\<exists>loc. om_get (index s) j = Some loc \<and> cutoff_ms \<le> lms loc)"
    if "om_ok (index s)" for j s
    using om_distinct [OF that] by (force simp: groups_since_def om_get_def)
  from append_group_index [OF assms(1)] obtain loc where
    "lms loc = ms" "index st' = om_insert seq loc (index st)" by blast
  then show ?thesis using mem [of st' k] mem [of st k] assms(2) by simp
qed

theorem groups_since_append_witness:
  "(5 :: u64) \<in> set (groups_since (snd life2) 100) \<longleftrightarrow>
    (if (5 :: u64) = 5 then (100 :: u64) \<le> 100 else 5 \<in> set (groups_since (snd life1) 100))"
  by (rule groups_since_append [of 5 100 "[[1, 2], [3]]" "fst life1" "snd life1" "fst life2"])
    (code_simp, simp add: om_ok_def, code_simp)

section \<open>Retention\<close>

text \<open>C25: in a life of the store as above, garbage collection drops segments from the front only, each of them because its newest
  group was older than the cutoff or the segments left were over the budget; it stops at the
  first segment for which neither holds, or at the last one, which it never drops.\<close>

theorem gc_policy:
  assumes "gc cutoff_ms max_bytes d st = (d', st', n)" "store_run d st c b"
  shows "segments st' = drop n (segments st) \<and> (segments st \<noteq> [] \<longrightarrow> segments st' \<noteq> []) \<and>
    (\<forall>i < n. snewest (segments st ! i) < cutoff_ms \<or>
       0 < max_bytes \<and> max_bytes < sum_list (map sbytes (drop i (segments st)))) \<and>
    (length (segments st') \<le> 1 \<or>
       cutoff_ms \<le> snewest (hd (segments st')) \<and> (0 < max_bytes \<longrightarrow> total_bytes st' \<le> max_bytes))"
proof -
  from store_run_ok [OF assms(2)] obtain rss where ok: "store_ok d st rss b" by blast
  from gc_ok [OF ok, of cutoff_ms max_bytes] assms(1) have
    "segments st' = drop n (segments st)" "segments st \<noteq> [] \<longrightarrow> n < length (segments st)" by auto
  moreover have "case gc_loop cutoff_ms max_bytes (total_bytes st) d (segments st) (index st) of
      (d', segs', idx', n) \<Rightarrow>
        (\<forall>i < n. gc_due cutoff_ms max_bytes (sum_list (map sbytes (drop i (segments st)))) (segments st ! i)) \<and>
        (length segs' \<le> 1 \<or> \<not> gc_due cutoff_ms max_bytes (sum_list (map sbytes segs')) (hd segs'))"
    by (rule gc_loop_due) (simp add: total_bytes_def)
  ultimately show ?thesis using assms(1)
    by (auto simp: gc_def total_bytes_def gc_due_def not_less split: prod.splits)
qed

definition life5 :: "disk \<times> group_store" where
  "life5 = (case life4 of (d, st) \<Rightarrow> fst (append_group 7 200 [[5]] d st))"

definition life6 :: "disk \<times> group_store" where
  "life6 = (case life5 of (d, st) \<Rightarrow> fst (append_group 8 201 [[6]] d st))"

definition life7 :: "disk \<times> group_store" where
  "life7 = (case life6 of (d, st) \<Rightarrow> (case gc 201 0 d st of (d, st, _) \<Rightarrow> (d, st)))"

theorem gc_policy_witness: "segments (snd life7) = drop 1 (segments (snd life6))"
proof -
  have "store_run (fst life5) (snd life5) [5 \<mapsto> [[1, 2], [3]], 7 \<mapsto> [[5]]] (Suc (unat (7 :: u64)))"
    by (rule store_run.append [OF life4_run, where ms = 200])
      (simp, simp add: rec_ok_def frame_ok_def frames_body_def, code_simp)
  then have run: "store_run (fst life6) (snd life6) [5 \<mapsto> [[1, 2], [3]], 7 \<mapsto> [[5]], 8 \<mapsto> [[6]]] (Suc (unat (8 :: u64)))"
    by (rule store_run.append [where ms = 201])
      (simp, simp add: rec_ok_def frame_ok_def frames_body_def, code_simp)
  have "gc 201 0 (fst life6) (snd life6) = (fst life7, snd life7, 1)" by code_simp
  from gc_policy [OF this run] show ?thesis by blast
qed

end
