(* ===== verification/Backfill.thy ===== *)
theory Backfill
  imports Publisher_Properties Store_Properties
begin

text \<open>
  Deep replay: what the lite publisher of the vendored fork (\<open>run_track\<close>, \<open>serve_group\<close> in
  \<open>rust/vendor/moq-net/src/lite/publisher.rs\<close>) sends a subscriber that resumes below the live cache.
  The groups come from a \<open>GroupSource\<close>, the interface between the publisher and the relay's store:
  the locale \<open>group_source\<close> states what the publisher relies on, and \<open>StoreSource\<close> over the store
  is its interpretation. Failures of the subscriber's stream end the subscription and are left out.
\<close>

section \<open>Serving a group\<close>

datatype serve_end = Served | Failed moq_error | Waiting

lemma group_read_frame_next:
  assumes "group_read_frame g i = (Ready (Inr (Some f)), j)"
  shows "j = Suc i \<and> i < goffset g + length (gframes g)"
  using assms
  by (auto simp: group_read_frame_def group_poll_get_frame_def group_poll_def
      split: if_splits option.splits poll.splits sum.splits)

function serve_group :: "group \<Rightarrow> nat \<Rightarrow> bytes list \<times> serve_end" where
  "serve_group g i =
     (case group_read_frame g i of
        (Ready (Inr (Some f)), j) \<Rightarrow> (case serve_group g j of (fs, e) \<Rightarrow> (f # fs, e))
      | (Ready (Inr None), _) \<Rightarrow> ([], Served)
      | (Ready (Inl e), _) \<Rightarrow> ([], Failed e)
      | (Pending, _) \<Rightarrow> ([], Waiting))"
  by pat_completeness auto
termination
  by (relation "measure (\<lambda>(g, i). goffset g + length (gframes g) - i)")
    (auto dest!: group_read_frame_next [OF sym])

declare serve_group.simps [simp del]

section \<open>The backfill loop\<close>

text \<open>The cache floor and the source are read anew in every turn: \<open>floor i\<close> and \<open>get i\<close> are what turn
  \<open>i\<close> sees. The result tells what was served, how the loop ended, and the next sequence.\<close>

definition backfill_start :: "u64 \<Rightarrow> u64 option \<Rightarrow> u64" where
  "backfill_start requested oldest = (case oldest of Some old \<Rightarrow> max requested old | None \<Rightarrow> requested)"

lemma succ_below: "\<not> f \<le> n \<Longrightarrow> unat (n + 1) = Suc (unat n)" for n :: u64
proof -
  assume "\<not> f \<le> n"
  then have "n \<noteq> - 1" using word_order.extremum [of f] by auto
  then show ?thesis by (metis Suc_eq_plus1 add.commute unatSuc add_eq_0_iff)
qed

lemma backfill_measure: "\<not> f \<le> n \<Longrightarrow> 2 ^ 64 - unat (n + 1) < 2 ^ 64 - unat n" for n :: u64
proof -
  assume "\<not> f \<le> n"
  moreover have "unat n < 2 ^ 64" using unsigned_less [of n] by simp
  ultimately show ?thesis by (simp add: succ_below)
qed

function backfill :: "(nat \<Rightarrow> u64 option) \<Rightarrow> (nat \<Rightarrow> u64 \<Rightarrow> bytes list option) \<Rightarrow> nat \<Rightarrow> u64 \<Rightarrow>
    (u64 \<times> bytes list) list \<times> serve_end \<times> u64" where
  "backfill floor get i nxt =
     (case floor i of
        None \<Rightarrow> ([], Served, nxt)
      | Some cache_floor \<Rightarrow>
          if cache_floor \<le> nxt then ([], Served, nxt)
          else (case get i nxt of
                  None \<Rightarrow> backfill floor get (Suc i) (nxt + 1)
                | Some frames \<Rightarrow>
                    (case bind_res (write_frames frames group_new) group_finish of
                       Inl e \<Rightarrow> ([], Failed e, nxt)
                     | Inr g \<Rightarrow>
                         (case serve_group g 0 of
                            (fs, Served) \<Rightarrow>
                              (case backfill floor get (Suc i) (nxt + 1) of
                                 (out, e, n) \<Rightarrow> ((nxt, fs) # out, e, n))
                          | (fs, e) \<Rightarrow> ([(nxt, fs)], e, nxt)))))"
  by pat_completeness auto

termination
  by (relation "measure (\<lambda>(floor, get, i, nxt). 2 ^ 64 - unat nxt)") (simp_all only: in_measure prod.case backfill_measure wf_measure)

declare backfill.simps [simp del]

section \<open>A group from a source is served whole or not at all\<close>

definition fits_cache :: "bytes list \<Rightarrow> bool" where
  "fits_cache fs \<longleftrightarrow> sum_list (map length fs) \<le> MAX_GROUP_CACHE \<and> length fs \<le> MAX_GROUP_FRAMES"

lemma serve_group_frames:
  assumes "group_ok fs g" "goffset g = 0" "gfin g"
  shows "serve_group g i = (drop i fs, Served)"
proof (induction "length fs - i" arbitrary: i)
  case (0 i)
  then have "get_at (gframes g) i = None" using assms(1,2) by (simp add: group_ok_def)
  then have "group_read_frame g i = (Ready (Inr None), i)"
    using assms(2,3) by (simp add: group_read_frame_def group_poll_get_frame_def group_poll_def del: get_at_None)
  then show ?case using 0 by (simp add: serve_group.simps [of g i])
next
  case (Suc n i)
  then have "get_at (gframes g) i = Some (fs ! i)" using assms(1,2) by (simp add: group_ok_def)
  then have "group_read_frame g i = (Ready (Inr (Some (fs ! i))), Suc i)"
    using assms(2) by (simp add: group_read_frame_def group_poll_get_frame_def group_poll_def del: get_at_Some)
  moreover have "drop i fs = fs ! i # drop (Suc i) fs" using Suc.hyps(2) by (simp add: Cons_nth_drop_Suc)
  ultimately show ?case using Suc.hyps by (simp add: serve_group.simps [of g i])
qed

lemma serve_stored:
  "\<exists>g. bind_res (write_frames fs group_new) group_finish = Inr g \<and>
    serve_group g 0 = (if fits_cache fs then (fs, Served) else ([], Failed CacheFull))"
proof -
  from write_frames_new [of fs] obtain g where g: "write_frames fs group_new = Inr g" "group_ok fs g"
    "\<not> gclosed g" and off: "fits_cache fs \<longrightarrow> goffset g = 0" unfolding fits_cache_def by blast
  let ?g = "g\<lparr>gfin := True\<rparr>"
  have fin: "group_finish g = Inr ?g" using g(3) by (simp add: group_finish_def group_modify_def)
  have ok: "group_ok fs ?g" using g(2) by (auto simp: group_ok_def)
  have "serve_group ?g 0 = (if fits_cache fs then (fs, Served) else ([], Failed CacheFull))"
  proof (cases "fits_cache fs")
    case True
    then show ?thesis using serve_group_frames [OF ok, of 0] off by simp
  next
    case False
    have "goffset g \<noteq> 0"
    proof
      assume "goffset g = 0"
      then have "fits_cache fs" using g(2) by (auto simp: group_ok_def fits_cache_def)
      with False show False by simp
    qed
    then have "group_read_frame ?g 0 = (Ready (Inl CacheFull), 0)"
      by (simp add: group_read_frame_def group_poll_get_frame_def group_poll_def)
    then show ?thesis using False by (simp add: serve_group.simps [of ?g 0])
  qed
  then show ?thesis using g(1) fin by auto
qed

lemma backfill_step:
  "backfill floor get i nxt =
     (case floor i of
        None \<Rightarrow> ([], Served, nxt)
      | Some f \<Rightarrow>
          if f \<le> nxt then ([], Served, nxt)
          else (case get i nxt of
                  None \<Rightarrow> backfill floor get (Suc i) (nxt + 1)
                | Some frames \<Rightarrow>
                    if fits_cache frames
                    then (case backfill floor get (Suc i) (nxt + 1) of (out, r) \<Rightarrow> ((nxt, frames) # out, r))
                    else ([(nxt, [])], Failed CacheFull, nxt)))"
proof -
  have "(case bind_res (write_frames fs group_new) group_finish of
           Inl e \<Rightarrow> ([], Failed e, nxt)
         | Inr g \<Rightarrow>
             (case serve_group g 0 of
                (fs', Served) \<Rightarrow> (case k of (out, e, n) \<Rightarrow> ((nxt, fs') # out, e, n))
              | (fs', e) \<Rightarrow> ([(nxt, fs')], e, nxt))) =
        (if fits_cache fs then (case k of (out, r) \<Rightarrow> ((nxt, fs) # out, r)) else ([(nxt, [])], Failed CacheFull, nxt))"
    for fs and k :: "(u64 \<times> bytes list) list \<times> serve_end \<times> u64"
    using serve_stored [of fs] by (auto split: prod.splits)
  then show ?thesis by (subst backfill.simps) (simp cong: option.case_cong if_cong)
qed

section \<open>The replay loop turn by turn\<close>

lemma add_of_nat_less: "unat n + k < 2 ^ 64 \<Longrightarrow> unat (n + word_of_nat k) = unat n + k" for n :: u64
  by (simp add: unat_word_ariths unat_of_nat)

text \<open>Turn \<open>k\<close> looks up the \<open>k\<close>th number from the start, under the floor it sees.\<close>

lemma backfill_turns:
  assumes "backfill floor get i nxt = (out, e, n)" "\<forall>k q fs. get k q = Some fs \<longrightarrow> fits_cache fs"
  shows "\<exists>m. e = Served \<and> unat n = unat nxt + m \<and> (\<forall>f. floor (i + m) = Some f \<longrightarrow> f \<le> n) \<and>
    (\<forall>k < m. \<exists>f. floor (i + k) = Some f \<and> nxt + word_of_nat k < f) \<and>
    out = List.map_filter (\<lambda>k. map_option (Pair (nxt + word_of_nat k)) (get (i + k) (nxt + word_of_nat k))) [0..<m]"
  using assms(1)
proof (induction "2 ^ 64 - unat nxt" arbitrary: i nxt out rule: less_induct)
  case (less nxt i out)
  show ?case
  proof (cases "\<exists>f. floor i = Some f \<and> \<not> f \<le> nxt")
    case False
    then have "out = [] \<and> e = Served \<and> n = nxt"
      using less.prems by (auto simp: backfill_step [of floor _ i nxt] split: option.splits)
    then show ?thesis using False by (intro exI [of _ 0]) (auto simp: List.map_filter_simps)
  next
    case True
    then obtain f where f: "floor i = Some f" "\<not> f \<le> nxt" by blast
    obtain out' e' n' where r: "backfill floor get (Suc i) (nxt + 1) = (out', e', n')" by (metis prod_cases3)
    have o: "out = (case get i nxt of None \<Rightarrow> out' | Some fs \<Rightarrow> (nxt, fs) # out')" "e = e'" "n = n'"
      using less.prems f r assms(2) by (auto simp: backfill_step [of floor _ i nxt] split: option.splits if_splits)
    have shift: "nxt + 1 + word_of_nat k = nxt + word_of_nat (Suc k)" for k by simp
    from less.hyps [OF backfill_measure [OF f(2)] r [folded o(2,3)], unfolded shift] obtain m where
      m: "e = Served" "unat n = unat (nxt + 1) + m" "\<forall>f. floor (Suc i + m) = Some f \<longrightarrow> f \<le> n"
        "\<forall>k < m. \<exists>f. floor (Suc i + k) = Some f \<and> nxt + word_of_nat (Suc k) < f"
        "out' = List.map_filter (\<lambda>k. map_option (Pair (nxt + word_of_nat (Suc k)))
          (get (Suc i + k) (nxt + word_of_nat (Suc k)))) [0..<m]" by blast
    have "\<exists>f. floor (i + k) = Some f \<and> nxt + word_of_nat k < f" if "k < Suc m" for k
      using m(4) f that by (cases k) auto
    moreover have "out = List.map_filter (\<lambda>k. map_option (Pair (nxt + word_of_nat k)) (get (i + k) (nxt + word_of_nat k))) [0..<Suc m]"
      unfolding o(1) m(5) by (simp add: upt_conv_Cons map_Suc_upt [symmetric] List.map_filter_simps
        map_filter_def filter_map comp_def add.assoc split: option.split del: upt_Suc)
    ultimately show ?thesis using m(1-3) succ_below [OF f(2)] by (intro exI [of _ "Suc m"]) simp
  qed
qed

text \<open>Turn by turn, and then as a set: every number looked up under the floor, each once.\<close>

lemma turn_of:
  fixes nxt n q :: u64
  assumes "unat n = unat nxt + m" "nxt \<le> q" "q < n"
  shows "\<exists>k < m. q = nxt + word_of_nat k"
proof -
  have "unat nxt \<le> unat q" "unat q < unat nxt + m" using assms by (simp_all add: word_le_nat_alt word_less_nat_alt)
  then obtain k where k: "k < m" "unat q = unat nxt + k" by (metis le_Suc_ex nat_add_left_cancel_less)
  moreover have "unat (nxt + word_of_nat k) = unat nxt + k"
    using k(2) unat_u64_less [of q] by (intro add_of_nat_less) simp
  ultimately show ?thesis by (auto simp: word_unat_eq_iff)
qed

lemma backfill_served:
  assumes "backfill floor get i nxt = (out, e, n)" "\<forall>k q fs. get k q = Some fs \<longrightarrow> fits_cache fs"
  obtains m where "e = Served" "unat n = unat nxt + m" "\<And>f. floor (i + m) = Some f \<Longrightarrow> f \<le> n"
    "\<And>k. k < m \<Longrightarrow> unat (nxt + word_of_nat k) = unat nxt + k \<and> (\<exists>f. floor (i + k) = Some f \<and> nxt + word_of_nat k < f)"
    "sorted_wrt (<) (map fst out)"
    "\<And>q fs. (q, fs) \<in> set out \<longleftrightarrow> (\<exists>k < m. q = nxt + word_of_nat k \<and> get (i + k) q = Some fs)"
proof -
  from backfill_turns [OF assms] obtain m where m: "e = Served" "unat n = unat nxt + m" "\<forall>f. floor (i + m) = Some f \<longrightarrow> f \<le> n"
      "\<forall>k < m. \<exists>f. floor (i + k) = Some f \<and> nxt + word_of_nat k < f"
    and out: "out = List.map_filter (\<lambda>k. map_option (Pair (nxt + word_of_nat k)) (get (i + k) (nxt + word_of_nat k))) [0..<m]"
    by blast
  have num: "unat (nxt + word_of_nat k) = unat nxt + k" if "k < m" for k
    using that m(2) unat_u64_less [of n] by (intro add_of_nat_less) simp
  have "map fst out = map (\<lambda>k. nxt + word_of_nat k) (filter (\<lambda>k. get (i + k) (nxt + word_of_nat k) \<noteq> None) [0..<m])"
    unfolding out by (simp add: map_filter_def comp_def) (auto intro!: map_cong)
  moreover have "sorted_wrt (<) (map (\<lambda>k. nxt + word_of_nat k) (filter P [0..<m]))" for P
    by (simp add: sorted_wrt_map) (rule sorted_wrt_mono_rel [OF _ sorted_wrt_filter [OF sorted_wrt_upt]],
      simp add: word_less_nat_alt num)
  ultimately have "sorted_wrt (<) (map fst out)" by simp
  moreover have "(q, fs) \<in> set out \<longleftrightarrow> (\<exists>k < m. q = nxt + word_of_nat k \<and> get (i + k) q = Some fs)" for q fs
    unfolding out by (force simp: map_filter_def)
  ultimately show ?thesis using m num by (intro that [of m]) auto
qed

section \<open>What the publisher relies on\<close>

locale group_source =
  fixes serves :: "'s \<Rightarrow> history \<Rightarrow> bool"
    and lookup :: "'s \<Rightarrow> u64 \<Rightarrow> bytes list option"
    and oldest :: "'s \<Rightarrow> u64 option"
  assumes faithful: "serves s sent \<Longrightarrow> lookup s q = Some fs \<Longrightarrow> fs = sent q"
    and above_floor: "serves s sent \<Longrightarrow> lookup s q = Some fs \<Longrightarrow> \<exists>k. oldest s = Some k \<and> k \<le> q"
begin

lemma backfill_run:
  assumes "backfill floor (\<lambda>i. lookup (world i)) i nxt = (out, e, n)"
    and "\<And>i. serves (world i) sent" and "\<And>q. fits_cache (sent q)"
  shows "e = Served \<and> nxt \<le> n \<and> (\<exists>j. \<forall>f. floor j = Some f \<longrightarrow> f \<le> n) \<and>
    sorted_wrt (<) (map fst out) \<and> (\<forall>(q, fs) \<in> set out. nxt \<le> q \<and> q < n \<and> (\<exists>j f. lookup (world j) q = Some fs \<and> floor j = Some f \<and> q < f)) \<and>
    (\<forall>q. nxt \<le> q \<and> q < n \<and> (\<forall>j. lookup (world j) q \<noteq> None) \<longrightarrow> q \<in> fst ` set out)"
proof -
  have "\<forall>k q fs. lookup (world k) q = Some fs \<longrightarrow> fits_cache fs" using faithful [OF assms(2)] assms(3) by metis
  then obtain m where m: "e = Served" "unat n = unat nxt + m"
    "\<And>f. floor (i + m) = Some f \<Longrightarrow> f \<le> n"
    "\<And>k. k < m \<Longrightarrow> unat (nxt + word_of_nat k) = unat nxt + k \<and> (\<exists>f. floor (i + k) = Some f \<and> nxt + word_of_nat k < f)"
    "sorted_wrt (<) (map fst out)"
    "\<And>q fs. (q, fs) \<in> set out \<longleftrightarrow> (\<exists>k < m. q = nxt + word_of_nat k \<and> lookup (world (i + k)) q = Some fs)"
    by (rule backfill_served [OF assms(1)]) (rule that; assumption)
  have "nxt \<le> q \<and> q < n \<and> (\<exists>j f. lookup (world j) q = Some fs \<and> floor j = Some f \<and> q < f)" if out: "(q, fs) \<in> set out" for q fs
  proof -
    from out m(6) obtain k where k: "k < m" "q = nxt + word_of_nat k" "lookup (world (i + k)) q = Some fs" by blast
    then show ?thesis using m(2) m(4) [of k] by (auto simp: word_le_nat_alt word_less_nat_alt)
  qed
  moreover have "q \<in> fst ` set out" if q: "nxt \<le> q" "q < n" "\<forall>j. lookup (world j) q \<noteq> None" for q
  proof -
    from turn_of [OF m(2) q(1,2)] obtain k where "k < m" "q = nxt + word_of_nat k" by blast
    moreover obtain fs where "lookup (world (i + k)) q = Some fs" using q(3) by blast
    ultimately have "(q, fs) \<in> set out" using m(6) by blast
    then show ?thesis by force
  qed
  moreover have "nxt \<le> n" using m(2) by (simp add: word_le_nat_alt)
  ultimately show ?thesis using m(1,3,5) by blast
qed

end

section \<open>The store as the source\<close>

text \<open>The store of the relay, as the publisher sees it through \<open>StoreSource\<close>: a read error and a panic
  of the lookup give no group.\<close>

definition stored_group :: "disk \<times> group_store \<Rightarrow> u64 \<Rightarrow> bytes list option" where
  "stored_group w q =
     (case source_group (fst w) (snd w) q metrics_default of Inr (r, _) \<Rightarrow> r | Inl _ \<Rightarrow> None)"

definition store_serves :: "disk \<times> group_store \<Rightarrow> history \<Rightarrow> bool" where
  "store_serves w sent \<longleftrightarrow> (\<exists>rss b. store_ok (fst w) (snd w) rss b \<and> holds rss sent)"

lemma stored_group_read:
  assumes "store_ok d st rss b"
  shows "stored_group (d, st) q = contents rss q"
proof -
  have rep: "rep d st rss" "granted d" using assms by (simp_all add: store_ok_def)
  note rd = rep_read [OF rep, of q]
  show ?thesis
  proof (cases "contents rss q")
    case None
    then have "locate st q = Inr None" using rd by (auto simp: read_def split: option.splits)
    then show ?thesis using None by (simp add: stored_group_def source_group_def)
  next
    case (Some fs)
    then obtain loc where "locate st q = Inr (Some loc)" "read_group_at d loc q = Inr fs"
      using rd by (auto simp: read_def split: option.splits)
    then show ?thesis using Some by (simp add: stored_group_def source_group_def)
  qed
qed

interpretation disk_source: group_source store_serves stored_group "\<lambda>w. source_oldest (snd w)"
proof unfold_locales
  fix w sent q fs
  assume "store_serves w sent" "stored_group w q = Some fs"
  then obtain rss b where ok: "store_ok (fst w) (snd w) rss b" "holds rss sent" and c: "contents rss q = Some fs"
    using stored_group_read [of "fst w" "snd w"] by (auto simp: store_serves_def)
  show "fs = sent q" using ok(2) c by (simp add: holds_def)
  have rep: "rep (fst w) (snd w) rss" using ok(1) by (simp add: store_ok_def)
  have "om_get (index (snd w)) q \<noteq> None" using rep_index(1) [OF rep, of q] c by simp
  then have "index (snd w) \<noteq> []" by auto
  then obtain k where k: "om_first (index (snd w)) = Some k" by (cases "om_first (index (snd w))") auto
  then show "\<exists>k. source_oldest (snd w) = Some k \<and> k \<le> q"
    using om_first_le [OF rep_index(2) [OF rep] k] \<open>om_get (index (snd w)) q \<noteq> None\<close>
    by (auto simp: source_oldest_def oldest_seq_def)
qed

section \<open>Resuming\<close>

lemma track_oldest_le:
  assumes "h \<in> set (live tr)"
  shows "\<exists>f. track_oldest tr = Some f \<and> f \<le> hseq h"
proof -
  have fold: "foldl min s ss \<le> x" if "x \<in> set (s # ss)" for s x :: u64 and ss
    using that
  proof (induction ss arbitrary: s x)
    case (Cons y ss)
    have "foldl min (min s y) ss \<le> min s y" using Cons.IH [of "min s y" "min s y"] by simp
    then show ?case using Cons.IH [of x "min s y"] Cons.prems by auto
  qed simp
  obtain s ss where ss: "map hseq (live tr) = s # ss" using assms by (cases "map hseq (live tr)") auto
  have "hseq h \<in> set (map hseq (live tr))" using assms by simp
  then show ?thesis using fold [of "hseq h" s ss] unfolding ss by (simp add: track_oldest_def ss)
qed

text \<open>resuming is complete and exact: a subscriber that asks for a sequence below the live cache
  first gets, in ascending order, exactly the stored groups from there up to the cache, each with
  the frames published under it, and none that the cache will serve; the loop ends, unless a group
  exceeds what a group caches.\<close>

theorem resume_complete:
  assumes "relay_run cfg d (Some p) sent" "pstore p = Some st" "\<And>q. fits_cache (sent q)"
    and "backfill (\<lambda>_. track_oldest (ptrack p)) (\<lambda>_. stored_group (d, st)) 0
      (backfill_start requested (source_oldest st)) = (out, e, n)"
  shows "\<exists>cache_floor. track_oldest (ptrack p) = Some cache_floor \<and> e = Served \<and>
    sorted_wrt (<) (map fst out) \<and> (\<forall>(q, fs) \<in> set out. fs = sent q) \<and>
    fst ` set out = {q. requested \<le> q \<and> q < cache_floor \<and> read d st q \<noteq> Inr None} \<and>
    fst ` set out \<inter> hseq ` set (live (ptrack p)) = {}"
proof -
  note ok = relay_up [OF assms(1), THEN conjunct2, unfolded pub_ok_def]
  then obtain rss b where st: "store_ok d st rss b" "holds rss sent" using assms(2) by auto
  have serves: "store_serves (d, st) sent" using st by (auto simp: store_serves_def)
  have rd: "read d st q = Inr (stored_group (d, st) q)" for q
    using rep_read [of d st rss q] st(1) stored_group_read [OF st(1)] by (simp add: store_ok_def)
  from ok track_oldest_le obtain floor where fl: "track_oldest (ptrack p) = Some floor" by blast
  note run = disk_source.backfill_run [where world = "\<lambda>_. (d, st)", OF assms(4) serves assms(3)]
  have start: "requested \<le> backfill_start requested (source_oldest st)"
    by (simp add: backfill_start_def split: option.split)
  have low: "backfill_start requested (source_oldest st) \<le> q" if "requested \<le> q" "stored_group (d, st) q \<noteq> None" for q
    using disk_source.above_floor [OF serves] that by (force simp: backfill_start_def)
  have "fst ` set out = {q. requested \<le> q \<and> q < floor \<and> stored_group (d, st) q \<noteq> None}"
  proof (intro set_eqI iffI)
    fix q
    assume "q \<in> fst ` set out"
    then obtain fs where "(q, fs) \<in> set out" by auto
    then show "q \<in> {q. requested \<le> q \<and> q < floor \<and> stored_group (d, st) q \<noteq> None}"
      using run fl start by fastforce
  next
    fix q
    assume q: "q \<in> {q. requested \<le> q \<and> q < floor \<and> stored_group (d, st) q \<noteq> None}"
    have "floor \<le> n" using run fl by auto
    then show "q \<in> fst ` set out" using run q low [of q] by auto
  qed
  moreover have "floor \<le> hseq h" if "h \<in> set (live (ptrack p))" for h using track_oldest_le [OF that] fl by auto
  then have "fst ` set out \<inter> hseq ` set (live (ptrack p)) = {}" using calculation by (auto simp: not_less [symmetric])
  moreover have "\<forall>(q, fs) \<in> set out. fs = sent q"
    using run disk_source.faithful [OF serves] by blast
  ultimately show ?thesis using run fl unfolding rd by auto
qed

text \<open>Two more frames, much later: both finished groups have left the cache.\<close>

definition relay4 :: "disk \<times> publisher" where
  "relay4 = fst (publish [3] 2 8000 6000 (fst relay3) (snd relay3))"

definition relay5 :: "disk \<times> publisher" where
  "relay5 = fst (publish [4] 2 8001 6001 (fst relay4) (snd relay4))"

definition sent5 :: history where
  "sent5 = (\<lambda>_. [])(0 := [[1], [2]], 1 := [[3], [4]])"

lemma relay5_seqs:
  "hseq (pgroup (snd relay3)) = 1" "pframes (snd relay3) = []"
  "hseq (pgroup (snd relay4)) = 1" "pframes (snd relay4) = [[3]]" "pcount (snd relay4) = 1"
proof -
  have "(case relay3 of (d, p) \<Rightarrow> (hseq (pgroup p), pframes p)) = (1, [])"
    "(case relay4 of (d, p) \<Rightarrow> (hseq (pgroup p), pframes p, pcount p)) = (1, [[3]], 1)" by code_simp+
  then show "hseq (pgroup (snd relay3)) = 1" "pframes (snd relay3) = []"
    "hseq (pgroup (snd relay4)) = 1" "pframes (snd relay4) = [[3]]" "pcount (snd relay4) = 1" by (simp_all add: case_prod_beta)
qed

text \<open>What the fifth sample holds, evaluated once.\<close>

lemma relay5_facts:
  "hseq (pgroup (snd relay5)) = 2" "pframes (snd relay5) = []" "\<exists>st. pstore (snd relay5) = Some st"
  "source_oldest (the (pstore (snd relay5))) = Some 0" "track_oldest (ptrack (snd relay5)) = Some 2"
  "stored_group (fst relay5, the (pstore (snd relay5))) 1 = Some [[3], [4]]"
  "read (fst relay5) (the (pstore (snd relay5))) 1 \<noteq> Inr None"
proof -
  have "(case relay5 of (d, p) \<Rightarrow>
      (case pstore p of None \<Rightarrow> None | Some st \<Rightarrow> Some (hseq (pgroup p), pframes p, source_oldest st,
        track_oldest (ptrack p), stored_group (d, st) 1, read d st 1 \<noteq> Inr None))) =
    Some (2, [], Some 0, Some 2, Some [[3], [4]], True)" by code_simp
  then show "hseq (pgroup (snd relay5)) = 2" "pframes (snd relay5) = []" "\<exists>st. pstore (snd relay5) = Some st"
    "source_oldest (the (pstore (snd relay5))) = Some 0" "track_oldest (ptrack (snd relay5)) = Some 2"
    "stored_group (fst relay5, the (pstore (snd relay5))) 1 = Some [[3], [4]]"
    "read (fst relay5) (the (pstore (snd relay5))) 1 \<noteq> Inr None"
    by (auto simp: case_prod_beta split: option.splits)
qed

lemma relay4_publish:
  "publish [4] 2 8001 6001 (fst relay4) (snd relay4) =
    ((fst relay5, snd relay5), snd (publish [4] 2 8001 6001 (fst relay4) (snd relay4)))"
  by (simp add: relay5_def)

lemma relay4_run: "relay_run None (fst relay4) (Some (snd relay4)) (sent3(1 := [[3]]))"
proof -
  have "publish [3] 2 8000 6000 (fst relay3) (snd relay3) =
      ((fst relay4, snd relay4), snd (publish [3] 2 8000 6000 (fst relay3) (snd relay3)))"
    by (simp add: relay4_def)
  from relay_run.wrote [OF relay3_run _ this] show ?thesis
    by (simp add: published_def relay5_seqs small_rec sent3_def)
qed

lemma relay5_run: "relay_run None (fst relay5) (Some (snd relay5)) sent5"
  using relay_run.wrote [OF relay4_run _ relay4_publish]
  by (simp add: published_def relay5_seqs small_rec sent3_def sent5_def)

theorem resume_complete_witness:
  "\<exists>out e n. backfill (\<lambda>_. track_oldest (ptrack (snd relay5)))
     (\<lambda>_. stored_group (fst relay5, the (pstore (snd relay5)))) 0
     (backfill_start 1 (source_oldest (the (pstore (snd relay5))))) = (out, e, n) \<and>
     e = Served \<and> out = [(1, [[3], [4]])]"
proof -
  let ?st = "the (pstore (snd relay5))"
  let ?b = "backfill (\<lambda>_. track_oldest (ptrack (snd relay5))) (\<lambda>_. stored_group (fst relay5, ?st)) 0
     (backfill_start 1 (source_oldest ?st))"
  have st: "pstore (snd relay5) = Some ?st" using relay5_facts(3) by auto
  have fits: "fits_cache (sent5 q)" for q
    by (simp add: sent5_def fits_cache_def MAX_GROUP_CACHE_def MAX_GROUP_FRAMES_def)
  obtain out e n where b: "?b = (out, e, n)" by (metis prod_cases3)
  from resume_complete [OF relay5_run st fits b] relay5_facts(5) have r: "e = Served" "sorted_wrt (<) (map fst out)"
    "\<forall>(q, fs) \<in> set out. fs = sent5 q"
    "fst ` set out = {q. 1 \<le> q \<and> q < 2 \<and> read (fst relay5) ?st q \<noteq> Inr None}" by auto
  have "read (fst relay5) ?st 1 \<noteq> Inr None" by (rule relay5_facts(7))
  moreover have "q = 1" if "1 \<le> q" "q < 2" for q :: u64
  proof -
    have "unat q = 1" using that by (simp add: word_le_nat_alt word_less_nat_alt)
    then show ?thesis by (metis unsigned_1 word_unat_eq_iff)
  qed
  ultimately have one: "fst ` set out = {1}" unfolding r(4) by auto
  obtain x xs where out: "out = x # xs" using one by (cases out) auto
  have "fst y = 1" if "y \<in> set out" for y using one that by blast
  then have "xs = []" "fst x = 1" using r(2) by (cases xs; simp add: out)+
  then have "out = [(1, [[3], [4]])]" using r(3) by (cases x) (simp add: out sent5_def)
  then show ?thesis using b r(1) by simp
qed

section \<open>Groups larger than the cache\<close>

text \<open>C39: a stored group of more frames or bytes than the cache of a group holds cannot be replayed: the
  producer made from it has already dropped its first frames, so serving it fails at the first one
  and the subscription ends there, however often it resumes.\<close>

theorem oversized_group_ends_resume:
  assumes "store_run d st c b" "c q = Some fs" "q < cache_floor"
    and "MAX_GROUP_FRAMES < length fs \<or> MAX_GROUP_CACHE < sum_list (map length fs)"
  shows "backfill (\<lambda>_. Some cache_floor) (\<lambda>_. stored_group (d, st)) 0 (backfill_start q (source_oldest st)) =
    ([(q, [])], Failed CacheFull, q)"
proof -
  from store_run_ok [OF assms(1)] obtain rss where st: "store_ok d st rss b" "contents rss = c" by blast
  then have serves: "store_serves (d, st) (\<lambda>q. case c q of None \<Rightarrow> [] | Some fs \<Rightarrow> fs)"
    by (auto simp: store_serves_def holds_def)
  have got: "stored_group (d, st) q = Some fs" using stored_group_read [OF st(1)] st(2) assms(2) by simp
  from disk_source.above_floor [OF serves got] have "backfill_start q (source_oldest st) = q"
    by (auto simp: backfill_start_def max_def)
  moreover have "\<not> fits_cache fs" using assms(4) by (auto simp: fits_cache_def)
  moreover have "\<not> cache_floor \<le> q" using assms(3) by simp
  ultimately show ?thesis using got by (simp add: backfill_step [of _ _ 0 q])
qed

theorem oversized_group_ends_resume_witness:
  "\<exists>d st. store_run d st [5 \<mapsto> [[1, 2], [3]], 7 \<mapsto> replicate 1025 []] 8 \<and>
     backfill (\<lambda>_. Some 9) (\<lambda>_. stored_group (d, st)) 0 (backfill_start 7 (source_oldest st)) =
       ([(7, [])], Failed CacheFull, 7)"
proof -
  let ?fs = "replicate 1025 [] :: bytes list"
  from store_run_ok [OF life4_run] obtain rss where ok: "store_ok (fst life4) (snd life4) rss 7" by blast
  have rec: "rec_ok True (7, 9, ?fs)" by (simp add: rec_ok_def frame_ok_def frames_body_def length_concat sum_list_replicate)
  from append_ok [OF ok _ rec] obtain d st where
    "append_group 7 9 ?fs (fst life4) (snd life4) = ((d, st), Inr ())" by auto
  from store_run.append [OF life4_run _ rec this] have
    run: "store_run d st [5 \<mapsto> [[1, 2], [3]], 7 \<mapsto> ?fs] 8" by simp
  from oversized_group_ends_resume [OF run, of 7 ?fs 9] run show ?thesis
    by (auto simp: MAX_GROUP_FRAMES_def)
qed

end
