(* ===== verification/Relay_Steps.thy ===== *)
theory Relay_Steps
  imports Publisher_Properties
begin

text \<open>
  A relay while it is up: what may happen to the directory, the publisher and the history of what was
  published in one step of the main loop, whatever the order: a frame is published, old groups are
  collected, a counter changes, a state file that is not the publisher's is written.
\<close>

section \<open>A relay while it is up\<close>

type_synonym relay = "disk \<times> publisher \<times> history"

inductive run_step :: "string option \<Rightarrow> relay \<Rightarrow> relay \<Rightarrow> bool" for cfg where
  wrote: "(\<forall>s ms. rec_ok True (s, ms, pframes p @ [data])) \<Longrightarrow>
    publish data group_size now_ms now d p = ((d', p'), res) \<Longrightarrow>
    run_step cfg (d, p, sent) (d', p', published p data sent)"
| collect: "publisher_gc now_ms window_secs max_bytes d p = (d', p') \<Longrightarrow> run_step cfg (d, p, sent) (d', p', sent)"
| count: "run_step cfg (d, p, sent) (d, p\<lparr>pmetrics := m\<rparr>, sent)"
| state_file: "elsewhere d d' \<Longrightarrow> room d' = None \<Longrightarrow>
    load_group_seq d' (default_seq_file cfg) = load_group_seq d (default_seq_file cfg) \<Longrightarrow>
    run_step cfg (d, p, sent) (d', p, sent)"

inductive_cases run_stepE [consumes 1, case_names wrote collect count state_file]: "run_step cfg (d, p, sent) w'"

definition up :: "string option \<Rightarrow> relay \<Rightarrow> bool" where
  "up cfg w \<longleftrightarrow> (case w of (d, p, sent) \<Rightarrow> relay_run cfg d (Some p) sent)"

definition w_disk :: "relay \<Rightarrow> disk" where
  "w_disk w = fst w"

definition w_publisher :: "relay \<Rightarrow> publisher" where
  "w_publisher w = fst (snd w)"

definition w_sent :: "relay \<Rightarrow> history" where
  "w_sent w = snd (snd w)"

lemmas w_simps = w_disk_def w_publisher_def w_sent_def

lemma run_step_up: "run_step cfg w w' \<Longrightarrow> up cfg w \<Longrightarrow> up cfg w'"
  by (induction rule: run_step.induct) (auto simp: up_def intro: relay_run.intros)

lemma steps_up: "(run_step cfg)\<^sup>*\<^sup>* w w' \<Longrightarrow> up cfg w \<Longrightarrow> up cfg w'"
  by (induction rule: rtranclp_induct) (auto intro: run_step_up)

end
