(* ===== verification/Resume.thy ===== *)
theory Resume
  imports Backfill Relay_Steps
begin

text \<open>
  Resuming while the relay goes on: between two turns of the replay loop the relay may publish, rotate,
  collect groups and persist its state any number of times (\<open>Relay_Steps.run_step\<close>). The floor of the cache only
  rises meanwhile, a stored group never changes, and so the replay meets the live cache without a gap
  and without an overlap.
\<close>

section \<open>What a subscriber sees\<close>

text \<open>What a subscriber sees of the relay in one turn.\<close>

definition w_floor :: "relay \<Rightarrow> u64 option" where
  "w_floor w = track_oldest (ptrack (w_publisher w))"

definition w_stored :: "relay \<Rightarrow> u64 \<Rightarrow> bytes list option" where
  "w_stored w = stored_group (w_disk w, the (pstore (w_publisher w)))"

section \<open>What a step changes\<close>

lemma track_oldest_in:
  assumes "track_oldest t = Some k"
  shows "\<exists>g \<in> set (live t). hseq g = k"
proof -
  have fold: "foldl min s ss \<in> set (s # ss)" for s :: u64 and ss
    by (induction ss arbitrary: s) (auto simp: min_def)
  obtain s ss where ss: "map hseq (live t) = s # ss" using assms
    by (cases "map hseq (live t)") (simp_all add: track_oldest_def)
  then have "k \<in> set (map hseq (live t))" using assms fold [of s ss] by (simp add: track_oldest_def)
  then show ?thesis by auto
qed

lemma track_oldest_least:
  assumes "track_oldest tr = Some f" "set (live tr') \<subseteq> insert h (set (live tr))" "\<And>g. g \<in> set (live tr) \<Longrightarrow> hseq g \<le> hseq h"
    "live tr' \<noteq> []"
  shows "\<exists>f'. track_oldest tr' = Some f' \<and> f \<le> f'"
proof -
  obtain f' where f': "track_oldest tr' = Some f'" using assms(4) track_oldest_le [of "hd (live tr')" tr'] by auto
  from track_oldest_in [OF this] obtain g where g: "g \<in> set (live tr')" "hseq g = f'" by blast
  have low: "f \<le> hseq k" if "k \<in> set (live tr)" for k using track_oldest_le [OF that] assms(1) by auto
  obtain k where "k \<in> set (live tr)" using track_oldest_in [OF assms(1)] by blast
  then have "f \<le> hseq h" using low assms(3) by (meson order_trans)
  then show ?thesis using f' g low assms(2) by auto
qed

lemma rotate_track:
  assumes "rotate now_ms now d p = ((d', p'), res)" "track_ok (ptrack p)" "tmax (ptrack p) \<noteq> None"
  shows "ptrack p' = ptrack p \<and> pgroup p' = pgroup p \<or>
    pgroup p' \<in> set (live (ptrack p')) \<and> set (live (ptrack p')) \<subseteq> insert (pgroup p') (set (live (ptrack p))) \<and>
    the (tmax (ptrack p)) < hseq (pgroup p')"
proof (cases "append_group_at (length (pheap p)) now (ptrack p)")
  case (Inl e)
  then show ?thesis using assms(1) by (simp add: rotate_def)
next
  case (Inr x)
  obtain h tr where x: "x = (h, tr)" by (cases x)
  note app = append_group_push [OF assms(2) Inr [unfolded x]]
  then obtain P where P: "live tr = filter P (live (ptrack p) @ [h])" "\<And>g. hseq g = hseq h \<Longrightarrow> P g"
    using push_group_live [OF assms(2), of h now "hseq h"] by metis
  have "ptrack p' = tr \<and> pgroup p' = h"
    using assms(1) by (auto simp: rotate_def Inr x store_finished_def Let_def split: sum.splits option.splits prod.splits)
  then show ?thesis using P app assms(3) by auto
qed

lemma publish_track:
  assumes "publish data n now_ms now d p = ((d', p'), res)" "pub_ok file d p sent"
  shows "hseq (pgroup p) \<le> hseq (pgroup p') \<and>
    (\<forall>f. track_oldest (ptrack p) = Some f \<longrightarrow> (\<exists>f'. track_oldest (ptrack p') = Some f' \<and> f \<le> f'))"
proof -
  let ?frames = "if pstore p \<noteq> None then pframes p @ [data] else pframes p"
  have ok: "track_ok (ptrack p)" "tmax (ptrack p) = Some (hseq (pgroup p))"
    using assms(2) by (simp_all add: pub_ok_def cache_ok_def)
  have max: "hseq g \<le> hseq (pgroup p)" if "g \<in> set (live (ptrack p))" for g
    using ok that by (auto simp: track_ok_def)
  from assms(1) consider "ptrack p' = ptrack p" "pgroup p' = pgroup p"
    | heap where "rotate now_ms now d (p\<lparr>pheap := heap, pframes := ?frames, pcount := pcount p + 1\<rparr>) = ((d', p'), res)"
    by (auto simp: publish_def Let_def split: sum.splits if_splits)
  then show ?thesis
  proof cases
    case 2
    from rotate_track [OF this] ok consider "ptrack p' = ptrack p" "pgroup p' = pgroup p"
      | "pgroup p' \<in> set (live (ptrack p'))" "set (live (ptrack p')) \<subseteq> insert (pgroup p') (set (live (ptrack p)))"
        "hseq (pgroup p) < hseq (pgroup p')" by auto
    then show ?thesis
    proof cases
      case 2
      have "hseq g \<le> hseq (pgroup p')" if "g \<in> set (live (ptrack p))" for g using max [OF that] 2(3) by simp
      moreover have "live (ptrack p') \<noteq> []" using 2(1) by auto
      ultimately show ?thesis using track_oldest_least [OF _ 2(2)] 2(3) by auto
    qed auto
  qed auto
qed

text \<open>One step: finished groups are never touched, and the floor does not fall.\<close>

lemma run_step_facts:
  assumes "run_step cfg w w'" "up cfg w"
  shows "hseq (pgroup (w_publisher w)) \<le> hseq (pgroup (w_publisher w'))"
    and "q < hseq (pgroup (w_publisher w)) \<Longrightarrow> w_sent w' q = w_sent w q"
    and "w_floor w = Some f \<Longrightarrow> \<exists>f'. w_floor w' = Some f' \<and> f \<le> f'"
proof -
  obtain d p sent where w: "w = (d, p, sent)" by (cases w)
  have ok: "pub_ok (seq_name cfg) d p sent" "good_file (seq_name cfg)"
    using relay_up [of cfg d p sent] assms(2) by (simp_all add: up_def w)
  have "hseq (pgroup p) \<le> hseq (pgroup (w_publisher w')) \<and>
      (\<forall>q. q < hseq (pgroup p) \<longrightarrow> w_sent w' q = sent q) \<and>
      (\<forall>f. track_oldest (ptrack p) = Some f \<longrightarrow> (\<exists>f'. w_floor w' = Some f' \<and> f \<le> f'))"
    using assms(1) unfolding w
  proof (cases rule: run_stepE)
    case (wrote data group_size now_ms now d' p' res)
    then show ?thesis using publish_track [OF wrote(3) ok(1)] by (simp add: w_simps w_floor_def published_def)
  next
    case (collect now_ms window_secs max_bytes d' p')
    then have "ptrack p' = ptrack p"
      by (auto simp: publisher_gc_def Let_def split: option.splits prod.splits if_splits)
    then show ?thesis using publisher_gc_ok(2) [OF ok collect(2)] collect(1) by (auto simp: w_simps w_floor_def)
  qed (auto simp: w_simps w_floor_def)
  then show "hseq (pgroup (w_publisher w)) \<le> hseq (pgroup (w_publisher w'))"
    "q < hseq (pgroup (w_publisher w)) \<Longrightarrow> w_sent w' q = w_sent w q"
    "w_floor w = Some f \<Longrightarrow> \<exists>f'. w_floor w' = Some f' \<and> f \<le> f'"
    by (simp_all add: w w_simps w_floor_def)
qed

section \<open>Any number of steps\<close>

lemma steps_facts:
  assumes "(run_step cfg)\<^sup>*\<^sup>* w w'" "up cfg w"
  shows "up cfg w' \<and> hseq (pgroup (w_publisher w)) \<le> hseq (pgroup (w_publisher w')) \<and>
    (\<forall>q. q < hseq (pgroup (w_publisher w)) \<longrightarrow> w_sent w' q = w_sent w q) \<and>
    (\<forall>f. w_floor w = Some f \<longrightarrow> (\<exists>f'. w_floor w' = Some f' \<and> f \<le> f'))"
  using assms
proof (induction rule: rtranclp_induct)
  case (step y z)
  note f = run_step_facts [OF step.hyps(2)]
  have up: "up cfg y" using step.IH step.prems by blast
  have "w_sent z q = w_sent w q" if "q < hseq (pgroup (w_publisher w))" for q
    using step.IH step.prems f(2) [OF up, of q] that by (metis order_less_le_trans)
  moreover have "\<exists>f'. w_floor z = Some f' \<and> k \<le> f'" if "w_floor w = Some k" for k
    using step.IH step.prems f(3) [OF up] that by (meson order_trans)
  ultimately show ?case using step.IH step.prems run_step_up [OF step.hyps(2) up] f(1) [OF up]
    by (meson order_trans)
qed auto

lemma chain_steps: "(\<And>i. r\<^sup>*\<^sup>* (w i) (w (Suc i))) \<Longrightarrow> i \<le> j \<Longrightarrow> r\<^sup>*\<^sup>* (w i) (w j)"
  by (induction j) (auto simp: le_Suc_eq intro: rtranclp_trans)

lemma steps_between:
  assumes "up cfg (w 0)" "\<forall>i. (run_step cfg)\<^sup>*\<^sup>* (w i) (w (Suc i))"
  shows "i \<le> j \<Longrightarrow> (run_step cfg)\<^sup>*\<^sup>* (w i) (w j)" and "up cfg (w i)"
proof -
  show "i \<le> j \<Longrightarrow> (run_step cfg)\<^sup>*\<^sup>* (w i) (w j)" for i j
    by (rule chain_steps) (use assms(2) in blast)
  from steps_facts [OF this [of 0 i, OF le0] assms(1)] show "up cfg (w i)" by simp
qed

lemma stored_facts:
  assumes "up cfg w" "w_stored w q = Some fs"
  shows "fs = w_sent w q \<and> q < hseq (pgroup (w_publisher w)) \<and>
    (\<exists>k. source_oldest (the (pstore (w_publisher w))) = Some k \<and> k \<le> q)"
proof -
  obtain d p sent where w: "w = (d, p, sent)" by (cases w)
  have "pub_ok (seq_name cfg) d p sent" using relay_up [of cfg d p sent] assms(1) by (simp add: up_def w)
  then obtain st rss b where st: "pstore p = Some st" "store_ok d st rss b" "b \<le> unat (hseq (pgroup p))" "holds rss sent"
    by (auto simp: pub_ok_def)
  have q: "stored_group (d, st) q = Some fs" using assms(2) by (simp add: w w_simps w_stored_def st(1))
  then have "contents rss q = Some fs" using stored_group_read [OF st(2)] by simp
  then have "fs = sent q" "unat q < b"
    using st(4) contents_bound [of b rss q fs] st(2) by (simp_all add: holds_def store_ok_def)
  moreover have "store_serves (d, st) sent" using st by (auto simp: store_serves_def)
  ultimately show ?thesis using disk_source.above_floor [OF _ q] st(1,3)
    by (auto simp: w w_simps word_less_nat_alt)
qed

lemma floor_exists:
  assumes "up cfg w"
  shows "\<exists>f. w_floor w = Some f \<and> f \<le> hseq (pgroup (w_publisher w)) \<and>
    (\<forall>h \<in> set (live (ptrack (w_publisher w))). f \<le> hseq h)"
proof -
  obtain d p sent where w: "w = (d, p, sent)" by (cases w)
  have "pgroup p \<in> set (live (ptrack p))" using relay_up [of cfg d p sent] assms by (simp add: up_def w pub_ok_def)
  from track_oldest_le [OF this] obtain f where f: "track_oldest (ptrack p) = Some f" "f \<le> hseq (pgroup p)" by blast
  moreover have "f \<le> hseq h" if "h \<in> set (live (ptrack p))" for h using track_oldest_le [OF that] f(1) by auto
  ultimately show ?thesis by (simp add: w w_simps w_floor_def)
qed

section \<open>A subscription\<close>

text \<open>What a subscriber is sent: the groups replayed from the source, how the replay ended, and the groups of
  the live cache that follow, as the cache is in the turn in which the replay ends.\<close>

definition start_consumer :: "'src track \<Rightarrow> u64 option \<Rightarrow> consumer" where
  "start_consumer tr start_group =
     (case start_group of
        Some q \<Rightarrow> start_at q consume
      | None \<Rightarrow> (case track_latest tr of Some q \<Rightarrow> start_at q consume | None \<Rightarrow> consume))"

definition live_groups :: "'src track \<Rightarrow> consumer \<Rightarrow> handle list" where
  "live_groups tr c = fst (recv_n (length (tgroups tr)) tr c)"

definition run_track :: "u64 option \<Rightarrow> (nat \<Rightarrow> 'src track) \<Rightarrow>
    (u64 option \<times> (nat \<Rightarrow> u64 \<Rightarrow> bytes list option)) option \<Rightarrow> (u64 \<times> bytes list) list \<times> serve_end \<times> handle list" where
  "run_track start_group track_at source =
     (let c = start_consumer (track_at 0) start_group in
      case (start_group, source) of
        (Some requested, Some (oldest, get)) \<Rightarrow>
          (let first = backfill_start requested oldest in
           case backfill (\<lambda>i. track_oldest (track_at i)) get 0 first of
             (out, Served, nxt) \<Rightarrow> (out, Served, live_groups (track_at (unat nxt - unat first)) c)
           | (out, e, nxt) \<Rightarrow> (out, e, []))
      | _ \<Rightarrow> ([], Served, live_groups (track_at 0) c))"

lemma live_groups_from: "live_groups tr (start_at q consume) = filter (\<lambda>h. q \<le> hseq h) (live tr)"
  using recv_n_live [OF order_refl, of tr "start_at q consume"]
  by (simp add: live_groups_def start_at_def consume_def live_live_of)

lemma serve_live: "group_ok fs g \<Longrightarrow> fst (serve_group g 0) \<in> {[], fs}"
proof (cases "goffset g = 0")
  case True
  assume ok: "group_ok fs g"
  have "fst (serve_group g i) = drop i fs" for i
  proof (induction "length fs - i" arbitrary: i)
    case (0 i)
    then have "get_at (gframes g) i = None" using ok True by (simp add: group_ok_def)
    then have "group_read_frame g i = (r, j) \<Longrightarrow> r \<noteq> Ready (Inr (Some f))" for r j f
      using True by (auto simp: group_read_frame_def group_poll_get_frame_def group_poll_def
          simp del: get_at_None split: poll.splits option.splits if_splits)
    then show ?case using 0 by (auto simp: serve_group.simps [of g i] split: prod.splits poll.splits sum.splits option.splits)
  next
    case (Suc n i)
    then have "get_at (gframes g) i = Some (fs ! i)" using ok True by (simp add: group_ok_def)
    then have "group_read_frame g i = (Ready (Inr (Some (fs ! i))), Suc i)"
      using True by (simp add: group_read_frame_def group_poll_get_frame_def group_poll_def del: get_at_Some)
    moreover have "drop i fs = fs ! i # drop (Suc i) fs" using Suc.hyps(2) by (simp add: Cons_nth_drop_Suc)
    ultimately show ?case using Suc by (simp add: serve_group.simps [of g i] case_prod_beta)
  qed
  from this [of 0] show ?thesis by simp
next
  case False
  then have "group_read_frame g 0 = (Ready (Inl CacheFull), 0)"
    by (simp add: group_read_frame_def group_poll_get_frame_def group_poll_def)
  then show ?thesis by (simp add: serve_group.simps [of g 0])
qed

section \<open>Resuming while the relay goes on\<close>

lemma replay_over_time:
  assumes "up cfg (w 0)" "\<forall>i. (run_step cfg)\<^sup>*\<^sup>* (w i) (w (Suc i))" "\<forall>i q. fits_cache (w_sent (w i) q)"
    and "backfill (\<lambda>i. w_floor (w i)) (\<lambda>i. w_stored (w i)) 0
      (backfill_start requested (source_oldest (the (pstore (w_publisher (w 0)))))) = (out, e, n)"
  shows "\<exists>N cache_floor. e = Served \<and>
    N = unat n - unat (backfill_start requested (source_oldest (the (pstore (w_publisher (w 0)))))) \<and> w_floor (w N) = Some cache_floor \<and> sorted_wrt (<) (map fst out) \<and>
    (\<forall>(q, fs) \<in> set out. requested \<le> q \<and> q < cache_floor \<and> fs = w_sent (w N) q) \<and>
    (\<forall>q. requested \<le> q \<and> q < cache_floor \<and> (\<forall>i \<le> N. w_stored (w i) q \<noteq> None) \<longrightarrow> q \<in> fst ` set out) \<and>
    (\<forall>h \<in> set (live (ptrack (w_publisher (w N)))). hseq h \<notin> fst ` set out)"
proof -
  let ?old = "source_oldest (the (pstore (w_publisher (w 0))))"
  let ?s = "backfill_start requested ?old"
  note steps = steps_between(1) [OF assms(1,2)] and up = steps_between(2) [OF assms(1,2)]
  note mono = steps_facts [OF steps up]
  have fit: "\<forall>k q fs. w_stored (w k) q = Some fs \<longrightarrow> fits_cache fs"
    using stored_facts [OF up] assms(3) by metis
  obtain m where
    m: "e = Served" "unat n = unat ?s + m" "\<And>f. w_floor (w m) = Some f \<Longrightarrow> f \<le> n"
      "\<And>k. k < m \<Longrightarrow> unat (?s + word_of_nat k) = unat ?s + k \<and> (\<exists>f. w_floor (w k) = Some f \<and> ?s + word_of_nat k < f)"
      "sorted_wrt (<) (map fst out)"
    and mem: "\<And>q fs. (q, fs) \<in> set out \<longleftrightarrow> (\<exists>k < m. q = ?s + word_of_nat k \<and> w_stored (w k) q = Some fs)"
    by (rule backfill_served [OF assms(4) fit, unfolded add_0]) (rule that; assumption)
  from floor_exists [OF up] obtain cf where cf: "w_floor (w m) = Some cf" "cf \<le> hseq (pgroup (w_publisher (w m)))"
    "\<forall>h \<in> set (live (ptrack (w_publisher (w m)))). cf \<le> hseq h" by blast
  have below: "?s + word_of_nat k < cf" if "k < m" for k
  proof -
    from m(4) that obtain f where f: "w_floor (w k) = Some f" "?s + word_of_nat k < f" by blast
    moreover have "f \<le> cf" using mono [of k m] that f(1) cf(1) by auto
    ultimately show ?thesis by simp
  qed
  have start: "requested \<le> ?s" by (simp add: backfill_start_def split: option.split)
  have "requested \<le> q \<and> q < cf \<and> fs = w_sent (w m) q" if "(q, fs) \<in> set out" for q fs
  proof -
    from that obtain k where k: "k < m" "q = ?s + word_of_nat k" "w_stored (w k) q = Some fs" by (auto simp: mem)
    have "?s \<le> q" using m(4) [OF k(1)] by (simp add: k(2) word_le_nat_alt)
    moreover have "w_sent (w m) q = w_sent (w k) q" using mono [of k m] stored_facts [OF up k(3)] k(1) by simp
    ultimately show ?thesis using stored_facts [OF up k(3)] below [OF k(1)] k(2) start by auto
  qed
  moreover have "q \<in> fst ` set out" if q: "requested \<le> q" "q < cf" "\<forall>i \<le> m. w_stored (w i) q \<noteq> None" for q
  proof -
    obtain fs where "w_stored (w 0) q = Some fs" using q(3) by blast
    then have "?s \<le> q" using stored_facts [OF up] q(1) by (fastforce simp: backfill_start_def)
    moreover have "q < n" using m(3) cf(1) q(2) by (meson order_less_le_trans)
    ultimately obtain k where k: "k < m" "q = ?s + word_of_nat k" using turn_of [OF m(2)] by blast
    obtain fs where "w_stored (w k) q = Some fs" using q(3) k(1) by (meson less_imp_le_nat not_None_eq)
    then have "(q, fs) \<in> set out" using k mem by blast
    then show ?thesis by force
  qed
  moreover have "hseq h \<notin> fst ` set out" if "h \<in> set (live (ptrack (w_publisher (w m))))" for h
    using cf(3) that below mem by (force simp: not_le [symmetric])
  ultimately show ?thesis using m(1,2,5) cf(1) by (intro exI [of _ m] exI [of _ cf]) auto
qed

lemma live_ok:
  assumes "up cfg w"
  shows "distinct (map hseq (live (ptrack (w_publisher w))))"
    and "h \<in> set (live (ptrack (w_publisher w))) \<Longrightarrow> group_ok (w_sent w (hseq h)) (pheap (w_publisher w) ! href h)"
  using relay_up [of cfg "w_disk w" "w_publisher w" "w_sent w"] assms
  by (auto simp: up_def w_simps pub_ok_def cache_ok_def track_ok_def split: prod.splits)

text \<open>C4: as long as every group published fits a cached group (at most 1024 frames and 32 MB), then however
  the relay goes on meanwhile, publishing, rotating and collecting between the turns of the replay with
  every write taken by the disk, a subscription from a sequence is sent each group at most once: from disk in ascending order
  and as published, then all groups the cache holds when the replay ends, each above those from disk and
  with the frames published in it; nothing below the cache is missing that stays stored until then; and
  the replay ends.\<close>

theorem resume_over_time:
  assumes "up cfg (w 0)" "\<forall>i. (run_step cfg)\<^sup>*\<^sup>* (w i) (w (Suc i))" "\<forall>i q. fits_cache (w_sent (w i) q)"
    and "run_track (Some requested) (\<lambda>i. ptrack (w_publisher (w i)))
      (Some (source_oldest (the (pstore (w_publisher (w 0)))), \<lambda>i. w_stored (w i))) = (out, e, hs)"
  shows "\<exists>N cache. e = Served \<and> cache = set (live (ptrack (w_publisher (w N)))) \<and>
    sorted_wrt (<) (map fst out) \<and> distinct (map fst out @ map hseq hs) \<and>
    (\<forall>(q, fs) \<in> set out. requested \<le> q \<and> fs = w_sent (w N) q \<and> (\<forall>h \<in> cache. q < hseq h)) \<and>
    set hs = {h \<in> cache. requested \<le> hseq h} \<and>
    (\<forall>h \<in> set hs. fst (serve_group (pheap (w_publisher (w N)) ! href h) 0) \<in> {[], w_sent (w N) (hseq h)}) \<and>
    (\<forall>q. requested \<le> q \<and> (\<forall>h \<in> cache. q < hseq h) \<and> (\<forall>i \<le> N. w_stored (w i) q \<noteq> None) \<longrightarrow> q \<in> fst ` set out)"
proof -
  let ?s = "backfill_start requested (source_oldest (the (pstore (w_publisher (w 0)))))"
  obtain out' e' n where b: "backfill (\<lambda>i. w_floor (w i)) (\<lambda>i. w_stored (w i)) 0 ?s = (out', e', n)" by (metis prod_cases3)
  from replay_over_time [OF assms(1-3) b] obtain N cf where r: "e' = Served" "N = unat n - unat ?s" "w_floor (w N) = Some cf"
    "sorted_wrt (<) (map fst out')" "\<forall>(q, fs) \<in> set out'. requested \<le> q \<and> q < cf \<and> fs = w_sent (w N) q"
    "\<forall>q. requested \<le> q \<and> q < cf \<and> (\<forall>i \<le> N. w_stored (w i) q \<noteq> None) \<longrightarrow> q \<in> fst ` set out'" by blast
  let ?live = "live (ptrack (w_publisher (w N)))"
  have hs: "out = out'" "e = Served" "hs = filter (\<lambda>h. requested \<le> hseq h) ?live"
    using assms(4) b r(1,2) by (simp_all add: run_track_def start_consumer_def live_groups_from w_floor_def)
  note up = steps_between(2) [OF assms(1,2), of N]
  from floor_exists [OF up] r(3) have low: "\<forall>h \<in> set ?live. cf \<le> hseq h" by auto
  from track_oldest_in [of "ptrack (w_publisher (w N))" cf] r(3) obtain k where k: "k \<in> set ?live" "hseq k = cf"
    by (auto simp: w_floor_def)
  have below: "q < hseq h" if "(q, fs) \<in> set out'" "h \<in> set ?live" for q fs h using r(5) low that by fastforce
  have "distinct (map fst out')" using r(4) by (simp add: strict_sorted_iff)
  moreover have "distinct (map hseq hs)" using live_ok(1) [OF up] by (simp add: hs(3) distinct_map_filter)
  ultimately have "distinct (map fst out @ map hseq hs)" using below hs by fastforce
  moreover have "fst (serve_group (pheap (w_publisher (w N)) ! href h) 0) \<in> {[], w_sent (w N) (hseq h)}"
    if "h \<in> set ?live" for h by (rule serve_live [OF live_ok(2) [OF up that]])
  moreover have "q \<in> fst ` set out'"
    if "requested \<le> q" "\<forall>h \<in> set ?live. q < hseq h" "\<forall>i \<le> N. w_stored (w i) q \<noteq> None" for q
    using r(6) that k by blast
  moreover have "\<forall>(q, fs) \<in> set out'. requested \<le> q \<and> fs = w_sent (w N) q \<and> (\<forall>h \<in> set ?live. q < hseq h)"
    using r(5) below by blast
  ultimately show ?thesis using r(1,4) hs by (intro exI [of _ N] exI [of _ "set ?live"]) simp
qed

text \<open>A frame is published while the replay of the fifth sample runs.\<close>

definition relay6 :: "disk \<times> publisher" where
  "relay6 = fst (publish [5] 2 8002 6002 (fst relay5) (snd relay5))"

definition resuming :: "nat \<Rightarrow> relay" where
  "resuming i = (case i of 0 \<Rightarrow> (fst relay5, snd relay5, sent5) | Suc _ \<Rightarrow> (fst relay6, snd relay6, sent5(2 := [[5]])))"

lemma resuming_steps: "up None (resuming 0)" "(run_step None)\<^sup>*\<^sup>* (resuming i) (resuming (Suc i))"
proof -
  show "up None (resuming 0)" using relay5_run by (simp add: up_def resuming_def)
  have "sent5 2 = []" by (simp add: sent5_def)
  moreover have "publish [5] 2 8002 6002 (fst relay5) (snd relay5) =
      ((fst relay6, snd relay6), snd (publish [5] 2 8002 6002 (fst relay5) (snd relay5)))"
    by (simp add: relay6_def)
  ultimately have "run_step None (resuming 0) (resuming 1)"
    using run_step.wrote [of "snd relay5" "[5]" 2 8002 6002 "fst relay5" "fst relay6" "snd relay6" _ None sent5]
    by (simp add: resuming_def published_def small_rec relay5_facts)
  then show "(run_step None)\<^sup>*\<^sup>* (resuming i) (resuming (Suc i))" by (cases i) (auto simp: resuming_def)
qed

theorem resume_over_time_witness:
  "\<exists>hs. run_track (Some 1) (\<lambda>i. ptrack (w_publisher (resuming i)))
     (Some (source_oldest (the (pstore (w_publisher (resuming 0)))), \<lambda>i. w_stored (resuming i))) =
     ([(1, [[3], [4]])], Served, hs) \<and> map hseq hs = [2] \<and> distinct (1 # map hseq hs)"
proof -
  let ?r = "run_track (Some 1) (\<lambda>i. ptrack (w_publisher (resuming i)))
     (Some (source_oldest (the (pstore (w_publisher (resuming 0)))), \<lambda>i. w_stored (resuming i)))"
  have w: "w_stored (resuming 0) = stored_group (fst relay5, the (pstore (snd relay5)))"
    "w_publisher (resuming 0) = snd relay5" "w_publisher (resuming (Suc i)) = snd relay6" for i
    by (simp_all add: w_stored_def w_simps resuming_def)
  have "(case relay6 of (d, p) \<Rightarrow> (track_oldest (ptrack p), map hseq (live (ptrack p)))) = (Some 2, [2])" by code_simp
  then have r6: "track_oldest (ptrack (snd relay6)) = Some 2" "map hseq (live (ptrack (snd relay6))) = [2]"
    by (simp_all add: case_prod_beta)
  from r6(2) obtain h where h: "live (ptrack (snd relay6)) = [h]" "hseq h = 2" by auto
  then have "live_groups (ptrack (snd relay6)) (start_at 1 consume) = [h]" by (simp add: live_groups_from)
  moreover note relay5_facts r6
  moreover have "fits_cache [[3], [4]]" by (simp add: fits_cache_def MAX_GROUP_CACHE_def MAX_GROUP_FRAMES_def)
  ultimately have r: "?r = ([(1, [[3], [4]])], Served, [h])"
    by (simp add: run_track_def start_consumer_def backfill_start_def backfill_step [of _ _ 0]
        backfill_step [of _ _ "Suc 0"] w word_le_nat_alt)
  have fits: "\<forall>i q. fits_cache (w_sent (resuming i) q)"
    by (simp add: w_sent_def resuming_def sent5_def fits_cache_def MAX_GROUP_CACHE_def MAX_GROUP_FRAMES_def split: nat.split)
  have "\<forall>i. (run_step None)\<^sup>*\<^sup>* (resuming i) (resuming (Suc i))" using resuming_steps(2) by blast
  from resume_over_time [OF resuming_steps(1) this fits r] have "distinct (1 # map hseq [h])"
    by simp
  then show ?thesis unfolding r by (simp add: h(2))
qed

end
