(* ===== verification/Durability.thy ===== *)
theory Durability
  imports Resume
begin

text \<open>
  What a directory holds: a group the publisher has finished stays on disk, whatever the relay and its
  restarts do, stopped, killed or cut off in the middle of a write, until a collection drops it together
  with everything older.
\<close>

section \<open>What a start would find\<close>







section \<open>The publisher's operations\<close>






section \<open>Lives\<close>











section \<open>A finished group outlives its relay\<close>




end
