(* ===== verification/Drisl.thy ===== *)
theory Drisl
  imports Utf8 Codec
begin

text \<open>
  The DRISL validator (\<open>rust/crates/atmoq/src/drisl.rs\<close>): one pass over raw bytes that
  returns the end offset of an item or the first violation. Offsets are \<open>usize\<close>, never past
  \<open>data.len() + 9\<close>, hence natural numbers; lengths and counts read from the input are \<open>u64\<close>
  and stay words. An index or slice out of range would panic, so panics are a branch of the
  result, and a property shows they never happen.
\<close>

section \<open>Errors\<close>

record drisl_error =
  err_offset :: nat
  err_message :: string

datatype drisl_fault = Panic | Invalid drisl_error

type_synonym 'a drisl = "drisl_fault + 'a"

definition display_error :: "drisl_error \<Rightarrow> string" where
  "display_error e = ''invalid DRISL at byte '' @ dec (err_offset e) @ '': '' @ err_message e"

definition err :: "nat \<Rightarrow> string \<Rightarrow> 'a drisl" where
  "err off msg = Inl (Invalid \<lparr>err_offset = off, err_message = msg\<rparr>)"

definition MAX_DEPTH :: nat where
  "MAX_DEPTH = 128"

text \<open>\<open>data[i]\<close> and \<open>data[a..b]\<close>, with the panic of an index out of range.\<close>

definition index :: "bytes \<Rightarrow> nat \<Rightarrow> u8 drisl" where
  "index data i = (if i < length data then Inr (data ! i) else Inl Panic)"

definition index_range :: "bytes \<Rightarrow> nat \<Rightarrow> nat \<Rightarrow> bytes drisl" where
  "index_range data a b =
     (if a \<le> b \<and> b \<le> length data then Inr (slice data a b) else Inl Panic)"

section \<open>Initial bytes\<close>

text \<open>\<open>initial >> 5\<close> and \<open>initial & 0x1f\<close>.\<close>

definition major :: "u8 \<Rightarrow> u8" where
  "major b = drop_bit 5 b"

definition info_bits :: "u8 \<Rightarrow> u8" where
  "info_bits b = b AND 0x1f"

text \<open>\<open>for i in 0..width { value = (value << 8) | data[offset + 1 + i] as u64 }\<close>\<close>

fun read_be :: "bytes \<Rightarrow> nat \<Rightarrow> nat \<Rightarrow> u64 \<Rightarrow> u64 drisl" where
  "read_be data pos 0 value = Inr value"
| "read_be data pos (Suc n) value =
     bind_res (index data pos)
       (\<lambda>b. read_be data (Suc pos) n (push_bit 8 value OR ucast b))"

definition minimal :: "u8 \<Rightarrow> u64" where
  "minimal ai =
     (if ai = 24 then 24 else if ai = 25 then 256 else if ai = 26 then 65536 else 4294967296)"

definition read_arg :: "bytes \<Rightarrow> nat \<Rightarrow> string \<Rightarrow> (u64 \<times> nat) drisl" where
  "read_arg data off what =
     bind_res (index data off) (\<lambda>b.
       let ai = info_bits b in
       if ai < 24 then Inr (ucast ai, off + 1)
       else if 27 < ai then
         (if ai = 31 then err off (''indefinite-length '' @ what @ '' is not allowed'')
          else err off (''reserved additional-info value '' @ dec (unat ai)))
       else
         let width = (2::nat) ^ unat (ai - 24) in
         if length data < off + 1 + width then err off (''truncated '' @ what @ '' argument'')
         else
           bind_res (read_be data (off + 1) width 0) (\<lambda>value.
             if value < minimal ai then
               err off (''non-minimal encoding of '' @ what @ '' '' @ dec (unat value) @
                 '' ('' @ dec width @ ''-byte argument)'')
             else Inr (value, off + 1 + width)))"

section \<open>The item validator\<close>

text \<open>\<open>Ord\<close> on byte slices is lexicographic.\<close>

datatype ordering = Less | Equal | Greater

fun cmp_bytes :: "bytes \<Rightarrow> bytes \<Rightarrow> ordering" where
  "cmp_bytes [] [] = Equal"
| "cmp_bytes [] (_ # _) = Less"
| "cmp_bytes (_ # _) [] = Greater"
| "cmp_bytes (x # xs) (y # ys) =
     (if x < y then Less else if y < x then Greater else cmp_bytes xs ys)"

text \<open>\<open>f64::from_be_bytes\<close> read as its bit pattern, with \<open>is_nan\<close> and \<open>is_infinite\<close>.\<close>

definition f64_exponent :: "u64 \<Rightarrow> u64" where
  "f64_exponent w = drop_bit 52 w AND 0x7ff"

definition f64_is_nan :: "u64 \<Rightarrow> bool" where
  "f64_is_nan w \<longleftrightarrow> f64_exponent w = 0x7ff \<and> take_bit 52 w \<noteq> 0"

definition f64_is_infinite :: "u64 \<Rightarrow> bool" where
  "f64_is_infinite w \<longleftrightarrow> f64_exponent w = 0x7ff \<and> take_bit 52 w = 0"

definition f64_from_be :: "bytes \<Rightarrow> u64" where
  "f64_from_be bs = word_of_nat (be_val bs)"

text \<open>The body of a string item: \<open>usize::try_from(len)\<close> and \<open>end.checked_add(len)\<close> on a
  64-bit target.\<close>

definition string_end :: "bytes \<Rightarrow> nat \<Rightarrow> u64 \<Rightarrow> nat option" where
  "string_end data e len =
     (if int e + uint len < 2 ^ 64 \<and> int e + uint len \<le> int (length data)
      then Some (e + unat len) else None)"

text \<open>The array loop and the map loop, over the validator of the nested items.\<close>

fun array_loop :: "(nat \<Rightarrow> nat drisl) \<Rightarrow> nat \<Rightarrow> nat \<Rightarrow> nat drisl" where
  "array_loop item 0 cursor = Inr cursor"
| "array_loop item (Suc n) cursor = bind_res (item cursor) (array_loop item n)"

definition check_order :: "bytes \<Rightarrow> (nat \<times> nat) option \<Rightarrow> nat \<Rightarrow> nat \<Rightarrow> unit drisl" where
  "check_order data prev key_start key_end =
     (case prev of
        None \<Rightarrow> Inr ()
      | Some (ps, pe) \<Rightarrow>
          bind_res (index_range data ps pe) (\<lambda>prev_key.
          bind_res (index_range data key_start key_end) (\<lambda>this_key.
            case cmp_bytes prev_key this_key of
              Equal \<Rightarrow> err key_start ''duplicate map key''
            | Greater \<Rightarrow> err key_start ''map keys are not in bytewise lexicographic order''
            | Less \<Rightarrow> Inr ())))"

fun map_loop ::
  "bytes \<Rightarrow> (nat \<Rightarrow> nat drisl) \<Rightarrow> nat \<Rightarrow> (nat \<times> nat) option \<Rightarrow> nat \<Rightarrow> nat drisl" where
  "map_loop data item 0 prev cursor = Inr cursor"
| "map_loop data item (Suc n) prev cursor =
     (case get_at data cursor of
        None \<Rightarrow> err cursor ''truncated: expected a map key''
      | Some kb \<Rightarrow>
          if major kb \<noteq> 3 then err cursor ''map key is not a text string''
          else
            bind_res (item cursor) (\<lambda>key_end.
            bind_res (check_order data prev cursor key_end) (\<lambda>_.
            bind_res (item key_end) (\<lambda>next.
              map_loop data item n (Some (cursor, key_end)) next))))"

text \<open>Tag 42: the checks after the nested byte string has been validated.\<close>

definition check_cid_prefix :: "bytes \<Rightarrow> nat \<Rightarrow> nat \<Rightarrow> nat drisl" where
  "check_cid_prefix data e content_end =
     bind_res (read_arg data e ''byte string length'') (\<lambda>(_, body_start).
       if content_end = body_start then
         err body_start ''tag 42 CID must start with the 0x00 prefix''
       else
         bind_res (index data body_start) (\<lambda>b.
           if b \<noteq> 0 then err body_start ''tag 42 CID must start with the 0x00 prefix''
           else Inr content_end))"

definition simple_or_float :: "bytes \<Rightarrow> nat \<Rightarrow> u8 \<Rightarrow> nat drisl" where
  "simple_or_float data off initial =
     (if 0xf4 \<le> initial \<and> initial \<le> 0xf6 then Inr (off + 1)
      else if initial = 0xfb then
        (if length data < off + 9 then err off ''truncated float64''
         else
           let f = f64_from_be (slice data (off + 1) (off + 9)) in
           if f64_is_nan f then err off ''NaN is not allowed''
           else if f64_is_infinite f then err off ''infinity is not allowed''
           else Inr (off + 9))
      else if initial = 0xf9 then
        err off ''half-precision float is not allowed (floats must be 64-bit)''
      else if initial = 0xfa then
        err off ''single-precision float is not allowed (floats must be 64-bit)''
      else if initial = 0xf7 then err off ''undefined is not allowed''
      else if initial = 0xff then err off ''unexpected break code''
      else
        let v = (if info_bits initial = 24
                 then (case get_at data (off + 1) of None \<Rightarrow> 0 | Some b \<Rightarrow> b)
                 else info_bits initial) in
        err off (''simple value '' @ dec (unat v) @ '' is not allowed (only false/true/null)''))"

definition validate_string :: "bytes \<Rightarrow> nat \<Rightarrow> u8 \<Rightarrow> nat drisl" where
  "validate_string data off m =
     (let what = (if m = 2 then ''byte string length'' else ''text string length'') in
      bind_res (read_arg data off what) (\<lambda>(len, e).
        case string_end data e len of
          None \<Rightarrow> err (min e (length data)) ''truncated string body''
        | Some stop \<Rightarrow>
            if m = 3 \<and> \<not> utf8_valid (slice data e stop)
            then err e ''text string is not valid UTF-8''
            else Inr stop))"

function validate_item :: "bytes \<Rightarrow> nat \<Rightarrow> nat \<Rightarrow> nat drisl" where
  "validate_item data off depth =
     (if MAX_DEPTH < depth then err off (''nesting deeper than '' @ dec MAX_DEPTH)
      else case get_at data off of
        None \<Rightarrow> err off ''truncated: expected an item''
      | Some initial \<Rightarrow>
          let m = major initial in
          if m = 0 \<or> m = 1 then
            bind_res (read_arg data off (if m = 0 then ''uint'' else ''negint''))
              (\<lambda>(_, e). Inr e)
          else if m = 2 \<or> m = 3 then validate_string data off m
          else if m = 4 then
            bind_res (read_arg data off ''array length'') (\<lambda>(count, e).
              array_loop (\<lambda>c. validate_item data c (depth + 1)) (unat count) e)
          else if m = 5 then
            bind_res (read_arg data off ''map length'') (\<lambda>(count, e).
              map_loop data (\<lambda>c. validate_item data c (depth + 1)) (unat count) None e)
          else if m = 6 then
            bind_res (read_arg data off ''tag'') (\<lambda>(tag, e).
              if tag \<noteq> 42 then
                err off (''tag '' @ dec (unat tag) @ '' is not allowed (only tag 42/CID)'')
              else case get_at data e of
                None \<Rightarrow> err (min e (length data)) ''tag 42 content must be a byte string''
              | Some b \<Rightarrow>
                  if major b \<noteq> 2 then
                    err (min e (length data)) ''tag 42 content must be a byte string''
                  else bind_res (validate_item data e (depth + 1)) (check_cid_prefix data e))
          else if m = 7 then simple_or_float data off initial
          else Inl Panic)"
  by pat_completeness auto
termination
  by (relation "measure (\<lambda>(data, off, depth). MAX_DEPTH + 1 - depth)") auto

declare validate_item.simps [simp del]

definition validate :: "bytes \<Rightarrow> nat \<Rightarrow> nat drisl" where
  "validate data off = validate_item data off 0"

definition validate_exact :: "bytes \<Rightarrow> unit drisl" where
  "validate_exact data =
     bind_res (validate data 0) (\<lambda>e.
       if e \<noteq> length data then
         err e (dec (length data - e) @ '' trailing byte(s) after item'')
       else Inr ())"

end
