(* ===== verification/Drisl_Grammar.thy ===== *)
theory Drisl_Grammar
  imports Drisl
begin

text \<open>
  What the validator promises: a data model of DRISL items with its one deterministic
  encoding, and the lemmas that connect the byte-level reads of the validator to it. The
  refinement theorem itself is in \<open>Drisl_Correct\<close>.
\<close>

section \<open>Heads: the argument reader against the minimal encoding\<close>

lemma shift_in_byte:
  fixes v :: u64 and b :: u8
  assumes "unat v < 2 ^ 56"
  shows "unat (push_bit 8 v OR ucast b) = unat v * 256 + unat b"
proof -
  have "push_bit 8 v AND (ucast b :: u64) = 0"
    by (rule bit_eqI) (auto simp: bit_simps dest: bit_imp_le_length)
  then have "push_bit 8 v OR (ucast b :: u64) = push_bit 8 v + ucast b"
    by (simp add: disjunctive_add_eq_or)
  moreover have "unat (push_bit 8 v) = unat v * 256"
    using assms by (simp add: push_bit_eq_mult unat_mult_lem [THEN iffD1] unat_word_ariths)
  moreover have "unat (ucast b :: u64) = unat b"
    using unat_u8_less [of b] by (simp add: unsigned_ucast_eq take_bit_nat_eq_self)
  ultimately show ?thesis
    using assms unat_u8_less [of b] by (simp add: unat_word_ariths)
qed

lemma unat_major: "unat (major b) = unat b div 32"
  by (simp add: major_def unat_drop_bit_eq drop_bit_eq_div unat_div)

lemma unat_info_bits: "unat (info_bits b) = unat b mod 32"
proof -
  have "info_bits b = take_bit 5 b"
    by (simp add: info_bits_def take_bit_eq_mask mask_eq_exp_minus_1)
  then show ?thesis unfolding unsigned_take_bit_eq by (simp add: take_bit_eq_mod unat_mod)
qed
text \<open>The read loop computes the big-endian value of its bytes, panic-free.\<close>

lemma read_be_eq:
  assumes "drop pos data = bs @ rest" "unat v = be_val pre" "length pre + length bs \<le> 8"
  shows "\<exists>w. read_be data pos (length bs) v = Inr w \<and> unat w = be_val (pre @ bs)"
  using assms
proof (induction bs arbitrary: pos v pre)
  case Nil
  then show ?case by simp
next
  case (Cons b bs)
  have pos: "pos < length data" "data ! pos = b" "drop (Suc pos) data = bs @ rest"
    using Cons.prems drop_eq_ConsD [of pos data b "bs @ rest"] by simp_all
  have "be_val pre < 256 ^ length pre" by (rule be_val_less)
  also have "(256::nat) ^ length pre \<le> 256 ^ 7"
    using Cons.prems(3) by (intro power_increasing) simp_all
  finally have "unat (push_bit 8 v OR ucast b) = be_val (pre @ [b])"
    using Cons.prems(2) by (simp add: shift_in_byte)
  from Cons.IH [OF pos(3) this] Cons.prems(3) show ?case
    by (simp add: index_def pos)
qed

lemma read_be_eq_word:
  assumes "drop pos data = bs @ rest" "length bs \<le> 8"
  shows "read_be data pos (length bs) 0 = Inr (word_of_nat (be_val bs))"
proof -
  obtain w where w: "read_be data pos (length bs) 0 = Inr w" "unat w = be_val bs"
    using read_be_eq [OF assms(1), of 0 "[]"] assms(2) by auto
  have "w = word_of_nat (unat w)" by simp
  with w show ?thesis by simp
qed

section \<open>Minimal heads\<close>

definition arg_info :: "nat \<Rightarrow> nat" where
  "arg_info n = (if n < 24 then n else if n < 256 then 24 else if n < 65536 then 25
                 else if n < 4294967296 then 26 else 27)"

definition arg_width :: "nat \<Rightarrow> nat" where
  "arg_width n = (if n < 24 then 0 else if n < 256 then 1 else if n < 65536 then 2
                  else if n < 4294967296 then 4 else 8)"

definition head :: "nat \<Rightarrow> nat \<Rightarrow> bytes" where
  "head m n = word_of_nat (32 * m + arg_info n) # be_bytes (arg_width n) n"

lemma length_head: "length (head m n) = Suc (arg_width n)"
  by (simp add: head_def)

lemma arg_info_less: "arg_info n < 32"
  by (simp add: arg_info_def)

lemma arg_width_le: "arg_width n \<le> 8"
  by (simp add: arg_width_def)

lemma unat_initial:
  "m < 8 \<Longrightarrow> i < 32 \<Longrightarrow> unat (word_of_nat (32 * m + i) :: u8) = 32 * m + i"
  by (simp del: of_nat_add of_nat_mult)

lemma major_initial: "m < 8 \<Longrightarrow> i < 32 \<Longrightarrow> unat (major (word_of_nat (32 * m + i))) = m"
  by (simp add: unat_major unat_initial del: of_nat_add of_nat_mult)

lemma info_initial: "m < 8 \<Longrightarrow> i < 32 \<Longrightarrow> unat (info_bits (word_of_nat (32 * m + i))) = i"
  by (simp add: unat_info_bits unat_initial del: of_nat_add of_nat_mult)

lemma initial_byte: "(b :: u8) = word_of_nat (32 * unat (major b) + unat (info_bits b))"
  by (simp add: unat_major unat_info_bits del: of_nat_add of_nat_mult)

lemma minimal_arg_info:
  "24 \<le> n \<Longrightarrow> minimal (word_of_nat (arg_info n)) \<le> word_of_nat n" if "n < 2 ^ 64"
  using that by (auto simp: arg_info_def minimal_def word_le_nat_alt unat_of_nat)

lemma arg_width_info:
  "24 \<le> n \<Longrightarrow> arg_width n = 2 ^ (arg_info n - 24) \<and> 24 \<le> arg_info n \<and> arg_info n \<le> 27"
  by (simp add: arg_info_def arg_width_def)

lemma n_less_width: "n < 2 ^ 64 \<Longrightarrow> 24 \<le> n \<Longrightarrow> n < 256 ^ arg_width n"
  by (simp add: arg_width_def)

lemma unat_ucast_u64 [simp]: "unat (ucast (x :: u8) :: u64) = unat x"
  using unat_u8_less [of x] by (simp add: unsigned_ucast_eq take_bit_nat_eq_self)

text \<open>The two ways \<open>read_arg\<close> succeeds.\<close>

lemma read_arg_short:
  "index data off = Inr b \<Longrightarrow> unat (info_bits b) < 24 \<Longrightarrow>
   read_arg data off what = Inr (ucast (info_bits b), off + 1)"
  by (simp add: read_arg_def word_less_nat_alt)

lemma read_arg_long:
  assumes "index data off = Inr b" "24 \<le> unat (info_bits b)" "unat (info_bits b) \<le> 27"
    "w = 2 ^ (unat (info_bits b) - 24)" "off + 1 + w \<le> length data"
    "read_be data (off + 1) w 0 = Inr v" "\<not> v < minimal (info_bits b)"
  shows "read_arg data off what = Inr (v, off + 1 + w)"
proof -
  have "unat (info_bits b - 24) = unat (info_bits b) - 24"
    using assms(2) by (simp add: unat_sub word_le_nat_alt)
  with assms show ?thesis
    by (simp add: read_arg_def word_less_nat_alt Let_def)
qed

lemma read_arg_InrE:
  assumes "read_arg data off what = Inr (v, e)"
  obtains (short) b where "index data off = Inr b" "unat (info_bits b) < 24"
      "v = ucast (info_bits b)" "e = off + 1"
  | (long) b w where "index data off = Inr b" "24 \<le> unat (info_bits b)"
      "unat (info_bits b) \<le> 27" "w = 2 ^ (unat (info_bits b) - 24)"
      "off + 1 + w \<le> length data" "read_be data (off + 1) w 0 = Inr v"
      "minimal (info_bits b) \<le> v" "e = off + 1 + w"
proof -
  from assms obtain b where b: "index data off = Inr b"
    by (auto simp: read_arg_def)
  show ?thesis
  proof (cases "unat (info_bits b) < 24")
    case True
    with assms b show ?thesis by (intro short [of b]) (simp_all add: read_arg_short)
  next
    case False
    then have "unat (info_bits b - 24) = unat (info_bits b) - 24"
      by (simp add: unat_sub word_le_nat_alt)
    with False b assms show ?thesis
      by (intro long [of b "2 ^ (unat (info_bits b) - 24)"])
        (auto simp: read_arg_def word_less_nat_alt word_le_nat_alt Let_def err_def not_less
          split: if_splits)
  qed
qed

lemma read_arg_head:
  assumes m: "m < 8" and n: "n < 2 ^ 64" and d: "drop off data = head m n @ rest"
  shows "read_arg data off what = Inr (word_of_nat n, off + length (head m n))"
proof -
  define b :: u8 where "b = word_of_nat (32 * m + arg_info n)"
  have b: "index data off = Inr b" and rest: "drop (Suc off) data = be_bytes (arg_width n) n @ rest"
    using d drop_eq_ConsD [of off data b "be_bytes (arg_width n) n @ rest"]
    by (simp_all add: head_def index_def b_def)
  have ai: "unat (info_bits b) = arg_info n"
    unfolding b_def using m arg_info_less by (rule info_initial)
  show ?thesis
  proof (cases "n < 24")
    case True
    then have "arg_info n = n" "length (head m n) = 1"
      by (simp_all add: arg_info_def length_head arg_width_def)
    moreover from this have "ucast (info_bits b) = (word_of_nat n :: u64)"
      using n by (simp add: word_unat_eq_iff ai unat_of_nat)
    ultimately show ?thesis using read_arg_short [OF b] ai True by simp
  next
    case False
    note w = arg_width_info [of n] n_less_width [OF n]
    have ai_eq: "info_bits b = word_of_nat (arg_info n)"
      unfolding ai [symmetric] by simp
    have "read_be data (off + 1) (arg_width n) 0 = Inr (word_of_nat n)"
      using read_be_eq_word [of "Suc off" data "be_bytes (arg_width n) n" rest] rest False w
        arg_width_le [of n] by (simp add: be_val_be_bytes)
    moreover have "\<not> word_of_nat n < minimal (info_bits b)"
      using minimal_arg_info [OF n] False by (simp add: not_less ai_eq)
    moreover have "off + 1 + arg_width n \<le> length data"
      using arg_cong [OF rest, of length] b by (simp add: index_def split: if_splits)
    ultimately show ?thesis
      using read_arg_long [OF b, of "arg_width n"] ai w False by (simp add: length_head)
  qed
qed

lemma read_arg_Inr_head:
  assumes "read_arg data off what = Inr (v, e)"
  shows "off < length data \<and> e \<le> length data \<and>
    slice data off e = head (unat (major (data ! off))) (unat v) \<and>
    e = off + length (head (unat (major (data ! off))) (unat v))"
  using assms
proof (cases rule: read_arg_InrE)
  case (short b)
  then have b: "off < length data" "data ! off = b" by (simp_all add: index_def split: if_splits)
  let ?n = "unat v"
  have n: "?n = unat (info_bits b)" using short by simp
  with short have "head (unat (major b)) ?n = [b]"
    using initial_byte [of b] by (simp add: head_def arg_info_def arg_width_def)
  with b short show ?thesis
    by (simp add: slice_def Cons_nth_drop_Suc [symmetric])
next
  case (long b w)
  then have b: "off < length data" "data ! off = b" by (simp_all add: index_def split: if_splits)
  define bs where "bs = slice data (off + 1) e"
  have len: "length bs = w" using long by (simp add: bs_def slice_def)
  have ai: "info_bits b = 24 \<or> info_bits b = 25 \<or> info_bits b = 26 \<or> info_bits b = 27"
    using long(2,3) by (auto simp: word_unat_eq_iff)
  then have w8: "w \<le> 8" using long(4) by auto
  have d: "drop (off + 1) data = bs @ drop e data"
    unfolding bs_def using long by (intro slice_append_drop) simp_all
  have v: "v = word_of_nat (be_val bs)"
    using read_be_eq_word [OF d] w8 long(6) len by simp
  have bound: "be_val bs < 256 ^ w" using be_val_less [of bs] len by simp
  also have "(256::nat) ^ w \<le> 256 ^ 8" using w8 by (intro power_increasing) simp_all
  finally have uv: "unat v = be_val bs" by (simp add: v unat_of_nat)
  have aw: "arg_info (unat v) = unat (info_bits b) \<and> arg_width (unat v) = w"
    using ai long(4,7) bound uv
    by (elim disjE) (simp_all add: arg_info_def arg_width_def minimal_def word_le_nat_alt)
  have "head (unat (major b)) (unat v) = b # bs"
    using aw initial_byte [of b] be_bytes_be_val [of bs] len uv by (simp add: head_def)
  moreover have "slice data off e = b # bs"
    using b long d len by (simp add: slice_def bs_def Cons_nth_drop_Suc [symmetric] Suc_diff_le)
  ultimately show ?thesis using b long len by (simp add: length_head aw)
qed
section \<open>Spans of a byte string\<close>

text \<open>\<open>reads data a bs b\<close>: the bytes from \<open>a\<close> up to \<open>b\<close> are \<open>bs\<close>.\<close>

definition reads :: "bytes \<Rightarrow> nat \<Rightarrow> bytes \<Rightarrow> nat \<Rightarrow> bool" where
  "reads data a bs b \<longleftrightarrow> drop a data = bs @ drop b data \<and> b = a + length bs \<and> b \<le> length data"

lemma reads_Nil [simp]: "reads data a [] b \<longleftrightarrow> a = b \<and> b \<le> length data"
  by (auto simp: reads_def)

lemma reads_append:
  "reads data a (xs @ ys) c \<longleftrightarrow> (\<exists>b. reads data a xs b \<and> reads data b ys c)"
proof
  assume *: "reads data a (xs @ ys) c"
  then have d: "drop a data = xs @ ys @ drop c data" by (simp add: reads_def)
  then have "drop (a + length xs) data = ys @ drop c data" by (rule drop_eq_appendD)
  with * d show "\<exists>b. reads data a xs b \<and> reads data b ys c"
    by (intro exI [of _ "a + length xs"]) (simp add: reads_def)
next
  assume "\<exists>b. reads data a xs b \<and> reads data b ys c"
  then show "reads data a (xs @ ys) c" by (auto simp: reads_def)
qed

lemma readsI:
  assumes "drop a data = bs @ rest" "a \<le> length data"
  shows "reads data a bs (a + length bs)"
proof -
  have "length data - a = length bs + length rest"
    using arg_cong [OF assms(1), of length] by simp
  with assms drop_eq_appendD(1) [OF assms(1)] show ?thesis by (simp add: reads_def)
qed

lemma reads_slice: "reads data a bs b \<Longrightarrow> slice data a b = bs"
  by (auto simp: reads_def slice_def)

lemma slice_reads: "a \<le> b \<Longrightarrow> b \<le> length data \<Longrightarrow> reads data a (slice data a b) b"
  using slice_append_drop [of a b data] by (simp add: reads_def slice_simps)

lemma reads_length: "reads data a bs b \<Longrightarrow> b = a + length bs \<and> b \<le> length data"
  by (simp add: reads_def)

lemma reads_Cons_first: "reads data a (x # xs) b \<Longrightarrow> a < length data \<and> data ! a = x"
  using drop_eq_ConsD [of a data x "xs @ drop b data"] by (auto simp: reads_def)

lemma head_nonempty: "head m n \<noteq> []"
  by (simp add: head_def)

lemma reads_head_major:
  assumes "reads data a (head m n @ bs) b" "m < 8"
  shows "a < length data \<and> unat (major (data ! a)) = m"
  using assms reads_Cons_first [of data a _ "be_bytes (arg_width n) n @ bs" b] major_initial arg_info_less
  by (simp add: head_def del: of_nat_add of_nat_mult)

text \<open>Success of \<open>read_arg\<close>, both ways.\<close>

lemma read_arg_reads:
  assumes "read_arg data off what = Inr (v, e)"
  shows "off < length data \<and> reads data off (head (unat (major (data ! off))) (unat v)) e"
  using read_arg_Inr_head [OF assms] slice_reads [of off e data] by auto

lemma reads_read_arg:
  assumes "reads data off (head m n) e" "m < 8" "n < 2 ^ 64"
  shows "read_arg data off what = Inr (word_of_nat n, e)"
  using read_arg_head [of m n off data "drop e data" what] assms by (simp add: reads_def)

section \<open>The data model and its encoding\<close>

datatype dval =
    DUint nat
  | DNegint nat
  | DBytes bytes
  | DText bytes
  | DArray "dval list"
  | DMap "(bytes \<times> dval) list"
  | DCid bytes
  | DBool bool
  | DNull
  | DFloat bytes

definition enc_text :: "bytes \<Rightarrow> bytes" where
  "enc_text k = head 3 (length k) @ k"

fun enc :: "dval \<Rightarrow> bytes" where
  "enc (DUint n) = head 0 n"
| "enc (DNegint n) = head 1 n"
| "enc (DBytes bs) = head 2 (length bs) @ bs"
| "enc (DText bs) = enc_text bs"
| "enc (DArray vs) = head 4 (length vs) @ concat (map enc vs)"
| "enc (DMap kvs) = head 5 (length kvs) @ concat (map (\<lambda>(k, v). enc_text k @ enc v) kvs)"
| "enc (DCid bs) = head 6 42 @ head 2 (Suc (length bs)) @ 0 # bs"
| "enc (DBool b) = [if b then 0xf5 else 0xf4]"
| "enc DNull = [0xf6]"
| "enc (DFloat bs) = 0xfb # bs"

text \<open>Well-formed at nesting depth \<open>d\<close>: arguments fit a \<open>u64\<close>, text is UTF-8, keys ascend
  strictly in their encoded order, floats are finite, nesting stays within the limit.\<close>

definition key_less :: "bytes \<Rightarrow> bytes \<Rightarrow> bool" where
  "key_less k l \<longleftrightarrow> cmp_bytes (enc_text k) (enc_text l) = Less"

definition text_ok :: "bytes \<Rightarrow> bool" where
  "text_ok k \<longleftrightarrow> utf8_valid k \<and> length k < 2 ^ 64"

definition float_ok :: "bytes \<Rightarrow> bool" where
  "float_ok bs \<longleftrightarrow> length bs = 8 \<and> f64_exponent (f64_from_be bs) \<noteq> 0x7ff"

fun dwf :: "nat \<Rightarrow> dval \<Rightarrow> bool" where
  "dwf d (DUint n) \<longleftrightarrow> d \<le> MAX_DEPTH \<and> n < 2 ^ 64"
| "dwf d (DNegint n) \<longleftrightarrow> d \<le> MAX_DEPTH \<and> n < 2 ^ 64"
| "dwf d (DBytes bs) \<longleftrightarrow> d \<le> MAX_DEPTH \<and> length bs < 2 ^ 64"
| "dwf d (DText bs) \<longleftrightarrow> d \<le> MAX_DEPTH \<and> text_ok bs"
| "dwf d (DArray vs) \<longleftrightarrow> d \<le> MAX_DEPTH \<and> length vs < 2 ^ 64 \<and> (\<forall>v \<in> set vs. dwf (d + 1) v)"
| "dwf d (DMap kvs) \<longleftrightarrow> d \<le> MAX_DEPTH \<and> length kvs < 2 ^ 64 \<and>
     sorted_wrt key_less (map fst kvs) \<and>
     (\<forall>kv \<in> set kvs. d + 1 \<le> MAX_DEPTH \<and> text_ok (fst kv) \<and> dwf (d + 1) (snd kv))"
| "dwf d (DCid bs) \<longleftrightarrow> d + 1 \<le> MAX_DEPTH \<and> Suc (length bs) < 2 ^ 64"
| "dwf d (DBool b) \<longleftrightarrow> d \<le> MAX_DEPTH"
| "dwf d DNull \<longleftrightarrow> d \<le> MAX_DEPTH"
| "dwf d (DFloat bs) \<longleftrightarrow> d \<le> MAX_DEPTH \<and> float_ok bs"

end
