(* ===== verification/Drisl_Correct.thy ===== *)
theory Drisl_Correct
  imports Drisl_Grammar
begin

text \<open>
  The validator against the data model: it accepts exactly the deterministic encodings, it
  never panics, and what it accepts has one reading only.
\<close>

section \<open>The order of map keys\<close>

lemma cmp_bytes_Equal [simp]: "cmp_bytes xs ys = Equal \<longleftrightarrow> xs = ys"
  by (induction xs ys rule: cmp_bytes.induct) auto

lemma cmp_bytes_refl [simp]: "cmp_bytes xs xs = Equal"
  by simp

lemma cmp_bytes_Less_trans:
  "cmp_bytes xs ys = Less \<Longrightarrow> cmp_bytes ys zs = Less \<Longrightarrow> cmp_bytes xs zs = Less"
proof (induction xs ys arbitrary: zs rule: cmp_bytes.induct)
  case (2 y ys)
  then show ?case by (cases zs) simp_all
next
  case (4 x xs y ys)
  then show ?case by (cases zs) (auto split: if_splits)
qed auto

lemma transp_key_less: "transp key_less"
  by (rule transpI) (auto simp: key_less_def intro: cmp_bytes_Less_trans)

section \<open>Initial bytes of encoded items\<close>

fun dmajor :: "dval \<Rightarrow> nat" where
  "dmajor (DUint n) = 0"
| "dmajor (DNegint n) = 1"
| "dmajor (DBytes bs) = 2"
| "dmajor (DText bs) = 3"
| "dmajor (DArray vs) = 4"
| "dmajor (DMap kvs) = 5"
| "dmajor (DCid bs) = 6"
| "dmajor _ = 7"

lemma major_special:
  "unat (major 0xf4) = 7" "unat (major 0xf5) = 7" "unat (major 0xf6) = 7" "unat (major 0xfb) = 7"
  by (simp_all add: unat_major)

lemma reads_enc_major:
  "reads data c (enc v) e \<Longrightarrow> c < length data \<and> unat (major (data ! c)) = dmajor v"
proof (cases v)
  case (DBool b)
  then show "reads data c (enc v) e \<Longrightarrow> ?thesis"
    using reads_Cons_first [of data c _ "[]" e] by (cases b) (auto simp: major_special)
qed (use reads_head_major [where data = data and a = c and b = e and bs = "[]"]
      reads_Cons_first in \<open>force simp: enc_text_def major_special dest: reads_head_major\<close>)+

lemma enc_nonempty: "enc v \<noteq> []"
  by (cases v) (simp_all add: head_def enc_text_def)

section \<open>Loops\<close>

lemma array_loop_sound:
  assumes item: "\<And>c e. item c = Inr e \<Longrightarrow> \<exists>v. P v \<and> reads data c (enc v) e"
  shows "array_loop item n c = Inr e \<Longrightarrow> c \<le> length data \<Longrightarrow>
    \<exists>vs. length vs = n \<and> (\<forall>v \<in> set vs. P v) \<and> reads data c (concat (map enc vs)) e"
proof (induction n arbitrary: c)
  case 0
  then show ?case by simp
next
  case (Suc n)
  then obtain m where m: "item c = Inr m" "array_loop item n m = Inr e" by auto
  from item [OF m(1)] obtain v where v: "P v" "reads data c (enc v) m" by blast
  with Suc.IH [OF m(2)] obtain vs where
    "length vs = n" "\<forall>v \<in> set vs. P v" "reads data m (concat (map enc vs)) e"
    by (auto dest: reads_length)
  with v show ?case by (intro exI [of _ "v # vs"]) (auto simp: reads_append)
qed

lemma array_loop_complete:
  assumes "\<And>v c e. v \<in> set vs \<Longrightarrow> reads data c (enc v) e \<Longrightarrow> item c = Inr e"
  shows "reads data c (concat (map enc vs)) e \<Longrightarrow> array_loop item (length vs) c = Inr e"
  using assms
proof (induction vs arbitrary: c)
  case Nil
  then show ?case by simp
next
  case (Cons v vs)
  from Cons.prems(1) obtain m where m: "reads data c (enc v) m" "reads data m (concat (map enc vs)) e"
    by (auto simp: reads_append)
  have "array_loop item (length vs) m = Inr e"
    by (rule Cons.IH [OF m(2)]) (rule Cons.prems(2), simp_all)
  with m(1) Cons.prems(2) [of v c m] show ?case by simp
qed

text \<open>The key the loop remembers, and the order check on it.\<close>

definition prev_ok :: "bytes \<Rightarrow> (nat \<times> nat) option \<Rightarrow> bytes option \<Rightarrow> bool" where
  "prev_ok data prev pk \<longleftrightarrow>
     (case prev of None \<Rightarrow> pk = None
      | Some (ps, pe) \<Rightarrow> \<exists>k. pk = Some k \<and> reads data ps (enc_text k) pe)"

lemma check_order_reads:
  assumes "prev_ok data prev pk" "reads data ks (enc_text k) ke"
  shows "check_order data prev ks ke = Inr () \<longleftrightarrow> (\<forall>p. pk = Some p \<longrightarrow> key_less p k)"
proof (cases prev)
  case None
  with assms show ?thesis by (simp add: prev_ok_def check_order_def)
next
  case (Some pp)
  obtain ps pe where pp: "pp = (ps, pe)" by (cases pp)
  with assms Some obtain p where p: "pk = Some p" "reads data ps (enc_text p) pe"
    by (auto simp: prev_ok_def)
  with assms(2) have "index_range data ps pe = Inr (enc_text p)"
      "index_range data ks ke = Inr (enc_text k)"
    by (auto simp: index_range_def reads_slice dest: reads_length)
  then show ?thesis
    by (auto simp: check_order_def Some pp p(1) key_less_def err_def split: ordering.splits)
qed

definition enc_entry :: "bytes \<times> dval \<Rightarrow> bytes" where
  "enc_entry kv = enc_text (fst kv) @ enc (snd kv)"

lemma enc_DMap: "enc (DMap kvs) = head 5 (length kvs) @ concat (map enc_entry kvs)"
  by (simp add: enc_entry_def [abs_def] case_prod_unfold)

lemma reads_entries_Cons:
  "reads data c (concat (map enc_entry (kv # kvs))) e \<longleftrightarrow>
    (\<exists>ke m. reads data c (enc_text (fst kv)) ke \<and> reads data ke (enc (snd kv)) m \<and>
      reads data m (concat (map enc_entry kvs)) e)"
  by (auto simp: enc_entry_def [of kv] reads_append)

text \<open>What the item validator must satisfy for the map loop: soundness, and keys are texts.\<close>

lemma map_loop_sound:
  assumes item: "\<And>c e. item c = Inr e \<Longrightarrow> \<exists>v. dwf d v \<and> reads data c (enc v) e"
  shows "map_loop data item n prev c = Inr e \<Longrightarrow> c \<le> length data \<Longrightarrow> prev_ok data prev pk \<Longrightarrow>
    \<exists>kvs. length kvs = n \<and> reads data c (concat (map enc_entry kvs)) e \<and>
      (\<forall>kv \<in> set kvs. d \<le> MAX_DEPTH \<and> text_ok (fst kv) \<and> dwf d (snd kv)) \<and>
      sorted_wrt key_less (map fst kvs) \<and>
      (\<forall>kv \<in> set kvs. \<forall>p. pk = Some p \<longrightarrow> key_less p (fst kv))"
proof (induction n arbitrary: c prev pk)
  case 0
  then show ?case by simp
next
  case (Suc n)
  from Suc.prems(1) obtain ke m where c: "c < length data" "major (data ! c) = 3"
    and ke: "item c = Inr ke" and ord: "check_order data prev c ke = Inr ()"
    and m: "item ke = Inr m" and loop: "map_loop data item n (Some (c, ke)) m = Inr e"
    by (auto simp: get_at_def err_def split: if_splits option.splits)
  from item [OF ke] obtain kv where kv: "dwf d kv" "reads data c (enc kv) ke" by blast
  from reads_enc_major [OF kv(2)] c have "dmajor kv = 3" by simp
  then obtain k where k: "kv = DText k" by (cases kv) simp_all
  with kv have key: "text_ok k" "d \<le> MAX_DEPTH" "reads data c (enc_text k) ke" by simp_all
  from item [OF m] obtain v where v: "dwf d v" "reads data ke (enc v) m" by blast
  have le: "\<forall>p. pk = Some p \<longrightarrow> key_less p k"
    using check_order_reads [OF Suc.prems(3) key(3)] ord by simp
  have "m \<le> length data" "prev_ok data (Some (c, ke)) (Some k)"
    using v key by (auto simp: prev_ok_def dest: reads_length)
  from Suc.IH [OF loop this] obtain kvs where kvs: "length kvs = n"
      "reads data m (concat (map enc_entry kvs)) e"
      "\<forall>kv \<in> set kvs. d \<le> MAX_DEPTH \<and> text_ok (fst kv) \<and> dwf d (snd kv)"
      "sorted_wrt key_less (map fst kvs)" "\<forall>kv \<in> set kvs. key_less k (fst kv)"
    by auto
  have "reads data c (concat (map enc_entry ((k, v) # kvs))) e"
    unfolding reads_entries_Cons using key v kvs(2) by auto
  moreover have "\<forall>kv \<in> set ((k, v) # kvs). \<forall>p. pk = Some p \<longrightarrow> key_less p (fst kv)"
    using le kvs(5) by (auto intro: transpD [OF transp_key_less])
  ultimately show ?case
    using kvs key v by (intro exI [of _ "(k, v) # kvs"]) simp
qed

lemma map_loop_complete:
  assumes "\<forall>kv \<in> set kvs. \<forall>c e. reads data c (enc_text (fst kv)) e \<longrightarrow> item c = Inr e"
    and "\<forall>kv \<in> set kvs. \<forall>c e. reads data c (enc (snd kv)) e \<longrightarrow> item c = Inr e"
    and "sorted_wrt key_less (map fst kvs)"
    and "reads data c (concat (map enc_entry kvs)) e" and "prev_ok data prev pk"
    and "\<forall>kv \<in> set kvs. \<forall>p. pk = Some p \<longrightarrow> key_less p (fst kv)"
  shows "map_loop data item (length kvs) prev c = Inr e"
  using assms
proof (induction kvs arbitrary: c prev pk)
  case Nil
  then show ?case by simp
next
  case (Cons kv kvs)
  from Cons.prems(4) obtain ke m where ke: "reads data c (enc_text (fst kv)) ke"
    and m: "reads data ke (enc (snd kv)) m" and r: "reads data m (concat (map enc_entry kvs)) e"
    unfolding reads_entries_Cons by blast
  have "c < length data \<and> unat (major (data ! c)) = 3"
    using reads_enc_major [of data c "DText (fst kv)" ke] ke by simp
  then have c: "c < length data" "major (data ! c) = 3"
    by (simp_all add: word_unat_eq_iff)
  have "check_order data prev c ke = Inr ()"
    using check_order_reads [OF Cons.prems(5) ke] Cons.prems(6) by simp
  moreover have "item c = Inr ke" using Cons.prems(1) ke by simp
  moreover have "item ke = Inr m" using Cons.prems(2) m by simp
  moreover have "map_loop data item (length kvs) (Some (c, ke)) m = Inr e"
  proof (rule Cons.IH)
    show "prev_ok data (Some (c, ke)) (Some (fst kv))" using ke by (simp add: prev_ok_def)
  qed (use Cons.prems r in auto)
  ultimately show ?case by (simp add: c get_at_def)
qed

section \<open>Leaf items\<close>

lemma string_end_Some:
  "string_end data e len = Some f \<longleftrightarrow>
     int f < 2 ^ 64 \<and> f = e + unat len \<and> f \<le> length data"
  unfolding string_end_def uint_nat of_nat_add [symmetric] of_nat_le_iff
  by (simp only: option.inject option.distinct if_split_eq1) blast

lemma validate_string_sound:
  assumes "validate_string data off m = Inr e"
  shows "\<exists>bs. reads data off (head (unat (major (data ! off))) (length bs) @ bs) e \<and>
    length bs < 2 ^ 64 \<and> (m = 3 \<longrightarrow> utf8_valid bs)"
proof -
  from assms obtain len b where arg: "\<exists>what. read_arg data off what = Inr (len, b)"
    and stop: "string_end data b len = Some e"
    and utf: "m = 3 \<longrightarrow> utf8_valid (slice data b e)"
    by (auto simp: validate_string_def Let_def err_def split: option.splits if_splits)
  let ?bs = "slice data b e"
  from stop have e: "e = b + unat len" "e \<le> length data" by (simp_all add: string_end_Some)
  then have len: "length ?bs = unat len" "length ?bs < 2 ^ 64"
    using unsigned_less [of len] by (simp_all add: slice_simps)
  have "reads data b ?bs e" using e by (intro slice_reads) simp_all
  then show ?thesis
    using arg utf len read_arg_reads [of data off _ len b]
    by (intro exI [of _ ?bs]) (auto simp: reads_append)
qed

lemma validate_string_complete:
  assumes "reads data off (head (unat m) (length bs) @ bs) e" "unat m < 8" "length bs < 2 ^ 64"
    "m = 3 \<longrightarrow> utf8_valid bs" "length data < 2 ^ 64"
  shows "validate_string data off m = Inr e"
proof -
  from assms(1) obtain b where b: "reads data off (head (unat m) (length bs)) b" "reads data b bs e"
    by (auto simp: reads_append)
  have "read_arg data off what = Inr (word_of_nat (length bs), b)" for what
    using b(1) assms(2,3) by (rule reads_read_arg)
  moreover have "string_end data b (word_of_nat (length bs)) = Some e"
    using assms(3,5) reads_length [OF b(2)] by (simp add: string_end_Some unat_of_nat)
  moreover have "slice data b e = bs" using b(2) by (rule reads_slice)
  ultimately show ?thesis
    using assms(4) by (auto simp: validate_string_def Let_def)
qed

lemma float_ok_iff:
  "float_ok bs \<longleftrightarrow> length bs = 8 \<and> \<not> f64_is_nan (f64_from_be bs) \<and> \<not> f64_is_infinite (f64_from_be bs)"
  by (auto simp: float_ok_def f64_is_nan_def f64_is_infinite_def)

lemma reads_single: "reads data off [b] e \<longleftrightarrow> off < length data \<and> data ! off = b \<and> e = off + 1"
  by (auto simp: reads_def Cons_nth_drop_Suc dest: drop_eq_ConsD)

lemma reads_Cons:
  "reads data off (b # bs) e \<longleftrightarrow> off < length data \<and> data ! off = b \<and> reads data (off + 1) bs e"
  using reads_append [of data off "[b]" bs e] by (auto simp: reads_single)

lemma special_byte:
  assumes "0xf4 \<le> (b :: u8)" "b \<le> 0xf6"
  shows "b = 0xf4 \<or> b = 0xf5 \<or> b = 0xf6"
  using assms by (auto simp: word_le_nat_alt word_unat_eq_iff)

lemma simple_or_float_sound:
  assumes "simple_or_float data off (data ! off) = Inr e" "off < length data"
  shows "\<exists>v. (\<forall>d \<le> MAX_DEPTH. dwf d v) \<and> reads data off (enc v) e"
proof (cases "data ! off = 0xfb")
  case True
  with assms have *: "off + 9 \<le> length data" "e = off + 9"
      "\<not> f64_is_nan (f64_from_be (slice data (off + 1) (off + 9)))"
      "\<not> f64_is_infinite (f64_from_be (slice data (off + 1) (off + 9)))"
    by (auto simp: simple_or_float_def Let_def err_def word_le_nat_alt split: if_splits)
  let ?bs = "slice data (off + 1) (off + 9)"
  have "float_ok ?bs" using * by (simp add: float_ok_iff slice_simps)
  moreover have "reads data (off + 1) ?bs (off + 9)" using * by (intro slice_reads) simp_all
  ultimately show ?thesis
    using assms(2) True * by (intro exI [of _ "DFloat ?bs"]) (simp add: reads_Cons)
next
  case False
  with assms have "0xf4 \<le> data ! off" "data ! off \<le> 0xf6" "e = off + 1"
    by (auto simp: simple_or_float_def Let_def err_def split: if_splits)
  with special_byte consider "data ! off = 0xf4" | "data ! off = 0xf5" | "data ! off = 0xf6"
    by blast
  then show ?thesis
  proof cases
    case 1
    with assms \<open>e = off + 1\<close> show ?thesis by (intro exI [of _ "DBool False"]) (simp add: reads_single)
  next
    case 2
    with assms \<open>e = off + 1\<close> show ?thesis by (intro exI [of _ "DBool True"]) (simp add: reads_single)
  next
    case 3
    with assms \<open>e = off + 1\<close> show ?thesis by (intro exI [of _ DNull]) (simp add: reads_single)
  qed
qed

lemma simple_or_float_complete:
  assumes "reads data off (enc v) e" "dmajor v = 7" "dwf d v"
  shows "simple_or_float data off (data ! off) = Inr e"
proof (cases v)
  case (DFloat bs)
  with assms have b: "off < length data" "data ! off = 0xfb" "reads data (off + 1) bs e" "float_ok bs"
    by (simp_all add: reads_Cons)
  then have "e = off + 9" "e \<le> length data" by (auto simp: float_ok_def dest: reads_length)
  moreover have "slice data (off + 1) e = bs" using b by (intro reads_slice)
  ultimately show ?thesis
    using b by (simp add: simple_or_float_def float_ok_iff word_le_nat_alt)
qed (use assms in \<open>auto simp: simple_or_float_def reads_single\<close>)

lemma check_cid_prefix_reads:
  assumes "reads data b (head 2 (length bs) @ bs) e" "length bs < 2 ^ 64"
  shows "check_cid_prefix data b e = Inr f \<longleftrightarrow> f = e \<and> (\<exists>cs. bs = 0 # cs)"
proof -
  from assms(1) obtain s where s: "reads data b (head 2 (length bs)) s" "reads data s bs e"
    by (auto simp: reads_append)
  have arg: "read_arg data b what = Inr (word_of_nat (length bs), s)" for what
    by (rule reads_read_arg [OF s(1) _ assms(2)]) simp
  show ?thesis
  proof (cases bs)
    case Nil
    with s(2) show ?thesis by (simp add: check_cid_prefix_def arg err_def)
  next
    case (Cons c cs)
    with s(2) have "s < length data" "data ! s = c" "e \<noteq> s"
      by (auto simp: reads_Cons dest: reads_length)
    then show ?thesis
      using Cons by (auto simp: check_cid_prefix_def arg err_def index_def split: if_splits)
  qed
qed

section \<open>The item validator, by the kind of item\<close>

lemma major_cases:
  obtains "major b = 0" | "major b = 1" | "major b = 2" | "major b = 3" | "major b = 4"
    | "major b = 5" | "major b = 6" | "major b = 7"
proof -
  have "unat (major b) < 8" using unat_u8_less [of b] by (simp add: unat_major)
  then consider "unat (major b) = 0" | "unat (major b) = 1" | "unat (major b) = 2"
    | "unat (major b) = 3" | "unat (major b) = 4" | "unat (major b) = 5" | "unat (major b) = 6"
    | "unat (major b) = 7" by linarith
  then show thesis using that by cases (simp_all add: word_unat_eq_iff)
qed

text \<open>One equation for each major type, for an item inside the input and above the depth limit.\<close>

lemma validate_item_kind:
  assumes "off < length data" "depth \<le> MAX_DEPTH"
  shows "major (data ! off) = 0 \<Longrightarrow>
      validate_item data off depth = bind_res (read_arg data off ''uint'') (\<lambda>(_, e). Inr e)"
    and "major (data ! off) = 1 \<Longrightarrow>
      validate_item data off depth = bind_res (read_arg data off ''negint'') (\<lambda>(_, e). Inr e)"
    and "major (data ! off) = 2 \<or> major (data ! off) = 3 \<Longrightarrow>
      validate_item data off depth = validate_string data off (major (data ! off))"
    and "major (data ! off) = 4 \<Longrightarrow>
      validate_item data off depth =
        bind_res (read_arg data off ''array length'') (\<lambda>(count, e).
          array_loop (\<lambda>c. validate_item data c (depth + 1)) (unat count) e)"
    and "major (data ! off) = 5 \<Longrightarrow>
      validate_item data off depth =
        bind_res (read_arg data off ''map length'') (\<lambda>(count, e).
          map_loop data (\<lambda>c. validate_item data c (depth + 1)) (unat count) None e)"
    and "major (data ! off) = 7 \<Longrightarrow>
      validate_item data off depth = simple_or_float data off (data ! off)"
  using assms by (simp_all add: validate_item.simps [of data off depth] get_at_def Let_def) auto

lemma validate_item_tag:
  assumes "off < length data" "depth \<le> MAX_DEPTH" "major (data ! off) = 6"
  shows "validate_item data off depth = Inr f \<longleftrightarrow>
    (\<exists>e c. read_arg data off ''tag'' = Inr (42, e) \<and> e < length data \<and> major (data ! e) = 2 \<and>
      validate_item data e (depth + 1) = Inr c \<and> check_cid_prefix data e c = Inr f)"
  using assms
  by (simp add: validate_item.simps [of data off depth] get_at_def Let_def err_def
      split_def) (auto split: if_splits option.splits)

lemma validate_item_Inr_bounds:
  "validate_item data off depth = Inr e \<Longrightarrow> off < length data \<and> depth \<le> MAX_DEPTH"
  by (auto simp: validate_item.simps [of data off depth] err_def split: if_splits option.splits)

section \<open>Soundness\<close>

text \<open>The cases of soundness that go down into the value.\<close>

lemma array_sound:
  assumes "off < length data" "d \<le> MAX_DEPTH" "major (data ! off) = 4" "validate_item data off d = Inr e"
    and IH: "\<And>c e. validate_item data c (d + 1) = Inr e \<Longrightarrow> \<exists>v. dwf (d + 1) v \<and> reads data c (enc v) e"
  shows "\<exists>v. dwf d v \<and> reads data off (enc v) e"
proof -
  obtain n m where n: "read_arg data off ''array length'' = Inr (n, m)"
    and loop: "array_loop (\<lambda>c. validate_item data c (d + 1)) (unat n) m = Inr e"
    using assms(3,4) validate_item_kind(4) [OF assms(1,2)] by auto
  have m: "reads data off (head 4 (unat n)) m" using read_arg_reads [OF n] assms(3) by simp
  from array_loop_sound [where P = "dwf (d + 1)", OF IH loop] m obtain vs where
    "length vs = unat n" "\<forall>v \<in> set vs. dwf (d + 1) v" "reads data m (concat (map enc vs)) e"
    by (auto dest: reads_length)
  with m assms(2) show ?thesis
    using unsigned_less [of n] by (intro exI [of _ "DArray vs"]) (auto simp: reads_append)
qed

lemma map_sound:
  assumes "off < length data" "d \<le> MAX_DEPTH" "major (data ! off) = 5" "validate_item data off d = Inr e"
    and IH: "\<And>c e. validate_item data c (d + 1) = Inr e \<Longrightarrow> \<exists>v. dwf (d + 1) v \<and> reads data c (enc v) e"
  shows "\<exists>v. dwf d v \<and> reads data off (enc v) e"
proof -
  obtain n m where n: "read_arg data off ''map length'' = Inr (n, m)"
    and loop: "map_loop data (\<lambda>c. validate_item data c (d + 1)) (unat n) None m = Inr e"
    using assms(3,4) validate_item_kind(5) [OF assms(1,2)] by auto
  have m: "reads data off (head 5 (unat n)) m" using read_arg_reads [OF n] assms(3) by simp
  from map_loop_sound [where d = "d + 1", OF IH loop, of None] m obtain kvs where
    "length kvs = unat n" "reads data m (concat (map enc_entry kvs)) e"
    "\<forall>kv \<in> set kvs. d + 1 \<le> MAX_DEPTH \<and> text_ok (fst kv) \<and> dwf (d + 1) (snd kv)"
    "sorted_wrt key_less (map fst kvs)"
    by (auto simp: prev_ok_def dest: reads_length)
  with m assms(2) show ?thesis
    using unsigned_less [of n] by (intro exI [of _ "DMap kvs"]) (auto simp: enc_DMap reads_append
        simp del: enc.simps)
qed

lemma tag_sound:
  assumes "off < length data" "d \<le> MAX_DEPTH" "major (data ! off) = 6" "validate_item data off d = Inr e"
    and IH: "\<And>c e. validate_item data c (d + 1) = Inr e \<Longrightarrow> \<exists>v. dwf (d + 1) v \<and> reads data c (enc v) e"
  shows "\<exists>v. dwf d v \<and> reads data off (enc v) e"
proof -
  obtain m c where t: "read_arg data off ''tag'' = Inr (42, m)" and c: "major (data ! m) = 2"
    "validate_item data m (d + 1) = Inr c" and p: "check_cid_prefix data m c = Inr e"
    using validate_item_tag [OF assms(1,2)] assms(3,4) by blast
  from IH [OF c(2)] obtain v where v: "dwf (d + 1) v" "reads data m (enc v) c" by blast
  with reads_enc_major [OF v(2)] c(1) obtain bs where "v = DBytes bs" by (cases v) auto
  with v have bs: "reads data m (head 2 (length bs) @ bs) c" "length bs < 2 ^ 64" "d + 1 \<le> MAX_DEPTH"
    by simp_all
  with check_cid_prefix_reads [OF bs(1,2)] p obtain cs where "bs = 0 # cs" "e = c" by auto
  with bs read_arg_reads [OF t] assms(3) show ?thesis
    by (intro exI [of _ "DCid cs"]) (auto simp: reads_append)
qed

lemma string_sound:
  assumes "off < length data" "d \<le> MAX_DEPTH" "major (data ! off) = 2 \<or> major (data ! off) = 3"
    and "validate_item data off d = Inr e"
  shows "\<exists>v. dwf d v \<and> reads data off (enc v) e"
proof -
  have "validate_string data off (major (data ! off)) = Inr e"
    using validate_item_kind(3) [OF assms(1,2)] assms(3,4) by auto
  from validate_string_sound [OF this] assms(3) obtain bs where
    "major (data ! off) = 2 \<and> reads data off (head 2 (length bs) @ bs) e \<and> length bs < 2 ^ 64 \<or>
     major (data ! off) = 3 \<and> reads data off (head 3 (length bs) @ bs) e \<and> length bs < 2 ^ 64 \<and> utf8_valid bs" by auto
  then show ?thesis
  proof
    assume "major (data ! off) = 2 \<and> reads data off (head 2 (length bs) @ bs) e \<and> length bs < 2 ^ 64"
    then show ?thesis using assms(2) by (intro exI [of _ "DBytes bs"]) simp
  next
    assume "major (data ! off) = 3 \<and> reads data off (head 3 (length bs) @ bs) e \<and> length bs < 2 ^ 64 \<and> utf8_valid bs"
    then show ?thesis using assms(2) by (intro exI [of _ "DText bs"]) (simp add: enc_text_def text_ok_def)
  qed
qed

lemma validate_item_sound:
  "validate_item data off d = Inr e \<Longrightarrow> \<exists>v. dwf d v \<and> reads data off (enc v) e"
proof (induction "MAX_DEPTH + 1 - d" arbitrary: d off e rule: less_induct)
  case less
  from validate_item_Inr_bounds [OF less.prems] have b: "off < length data" "d \<le> MAX_DEPTH" by simp_all
  note kind = validate_item_kind [OF b]
  have IH: "\<exists>v. dwf (d + 1) v \<and> reads data c (enc v) e" if "validate_item data c (d + 1) = Inr e" for c e
    using less.hyps [of "d + 1" c e] that b(2) by simp
  show ?case
  proof (cases "data ! off" rule: major_cases)
    case 1
    with less.prems kind(1) obtain v where "read_arg data off ''uint'' = Inr (v, e)" by auto
    from read_arg_reads [OF this] 1 b show ?thesis
      using unsigned_less [of v] by (intro exI [of _ "DUint (unat v)"]) simp
  next
    case 2
    with less.prems kind(2) obtain v where "read_arg data off ''negint'' = Inr (v, e)" by auto
    from read_arg_reads [OF this] 2 b show ?thesis
      using unsigned_less [of v] by (intro exI [of _ "DNegint (unat v)"]) simp
  next
    case 8
    with less.prems kind(6) show ?thesis
      using simple_or_float_sound [of data off e] b by auto
  qed (use string_sound [OF b _ less.prems] array_sound [OF b _ less.prems IH]
      map_sound [OF b _ less.prems IH] tag_sound [OF b _ less.prems IH] in blast)+
qed

section \<open>Completeness\<close>

lemma dwf_depth: "dwf d v \<Longrightarrow> d \<le> MAX_DEPTH"
  by (cases v) auto

lemma enc_kind:
  assumes "dwf d v" "reads data off (enc v) e"
  shows "off < length data" "d \<le> MAX_DEPTH" "major (data ! off) = word_of_nat (dmajor v)"
proof -
  from reads_enc_major [OF assms(2)]
  have *: "off < length data" "unat (major (data ! off)) = dmajor v" by simp_all
  then show "off < length data" "major (data ! off) = word_of_nat (dmajor v)"
    by (simp_all add: word_unat_eq_iff [of "major (data ! off)"] flip: *(2))
  show "d \<le> MAX_DEPTH" using assms(1) by (rule dwf_depth)
qed

lemma validate_item_string_complete:
  assumes "dwf d v" "reads data off (enc v) e" "length data < 2 ^ 64"
    and "v = DBytes bs \<or> v = DText bs"
  shows "validate_item data off d = Inr e"
proof -
  note k = enc_kind [OF assms(1,2)]
  have "validate_string data off (major (data ! off)) = Inr e"
    using assms k(3)
    by (intro validate_string_complete [where bs = bs]) (auto simp: enc_text_def text_ok_def)
  then show ?thesis
    using validate_item_kind(3) [OF k(1,2)] k(3) assms(4) by auto
qed

lemma special_complete:
  assumes "v = DNull \<or> v = DBool b \<or> v = DFloat bs" "dwf d v" "reads data off (enc v) e"
  shows "validate_item data off d = Inr e"
proof -
  note k = enc_kind [OF assms(2,3)]
  have "major (data ! off) = 7" "dmajor v = 7" using k(3) assms(1) by auto
  then show ?thesis
    using validate_item_kind(6) [OF k(1,2)] simple_or_float_complete [OF assms(3) _ assms(2)] by simp
qed

lemma cid_complete:
  assumes "length data < 2 ^ 64" "dwf d (DCid cs)" "reads data off (enc (DCid cs)) e"
  shows "validate_item data off d = Inr e"
proof -
  note k = enc_kind [OF assms(2,3)]
  from assms(3) obtain m where m: "reads data off (head 6 42) m"
    "reads data m (head 2 (length (0 # cs)) @ 0 # cs) e" by (auto simp: reads_append)
  have v: "dwf (d + 1) (DBytes (0 # cs))" "reads data m (enc (DBytes (0 # cs))) e"
    using assms(2) m(2) by simp_all
  have "read_arg data off ''tag'' = Inr (42, m)"
    using reads_read_arg [OF m(1)] by simp
  moreover have "validate_item data m (d + 1) = Inr e"
    by (rule validate_item_string_complete [OF v assms(1)]) simp
  moreover have "check_cid_prefix data m e = Inr e"
    using check_cid_prefix_reads [OF m(2)] assms(2) by simp
  ultimately show ?thesis
    using validate_item_tag [OF k(1,2), of e] k(3) enc_kind [OF v] by auto
qed

lemma map_complete:
  assumes "length data < 2 ^ 64" "dwf d (DMap kvs)" "reads data off (enc (DMap kvs)) e"
    and IH: "\<And>kv c e. kv \<in> set kvs \<Longrightarrow> dwf (d + 1) (snd kv) \<Longrightarrow> reads data c (enc (snd kv)) e \<Longrightarrow>
      validate_item data c (d + 1) = Inr e"
  shows "validate_item data off d = Inr e"
proof -
  note k = enc_kind [OF assms(2,3)]
  from assms(3) obtain m where m: "reads data off (head 5 (length kvs)) m"
    "reads data m (concat (map enc_entry kvs)) e" by (auto simp: enc_DMap reads_append simp del: enc.simps)
  have "read_arg data off ''map length'' = Inr (word_of_nat (length kvs), m)"
    using assms(2) by (intro reads_read_arg [OF m(1)]) simp_all
  moreover have "map_loop data (\<lambda>c. validate_item data c (d + 1)) (length kvs) None m = Inr e"
  proof (rule map_loop_complete [OF _ _ _ m(2), where pk = None])
    show "\<forall>kv \<in> set kvs. \<forall>c e. reads data c (enc_text (fst kv)) e \<longrightarrow>
        validate_item data c (d + 1) = Inr e"
      using assms(1,2)
      by (auto intro!: validate_item_string_complete [where v = "DText bs" and bs = bs for bs])
    show "\<forall>kv \<in> set kvs. \<forall>c e. reads data c (enc (snd kv)) e \<longrightarrow>
        validate_item data c (d + 1) = Inr e"
      using assms(2) IH by auto
  qed (use assms(2) in \<open>simp_all add: prev_ok_def\<close>)
  ultimately show ?thesis
    using validate_item_kind(5) [OF k(1,2)] k(3) assms(2) by (simp add: unat_of_nat)
qed

lemma validate_item_complete:
  assumes data: "length data < 2 ^ 64"
  shows "dwf d v \<Longrightarrow> reads data off (enc v) e \<Longrightarrow> validate_item data off d = Inr e"
proof (induction v arbitrary: d off e)
  case (DUint n)
  note k = enc_kind [OF DUint]
  show ?case
    using validate_item_kind(1) [OF k(1,2)] k(3) DUint reads_read_arg [of data off 0 n e] by simp
next
  case (DNegint n)
  note k = enc_kind [OF DNegint]
  show ?case
    using validate_item_kind(2) [OF k(1,2)] k(3) DNegint reads_read_arg [of data off 1 n e] by simp
next
  case (DArray vs)
  note k = enc_kind [OF DArray.prems]
  from DArray.prems obtain m where m: "reads data off (head 4 (length vs)) m"
    "reads data m (concat (map enc vs)) e" by (auto simp: reads_append)
  have "read_arg data off ''array length'' = Inr (word_of_nat (length vs), m)"
    using DArray.prems(1) by (intro reads_read_arg [OF m(1)]) simp_all
  moreover have "array_loop (\<lambda>c. validate_item data c (d + 1)) (length vs) m = Inr e"
    using DArray by (intro array_loop_complete [OF _ m(2)]) auto
  ultimately show ?case
    using validate_item_kind(4) [OF k(1,2)] k(3) DArray.prems(1) by (simp add: unat_of_nat)
next
  case (DMap kvs)
  have "validate_item data c (d + 1) = Inr e"
    if "kv \<in> set kvs" "dwf (d + 1) (snd kv)" "reads data c (enc (snd kv)) e" for kv c e
    using DMap.IH that by (simp add: snds.simps)
  then show ?case by (rule map_complete [OF data DMap.prems])
qed (use data validate_item_string_complete cid_complete special_complete in blast)+

end
