(* ===== verification/Drisl_Properties.thy ===== *)
theory Drisl_Properties
  imports Drisl_Correct
begin

text \<open>
  Consequences for the users of the validator: no panic on any input, error offsets inside the
  input, unique readings, locality (the verdict depends on the item's own bytes), the nesting
  limit, and the order of keys as the length-first rule.
\<close>

section \<open>Every outcome is in range\<close>

definition outcome_ok :: "bytes \<Rightarrow> nat \<Rightarrow> nat drisl \<Rightarrow> bool" where
  "outcome_ok data off r \<longleftrightarrow>
     (case r of
        Inr e \<Rightarrow> off < e \<and> e \<le> length data
      | Inl Panic \<Rightarrow> False
      | Inl (Invalid e) \<Rightarrow> off \<le> err_offset e \<and> err_offset e \<le> max off (length data))"

lemma outcome_ok_err [simp]:
  "outcome_ok data off (err p msg) \<longleftrightarrow> off \<le> p \<and> p \<le> max off (length data)"
  "outcome_ok data off (Inr e) \<longleftrightarrow> off < e \<and> e \<le> length data"
  by (simp_all add: outcome_ok_def err_def)

lemma outcome_ok_weaken:
  "outcome_ok data b r \<Longrightarrow> a \<le> b \<Longrightarrow> b \<le> length data \<Longrightarrow> outcome_ok data a r"
  by (auto simp: outcome_ok_def split: sum.splits drisl_fault.splits)

text \<open>Errors of a helper whose value is not an offset.\<close>

definition error_ok :: "bytes \<Rightarrow> nat \<Rightarrow> 'a drisl \<Rightarrow> bool" where
  "error_ok data off r \<longleftrightarrow>
     (case r of
        Inr _ \<Rightarrow> True
      | Inl Panic \<Rightarrow> False
      | Inl (Invalid e) \<Rightarrow> off \<le> err_offset e \<and> err_offset e \<le> max off (length data))"

lemma error_ok_err [simp]:
  "error_ok data off (err p msg) \<longleftrightarrow> off \<le> p \<and> p \<le> max off (length data)"
  "error_ok data off (Inr x)"
  by (simp_all add: error_ok_def err_def)

lemma outcome_ok_bind:
  assumes "error_ok data off r" "\<And>x. r = Inr x \<Longrightarrow> outcome_ok data off (f x)"
  shows "outcome_ok data off (bind_res r f)"
  using assms by (cases r) (auto simp: error_ok_def outcome_ok_def split: drisl_fault.splits)

lemma error_ok_bind:
  assumes "error_ok data off r" "\<And>x. r = Inr x \<Longrightarrow> error_ok data off (f x)"
  shows "error_ok data off (bind_res r f)"
  using assms by (cases r) (auto simp: error_ok_def split: drisl_fault.splits)

lemma outcome_error: "outcome_ok data off r \<Longrightarrow> error_ok data off r"
  by (auto simp: error_ok_def outcome_ok_def split: sum.splits drisl_fault.splits)

lemma error_ok_weaken:
  "error_ok data b r \<Longrightarrow> a \<le> b \<Longrightarrow> b \<le> length data \<Longrightarrow> error_ok data a r"
  by (auto simp: error_ok_def split: sum.splits drisl_fault.splits)

lemma read_be_ok:
  assumes "pos + n \<le> length data" "n \<le> 8"
  shows "\<exists>w. read_be data pos n 0 = Inr w"
proof -
  have "drop pos data = slice data pos (pos + n) @ drop (pos + n) data"
    using assms by (intro slice_append_drop) simp_all
  moreover have "length (slice data pos (pos + n)) = n"
    using assms by (simp add: slice_simps)
  ultimately show ?thesis using read_be_eq_word assms(2) by metis
qed

lemma arg_width_at_most_8: "\<not> ai < 24 \<Longrightarrow> \<not> 27 < ai \<Longrightarrow> (2::nat) ^ unat (ai - 24 :: u8) \<le> 8"
proof -
  assume "\<not> ai < 24" "\<not> 27 < ai"
  then have "unat (ai - 24) \<le> 3"
    by (simp add: unat_sub word_le_nat_alt word_less_nat_alt)
  then have "(2::nat) ^ unat (ai - 24) \<le> 2 ^ 3" by (intro power_increasing) simp_all
  then show ?thesis by simp
qed

lemma read_arg_error_ok:
  assumes "off < length data"
  shows "error_ok data off (read_arg data off what)"
proof -
  define ai where "ai = info_bits (data ! off)"
  define w :: nat where "w = 2 ^ unat (ai - 24)"
  have "\<exists>v. read_be data (off + 1) w 0 = Inr v"
    if "\<not> ai < 24" "\<not> 27 < ai" "\<not> length data < off + 1 + w"
    using that by (intro read_be_ok) (simp_all add: w_def arg_width_at_most_8)
  with assms show ?thesis
    by (auto simp: read_arg_def index_def Let_def simp flip: ai_def w_def)
qed

lemma read_arg_bounds: "read_arg data off what = Inr (v, e) \<Longrightarrow> off < e \<and> e \<le> length data"
  using read_arg_reads [of data off what v e] by (auto simp: length_head dest: reads_length)

section \<open>Loops and leaf items stay in range\<close>

lemma array_loop_ok:
  assumes item: "\<And>c. c \<le> length data \<Longrightarrow> outcome_ok data c (item c)"
  shows "off < c \<Longrightarrow> c \<le> length data \<Longrightarrow> outcome_ok data off (array_loop item n c)"
proof (induction n arbitrary: c)
  case (Suc n)
  have c: "outcome_ok data c (item c)" using Suc.prems(2) by (rule item)
  then have "error_ok data off (item c)"
    using Suc.prems by (intro error_ok_weaken [OF outcome_error]) simp_all
  moreover have "outcome_ok data off (array_loop item n m)" if "item c = Inr m" for m
    using Suc c that by (intro Suc.IH) simp_all
  ultimately show ?case by (simp add: outcome_ok_bind)
qed simp

lemma map_loop_ok:
  assumes item: "\<And>c. c \<le> length data \<Longrightarrow> outcome_ok data c (item c)"
  shows "off < c \<Longrightarrow> c \<le> length data \<Longrightarrow>
    (\<forall>ps pe. prev = Some (ps, pe) \<longrightarrow> ps \<le> pe \<and> pe \<le> length data) \<Longrightarrow>
    outcome_ok data off (map_loop data item n prev c)"
proof (induction n arbitrary: c prev)
  case (Suc n)
  show ?case
  proof (cases "c < length data \<and> major (data ! c) = 3")
    case False
    with Suc.prems show ?thesis by (auto simp: get_at_def)
  next
    case True
    have it: "outcome_ok data b (item b)" "error_ok data off (item b)"
      if "off < b" "b \<le> length data" for b
      using that item [of b] by (auto intro: error_ok_weaken [OF outcome_error])
    have "error_ok data off (check_order data prev c ke)" if "item c = Inr ke" for ke
      using that Suc.prems item [of c]
      by (auto simp: check_order_def index_range_def split: option.splits ordering.splits)
    moreover have "outcome_ok data off (map_loop data item n (Some (c, ke)) m)"
      if "item c = Inr ke" "item ke = Inr m" for ke m
      using that Suc.prems item [of c] item [of ke] by (intro Suc.IH) simp_all
    moreover have "off < ke \<and> ke \<le> length data" if "item c = Inr ke" for ke
      using that Suc.prems item [of c] by simp
    ultimately show ?thesis
      using True Suc.prems it by (auto simp: get_at_def intro!: outcome_ok_bind)
  qed
qed simp

lemma validate_string_ok:
  assumes "off < length data"
  shows "outcome_ok data off (validate_string data off m)"
  using assms read_arg_error_ok [OF assms]
  by (auto simp: validate_string_def Let_def string_end_Some intro!: outcome_ok_bind
      split: option.splits dest: read_arg_bounds)

lemma simple_or_float_ok:
  assumes "off < length data"
  shows "outcome_ok data off (simple_or_float data off b)"
  using assms by (auto simp: simple_or_float_def Let_def)

lemma check_cid_prefix_ok:
  assumes "off < e" "e < length data" "e < c" "c \<le> length data" "validate_item data e d = Inr c"
    "major (data ! e) = 2"
  shows "outcome_ok data off (check_cid_prefix data e c)"
proof -
  from validate_item_Inr_bounds [OF assms(5)] have "d \<le> MAX_DEPTH" by simp
  with assms have "validate_string data e 2 = Inr c"
    using validate_item_kind(3) [of e data d] by simp
  from validate_string_sound [OF this] assms(6) obtain bs where bs:
      "reads data e (head 2 (length bs) @ bs) c" "length bs < 2 ^ 64" by auto
  then obtain s where s: "reads data e (head 2 (length bs)) s" "reads data s bs c"
    by (auto simp: reads_append)
  have arg: "read_arg data e what = Inr (word_of_nat (length bs), s)" for what
    by (rule reads_read_arg [OF s(1) _ bs(2)]) simp
  have "e < s" "s \<le> c" using s by (auto simp: length_head dest: reads_length)
  with assms show ?thesis by (auto simp: check_cid_prefix_def arg index_def)
qed

lemma validate_item_ok:
  "off \<le> length data \<Longrightarrow> outcome_ok data off (validate_item data off d)"
proof (induction "MAX_DEPTH + 1 - d" arbitrary: d off rule: less_induct)
  case less
  show ?case
  proof (cases "off < length data \<and> d \<le> MAX_DEPTH")
    case False
    with less.prems show ?thesis
      by (auto simp: validate_item.simps [of data off d] get_at_def)
  next
    case True
    then have b: "off < length data" "d \<le> MAX_DEPTH" by simp_all
    note kind = validate_item_kind [OF b]
    note arg = read_arg_error_ok [OF b(1)]
    have IH: "outcome_ok data c (validate_item data c (Suc d))" if "c \<le> length data" for c
      using less.hyps [of "Suc d" c] that b(2) by simp
    show ?thesis
    proof (cases "data ! off" rule: major_cases)
      case 1
      with kind(1) arg show ?thesis by (auto intro!: outcome_ok_bind dest: read_arg_bounds)
    next
      case 2
      with kind(2) arg show ?thesis by (auto intro!: outcome_ok_bind dest: read_arg_bounds)
    next
      case 3
      with kind(3) validate_string_ok [OF b(1)] show ?thesis by simp
    next
      case 4
      with kind(3) validate_string_ok [OF b(1)] show ?thesis by simp
    next
      case 5
      with kind(4) arg show ?thesis
        by (auto intro!: outcome_ok_bind array_loop_ok IH dest: read_arg_bounds)
    next
      case 6
      with kind(5) arg show ?thesis
        by (auto intro!: outcome_ok_bind map_loop_ok IH dest: read_arg_bounds)
    next
      case 7
      have "outcome_ok data off (bind_res (validate_item data e (Suc d)) (check_cid_prefix data e))"
        if e: "off < e" "e < length data" "major (data ! e) = 2" for e
        using IH [of e] e
        by (auto intro!: outcome_ok_bind check_cid_prefix_ok error_ok_weaken [OF outcome_error])
      then show ?thesis
        using 7 b arg
        by (auto simp: validate_item.simps [of data off d] get_at_def Let_def
            intro!: outcome_ok_bind dest: read_arg_bounds)
    next
      case 8
      with kind(6) simple_or_float_ok [OF b(1)] show ?thesis by simp
    qed
  qed
qed

section \<open>One reading only\<close>

lemma head_prefix_inj:
  assumes "m < 8" "n < 2 ^ 64" "n' < 2 ^ 64" "head m n @ r = head m n' @ s"
  shows "n = n' \<and> r = s"
proof -
  let ?data = "head m n @ r"
  have "read_arg ?data 0 [] = Inr (word_of_nat n, 0 + length (head m n))"
    using assms by (intro read_arg_head [where rest = r]) simp_all
  moreover have "read_arg ?data 0 [] = Inr (word_of_nat n', 0 + length (head m n'))"
    using assms by (intro read_arg_head [where rest = s]) simp_all
  ultimately have "(word_of_nat n :: u64) = word_of_nat n'" by simp
  then have "unat (word_of_nat n :: u64) = unat (word_of_nat n' :: u64)" by simp
  then have "n = n'" using assms by (simp add: unat_of_nat)
  with assms show ?thesis by simp
qed

lemma sized_prefix_inj:
  assumes "m < 8" "length bs < 2 ^ 64" "length cs < 2 ^ 64"
    and "head m (length bs) @ bs @ r = head m (length cs) @ cs @ s"
  shows "bs = cs \<and> r = s"
  using head_prefix_inj [OF assms] by auto

lemma enc_text_prefix_inj:
  assumes "text_ok v" "text_ok w" "enc_text v @ r = enc_text w @ s"
  shows "v = w \<and> r = s"
  by (rule sized_prefix_inj [of 3]) (use assms in \<open>simp_all add: enc_text_def text_ok_def\<close>)

interpretation texts: prefix_code enc_text text_ok
  by unfold_locales (rule enc_text_prefix_inj)

lemma enc_major_hd: "unat (major (hd (enc v))) = dmajor v"
proof -
  have "reads (enc v) 0 (enc v) (length (enc v))" by (simp add: reads_def)
  from reads_enc_major [OF this] enc_nonempty [of v] show ?thesis by (simp add: hd_conv_nth)
qed

lemma enc_major_eq: "enc v @ r = enc w @ s \<Longrightarrow> dmajor v = dmajor w"
  using enc_major_hd [of v] enc_major_hd [of w] enc_nonempty
  by (metis hd_append2)

lemma array_prefix_inj:
  assumes "dwf d (DArray vs)" "dwf d' (DArray ws)" "enc (DArray vs) @ r = enc (DArray ws) @ s"
    and IH: "\<And>v d d' w r s. v \<in> set vs \<Longrightarrow> dwf d v \<Longrightarrow> dwf d' w \<Longrightarrow> enc v @ r = enc w @ s \<Longrightarrow> v = w \<and> r = s"
  shows "vs = ws \<and> r = s"
proof -
  let ?a = "concat (map enc vs) @ r" and ?b = "concat (map enc ws) @ s"
  have h: "length vs = length ws \<and> ?a = ?b"
    using assms(1-3) by (intro head_prefix_inj [of 4]) simp_all
  show ?thesis
  proof (rule concat_prefix_inj [where ok = "dwf (d' + 1)"])
    show "\<forall>v \<in> set vs. \<forall>w r s. dwf (d' + 1) w \<longrightarrow> enc v @ r = enc w @ s \<longrightarrow> v = w \<and> r = s"
      using IH assms(1) by (metis dwf.simps(5))
  qed (use h assms(2) in simp_all)
qed

lemma map_prefix_inj:
  assumes "dwf d (DMap kvs)" "dwf d' (DMap lws)" "enc (DMap kvs) @ r = enc (DMap lws) @ s"
    and IH: "\<And>kv d d' w r s. kv \<in> set kvs \<Longrightarrow> dwf d (snd kv) \<Longrightarrow> dwf d' w \<Longrightarrow> enc (snd kv) @ r = enc w @ s \<Longrightarrow>
      snd kv = w \<and> r = s"
  shows "kvs = lws \<and> r = s"
proof -
  let ?a = "concat (map enc_entry kvs) @ r" and ?b = "concat (map enc_entry lws) @ s"
  have h: "length kvs = length lws \<and> ?a = ?b"
    using assms(1-3) by (intro head_prefix_inj [of 5]) (simp_all add: enc_DMap del: enc.simps)
  let ?ok = "\<lambda>kv. text_ok (fst kv) \<and> dwf (d' + 1) (snd kv)"
  show ?thesis
  proof (rule concat_prefix_inj [where ok = ?ok])
    show "\<forall>kv \<in> set kvs. \<forall>lw r s. ?ok lw \<longrightarrow> enc_entry kv @ r = enc_entry lw @ s \<longrightarrow> kv = lw \<and> r = s"
    proof (intro ballI allI impI)
      fix kv lw r s
      assume kv: "kv \<in> set kvs" and lw: "?ok lw" and e: "enc_entry kv @ r = enc_entry lw @ s"
      have k: "text_ok (fst kv)" "dwf (d + 1) (snd kv)" using assms(1) kv by simp_all
      have "fst kv = fst lw \<and> enc (snd kv) @ r = enc (snd lw) @ s"
        using enc_text_prefix_inj [of "fst kv" "fst lw"] k(1) lw e by (simp add: enc_entry_def)
      with IH [OF kv k(2)] lw show "kv = lw \<and> r = s" by (metis prod_eq_iff)
    qed
  qed (use h assms(2) in simp_all)
qed

lemma enc_prefix_inj:
  "dwf d v \<Longrightarrow> dwf d' w \<Longrightarrow> enc v @ r = enc w @ s \<Longrightarrow> v = w \<and> r = s"
proof (induction v arbitrary: d d' w r s)
  case (DUint n)
  with enc_major_eq [OF DUint(3)] obtain n' where "w = DUint n'" by (cases w) simp_all
  with DUint head_prefix_inj [of 0 n n' r s] show ?case by simp
next
  case (DNegint n)
  with enc_major_eq [OF DNegint(3)] obtain n' where "w = DNegint n'" by (cases w) simp_all
  with DNegint head_prefix_inj [of 1 n n' r s] show ?case by simp
next
  case (DBytes bs)
  with enc_major_eq [OF DBytes(3)] obtain cs where "w = DBytes cs" by (cases w) simp_all
  with DBytes sized_prefix_inj [of 2 bs cs r s] show ?case by simp
next
  case (DText bs)
  with enc_major_eq [OF DText(3)] obtain cs where "w = DText cs" by (cases w) simp_all
  with DText enc_text_prefix_inj [of bs cs r s] show ?case by simp
next
  case (DArray vs)
  from enc_major_eq [OF DArray.prems(3)] obtain ws where w: "w = DArray ws" by (cases w) simp_all
  have "vs = ws \<and> r = s"
    by (rule array_prefix_inj [OF DArray.prems(1) _ _ DArray.IH]) (use DArray.prems(2,3) w in \<open>simp_all only:\<close>)
  with w show ?case by simp
next
  case (DMap kvs)
  from enc_major_eq [OF DMap.prems(3)] obtain lws where w: "w = DMap lws" by (cases w) simp_all
  have ih: "snd kv = u \<and> r = s" if "kv \<in> set kvs" "dwf d (snd kv)" "dwf d' u" "enc (snd kv) @ r = enc u @ s" for kv d d' u r s
    using DMap.IH [OF that(1) _ that(2-4)] by (simp add: snds.simps)
  have "kvs = lws \<and> r = s"
    by (rule map_prefix_inj [OF DMap.prems(1) _ _ ih]) (use DMap.prems(2,3) w in \<open>simp_all only:\<close>)
  with w show ?case by simp
next
  case (DCid bs)
  from enc_major_eq [OF DCid(3)] obtain cs where w: "w = DCid cs" by (cases w) simp_all
  have "0 # bs = 0 # cs \<and> r = s"
    by (rule sized_prefix_inj [of 2]) (use DCid w in simp_all)
  with w show ?case by simp
next
  case (DFloat bs)
  with enc_major_eq [OF DFloat(3)] show ?case
    by (cases w) (auto simp: float_ok_def split: if_splits)
next
  case (DBool b)
  with enc_major_eq [OF DBool(3)] show ?case by (cases w) (auto split: if_splits)
next
  case DNull
  with enc_major_eq [OF DNull(3)] show ?case by (cases w) (auto split: if_splits)
qed

interpretation items: prefix_code enc "dwf 0"
  by unfold_locales (rule enc_prefix_inj)

section \<open>Encoded order of keys\<close>

lemma cmp_bytes_append_same [simp]: "cmp_bytes (xs @ ys) (xs @ zs) = cmp_bytes ys zs"
  by (induction xs) simp_all

lemma cmp_be_bytes_less:
  "a < b \<Longrightarrow> b < 256 ^ w \<Longrightarrow> cmp_bytes (be_bytes w a @ xs) (be_bytes w b @ ys) = Less"
proof (induction w arbitrary: a b xs ys)
  case (Suc w)
  show ?case
  proof (cases "a div 256 < b div 256")
    case True
    moreover have "b div 256 < 256 ^ w" using Suc.prems(2) by (simp add: less_mult_imp_div_less mult.commute)
    ultimately show ?thesis using Suc.IH by simp
  next
    case False
    then have d: "a div 256 = b div 256" using Suc.prems(1) div_le_mono [of a b 256] by linarith
    then have "a mod 256 < b mod 256"
      using Suc.prems(1) div_mult_mod_eq [of a 256] div_mult_mod_eq [of b 256] by linarith
    with d show ?thesis by (simp add: word_less_nat_alt)
  qed
qed simp

lemma cmp_head_less:
  assumes "a < b" "b < 2 ^ 64"
  shows "cmp_bytes (head 3 a @ xs) (head 3 b @ ys) = Less"
proof (cases "arg_info a < arg_info b")
  case True
  then have "(word_of_nat (32 * 3 + arg_info a) :: u8) < word_of_nat (32 * 3 + arg_info b)"
    using arg_info_less [of a] arg_info_less [of b]
    unfolding word_less_nat_alt by (simp add: unat_initial del: of_nat_add of_nat_mult)
  then show ?thesis by (simp add: head_def del: of_nat_add of_nat_mult)
next
  case False
  then have "arg_info a = arg_info b \<and> 24 \<le> b \<and> arg_width a = arg_width b"
    using assms(1) by (auto simp: arg_info_def arg_width_def split: if_splits)
  then show ?thesis
    using assms n_less_width [of b] by (simp add: head_def cmp_be_bytes_less)
qed

lemma key_less_length_first:
  assumes "length k < 2 ^ 64" "length l < 2 ^ 64"
  shows "key_less k l \<longleftrightarrow> length k < length l \<or> length k = length l \<and> cmp_bytes k l = Less"
proof -
  consider "length k < length l" | "length k = length l" | "length l < length k" by linarith
  then show ?thesis
  proof cases
    case 1
    with assms show ?thesis by (simp add: key_less_def enc_text_def cmp_head_less)
  next
    case 2
    then show ?thesis by (simp add: key_less_def enc_text_def)
  next
    case 3
    then have "key_less l k" using assms by (simp add: key_less_def enc_text_def cmp_head_less)
    then have "\<not> key_less k l"
      using cmp_bytes_Less_trans [of "enc_text k" "enc_text l" "enc_text k"] by (auto simp: key_less_def)
    with 3 show ?thesis by simp
  qed
qed

section \<open>Properties\<close>

lemma validate_iff_reads:
  "length data < 2 ^ 64 \<Longrightarrow>
   validate data off = Inr e \<longleftrightarrow> (\<exists>v. dwf 0 v \<and> reads data off (enc v) e)"
  unfolding validate_def using validate_item_sound validate_item_complete by blast

lemma reads_whole: "reads data 0 bs (length data) \<longleftrightarrow> bs = data"
  by (auto simp: reads_def)

text \<open>C9: the validator accepts exactly the deterministic encodings: \<open>validate_exact\<close> succeeds
  on a byte string if and only if it is the encoding of a DRISL value (minimal heads, sorted
  distinct text keys, UTF-8 text, finite float64, tag 42 with its 0x00 prefix, nesting within
  the limit). The bound on the length is the address space of a 64-bit target.\<close>

theorem validate_exact_iff_encoding:
  assumes "length data < 2 ^ 64"
  shows "validate_exact data = Inr () \<longleftrightarrow> (\<exists>v. dwf 0 v \<and> data = enc v)"
proof -
  have "validate_exact data = Inr () \<longleftrightarrow> validate data 0 = Inr (length data)"
    by (cases "validate data 0") (auto simp: validate_exact_def err_def)
  then show ?thesis
    using validate_iff_reads [OF assms, of 0 "length data"] reads_whole [of data] by metis
qed

theorem validate_exact_iff_encoding_witness:
  "validate_exact [0x82, 0x01, 0x61, 0x62] = Inr () \<longleftrightarrow>
    (\<exists>v. dwf 0 v \<and> [0x82, 0x01, 0x61, 0x62] = enc v)"
  by (rule validate_exact_iff_encoding) simp

text \<open>C17: the validator never panics, whatever the bytes and the start offset: a success ends
  past its start and within the input, and an error's offset lies between the start and the
  end of the input (or is the start, when that is past the end).\<close>

theorem validate_outcome_ok: "outcome_ok data off (validate data off)"
proof (cases "off \<le> length data")
  case True
  then show ?thesis unfolding validate_def by (rule validate_item_ok)
next
  case False
  then show ?thesis by (simp add: validate_def validate_item.simps [of data off 0] get_at_def MAX_DEPTH_def)
qed

text \<open>what is accepted has one reading only: the bytes between the offsets are the encoding
  of exactly one value, so two consumers that decode validated bytes cannot disagree.\<close>

theorem validate_unique_value:
  assumes "validate data off = Inr e"
  shows "\<exists>!v. dwf 0 v \<and> reads data off (enc v) e"
proof (rule ex_ex1I)
  show "\<exists>v. dwf 0 v \<and> reads data off (enc v) e"
    using validate_item_sound assms by (simp add: validate_def)
  show "v = w" if "dwf 0 v \<and> reads data off (enc v) e" "dwf 0 w \<and> reads data off (enc w) e" for v w
    using that items.enc_inj [of v w] reads_slice by metis
qed

theorem validate_unique_value_witness:
  "\<exists>!v. dwf 0 v \<and> reads [0xa1, 0x61, 0x61, 0x01, 0xf6] 0 (enc v) 4"
  by (rule validate_unique_value) code_simp

text \<open>the verdict depends on the item's own bytes only: whatever follows the end offset can be
  replaced, which is what lets a frame parser validate a header in front of its payload.\<close>

theorem validate_local:
  assumes "validate data off = Inr e" and "length (take e data @ rest) < 2 ^ 64"
  shows "validate (take e data @ rest) off = Inr e"
proof -
  obtain v where v: "dwf 0 v" "reads data off (enc v) e"
    using validate_item_sound [OF assms(1) [unfolded validate_def]] by blast
  from reads_slice [OF v(2)] reads_length [OF v(2)]
  have "reads (take e data @ rest) off (enc v) e"
    by (simp add: reads_def slice_def drop_take)
  with v(1) validate_iff_reads [OF assms(2)] show ?thesis by blast
qed

theorem validate_local_witness:
  "validate (take 4 [0xa1, 0x61, 0x61, 0x01, 0xf6] @ [0xff, 0x00]) 0 = Inr 4"
  by (rule validate_local) (code_simp, simp)

lemma validate_item_array_of_one:
  assumes "off < length data" "data ! off = 0x81" "depth \<le> MAX_DEPTH"
  shows "validate_item data off depth = validate_item data (off + 1) (depth + 1)"
proof -
  have m: "major (data ! off) = 4" using assms(2) by (simp add: word_unat_eq_iff unat_major)
  have i: "info_bits 0x81 = 1" by (simp add: word_unat_eq_iff unat_info_bits)
  have "read_arg data off what = Inr (1, off + 1)" for what
    using assms i by (simp add: read_arg_def index_def)
  then show ?thesis
    using validate_item_kind(4) [OF assms(1,3) m]
    by (simp add: bind_res_def split: sum.splits)
qed

lemma dec_MAX_DEPTH: "dec MAX_DEPTH = ''128''"
  by code_simp

lemma validate_item_nested:
  assumes "n = MAX_DEPTH + 1 - depth" "\<forall>i < n. data ! (off + i) = 0x81" "off + n \<le> length data"
    "depth \<le> MAX_DEPTH + 1"
  shows "validate_item data off depth = err (off + n) ''nesting deeper than 128''"
  using assms
proof (induction n arbitrary: off depth)
  case 0
  then have "MAX_DEPTH < depth" by simp
  then show ?case by (simp add: validate_item.simps [of data off depth] dec_MAX_DEPTH)
next
  case (Suc n)
  have "validate_item data off depth = validate_item data (off + 1) (depth + 1)"
  proof (rule validate_item_array_of_one)
    show "data ! off = 0x81" using Suc.prems(2) [rule_format, of 0] by simp
  qed (use Suc.prems in auto)
  also have "\<dots> = err (off + 1 + n) ''nesting deeper than 128''"
  proof (rule Suc.IH)
    show "\<forall>i < n. data ! (off + 1 + i) = 0x81"
      using Suc.prems(2) by (metis Suc_less_eq add.assoc add.commute plus_1_eq_Suc)
  qed (use Suc.prems in auto)
  finally show ?case by simp
qed

text \<open>C33: pathological nesting is rejected at the limit: more than 128 nested one-element arrays
  are refused at byte 129, before anything behind it is read, however long the input is.\<close>

theorem validate_nesting_limit:
  assumes "MAX_DEPTH < n"
  shows "validate (replicate n 0x81 @ rest) 0 = err 129 ''nesting deeper than 128''"
  using validate_item_nested [of 129 0 "replicate n 0x81 @ rest" 0] assms
  by (simp add: validate_def MAX_DEPTH_def nth_append)

theorem validate_nesting_limit_witness:
  "validate (replicate 2000 0x81 @ [0x00]) 0 = err 129 ''nesting deeper than 128''"
  by (rule validate_nesting_limit) (simp add: MAX_DEPTH_def)

text \<open>the bytewise order of encoded keys that the map check enforces is the length-first
  order: after a key \<open>p\<close>, the key \<open>k\<close> is accepted if and only if it is longer, or as long and
  lexicographically greater (so duplicates are refused as well).\<close>

theorem check_order_length_first:
  assumes "reads data ps (enc_text p) pe" "reads data ks (enc_text k) ke"
    and "length p < 2 ^ 64" "length k < 2 ^ 64"
  shows "check_order data (Some (ps, pe)) ks ke = Inr () \<longleftrightarrow>
    length p < length k \<or> length p = length k \<and> cmp_bytes p k = Less"
  using check_order_reads [of data "Some (ps, pe)" "Some p" ks k ke] assms
  by (simp add: prev_ok_def key_less_length_first)

theorem check_order_length_first_witness:
  "check_order [0x61, 0x74, 0x62, 0x6f, 0x70] (Some (0, 2)) 2 5 = Inr () \<longleftrightarrow>
    length [0x74 :: u8] < length [0x6f, 0x70 :: u8] \<or>
    length [0x74 :: u8] = length [0x6f, 0x70 :: u8] \<and> cmp_bytes [0x74] [0x6f, 0x70] = Less"
  by (rule check_order_length_first) (simp_all add: reads_def enc_text_def head_def arg_info_def arg_width_def)

end
