(* ===== verification/Cbor_Value.thy ===== *)
theory Cbor_Value
  imports Prelude
begin

text \<open>
  The values the program reads out of frames. \<open>ciborium::Value\<close> is the decoder's data type, with
  the constructors the source matches on (\<open>json.rs\<close>); its \<open>as_*\<close> accessors are partial
  projections. Text is kept as its UTF-8 bytes, one character each. The decoder itself
  (\<open>ciborium::de::from_reader\<close>) is not part of the repository: it is the parameter \<open>cbor\<close> of
  the definitions that call it.
\<close>

datatype cbor_value =
    Null
  | Bool bool
  | Integer int
  | Float u64
  | Text string
  | Bytes bytes
  | Array "cbor_value list"
  | Map "(cbor_value \<times> cbor_value) list"
  | Tag u64 cbor_value

type_synonym cbor_reader = "bytes \<Rightarrow> cbor_value option"

fun as_integer :: "cbor_value \<Rightarrow> int option" where
  "as_integer (Integer i) = Some i"
| "as_integer _ = None"

fun as_text :: "cbor_value \<Rightarrow> string option" where
  "as_text (Text s) = Some s"
| "as_text _ = None"

fun as_bytes :: "cbor_value \<Rightarrow> bytes option" where
  "as_bytes (Bytes b) = Some b"
| "as_bytes _ = None"

fun as_array :: "cbor_value \<Rightarrow> cbor_value list option" where
  "as_array (Array xs) = Some xs"
| "as_array _ = None"

fun as_map :: "cbor_value \<Rightarrow> (cbor_value \<times> cbor_value) list option" where
  "as_map (Map es) = Some es"
| "as_map _ = None"

text \<open>\<open>i128::from(i) as i64\<close>: the low 64 bits, as two's complement.\<close>

definition as_i64 :: "int \<Rightarrow> int" where
  "as_i64 i = (i + 2 ^ 63) mod 2 ^ 64 - 2 ^ 63"

lemma as_i64_id [simp]: "- (2 ^ 63) \<le> i \<Longrightarrow> i < 2 ^ 63 \<Longrightarrow> as_i64 i = i"
  by (simp add: as_i64_def)

lemma as_i64_range: "- (2 ^ 63) \<le> as_i64 i \<and> as_i64 i < 2 ^ 63"
  by (simp add: as_i64_def)

lemma as_i64_sint: "as_i64 i = sint (word_of_int i :: u64)"
  by (simp add: as_i64_def signed_of_int signed_take_bit_eq_take_bit_shift take_bit_eq_mod)

end
