(* ===== verification/Frame.thy ===== *)
theory Frame
  imports Drisl_Properties Cbor_Value
begin

text \<open>
  at-sync wire frames (\<open>rust/crates/atmoq/src/frame.rs\<close>): two concatenated items, a header and
  a payload. Both are validated before any value is decoded, and the validator's end offset is
  the boundary between them. Errors are the contexts and \<open>bail!\<close>s of the source.
\<close>

datatype frame_error =
    HeaderInvalid drisl_fault
  | OneItem
  | PayloadInvalid drisl_fault
  | TrailingBytes nat nat
  | HeaderDecode
  | PayloadDecode
  | MissingOp
  | MissingType

record frame =
  fop :: int
  ft :: "string option"
  fseq :: "int option"
  fraw :: bytes

definition field :: "cbor_value \<Rightarrow> string \<Rightarrow> cbor_value option" where
  "field v key =
     (case as_map v of
        None \<Rightarrow> None
      | Some es \<Rightarrow> map_option snd (find (\<lambda>kv. as_text (fst kv) = Some key) es))"

definition decode :: "cbor_reader \<Rightarrow> bytes \<Rightarrow> frame_error + cbor_value \<times> cbor_value" where
  "decode cbor raw =
     (case validate raw 0 of
        Inl e \<Rightarrow> Inl (HeaderInvalid e)
      | Inr header_end \<Rightarrow>
          if length raw \<le> header_end then Inl OneItem
          else case validate raw header_end of
            Inl e \<Rightarrow> Inl (PayloadInvalid e)
          | Inr payload_end \<Rightarrow>
              if payload_end \<noteq> length raw
              then Inl (TrailingBytes (length raw - payload_end) (length raw))
              else case cbor (take header_end raw) of
                None \<Rightarrow> Inl HeaderDecode
              | Some header \<Rightarrow>
                  (case cbor (drop header_end raw) of
                     None \<Rightarrow> Inl PayloadDecode
                   | Some payload \<Rightarrow> Inr (header, payload)))"

definition parse :: "cbor_reader \<Rightarrow> bytes \<Rightarrow> frame_error + frame" where
  "parse cbor raw =
     bind_res (decode cbor raw) (\<lambda>(header, payload).
       case Option.bind (field header ''op'') as_integer of
         None \<Rightarrow> Inl MissingOp
       | Some i \<Rightarrow>
           let op = as_i64 i;
               t = Option.bind (field header ''t'') as_text in
           if op = 1 \<and> t = None then Inl MissingType
           else
             Inr \<lparr>fop = op, ft = t,
                  fseq = map_option as_i64 (Option.bind (field payload ''seq'') as_integer),
                  fraw = raw\<rparr>)"

section \<open>The boundary between header and payload\<close>

lemma decode_Inr:
  "decode cbor raw = Inr (h, p) \<longleftrightarrow>
    (\<exists>b. validate raw 0 = Inr b \<and> b < length raw \<and> validate raw b = Inr (length raw) \<and>
      cbor (take b raw) = Some h \<and> cbor (drop b raw) = Some p)"
  by (auto simp: decode_def split: sum.splits option.splits if_splits)

lemma validate_two_items:
  assumes "length raw < 2 ^ 64"
  shows "(\<exists>b. P b \<and> validate raw 0 = Inr b \<and> b < length raw \<and> validate raw b = Inr (length raw)) \<longleftrightarrow>
    (\<exists>hv pv. dwf 0 hv \<and> dwf 0 pv \<and> raw = enc hv @ enc pv \<and> P (length (enc hv)))"
    (is "?l \<longleftrightarrow> ?r")
proof
  assume ?l
  then obtain b where b: "P b" "validate raw 0 = Inr b" "validate raw b = Inr (length raw)" by blast
  then obtain hv pv where v: "dwf 0 hv" "reads raw 0 (enc hv) b" "dwf 0 pv" "reads raw b (enc pv) (length raw)"
    using validate_iff_reads [OF assms] by blast
  then have "reads raw 0 (enc hv @ enc pv) (length raw)" by (auto simp: reads_append)
  then have "raw = enc hv @ enc pv" by (simp add: reads_whole)
  moreover have "b = length (enc hv)" using reads_length [OF v(2)] by simp
  ultimately show ?r using b(1) v by blast
next
  assume ?r
  then obtain hv pv where v: "dwf 0 hv" "dwf 0 pv" "raw = enc hv @ enc pv" "P (length (enc hv))" by blast
  let ?b = "length (enc hv)"
  have "reads raw 0 (enc hv) ?b" "reads raw ?b (enc pv) (length raw)"
    by (simp_all add: v(3) reads_def)
  then have "validate raw 0 = Inr ?b" "validate raw ?b = Inr (length raw)"
    using validate_iff_reads [OF assms] v(1,2) by blast+
  moreover have "?b < length raw" using v(3) enc_nonempty by simp
  ultimately show ?l using v(4) by blast
qed

section \<open>Properties\<close>

text \<open>C16: decoding a frame succeeds exactly when the bytes are two DRISL items back to back, and
  then the decoder saw each item's own bytes, header first: the boundary is pinned by the
  validator, and nothing is left over.\<close>

theorem decode_iff_two_items:
  assumes "length raw < 2 ^ 64"
  shows "decode cbor raw = Inr (h, p) \<longleftrightarrow>
    (\<exists>hv pv. dwf 0 hv \<and> dwf 0 pv \<and> raw = enc hv @ enc pv \<and>
      cbor (enc hv) = Some h \<and> cbor (enc pv) = Some p)"
proof -
  let ?P = "\<lambda>b. cbor (take b raw) = Some h \<and> cbor (drop b raw) = Some p"
  have "decode cbor raw = Inr (h, p) \<longleftrightarrow>
    (\<exists>b. ?P b \<and> validate raw 0 = Inr b \<and> b < length raw \<and> validate raw b = Inr (length raw))"
    unfolding decode_Inr by blast
  moreover have "dwf 0 hv \<and> dwf 0 pv \<and> raw = enc hv @ enc pv \<and> ?P (length (enc hv)) \<longleftrightarrow>
      dwf 0 hv \<and> dwf 0 pv \<and> raw = enc hv @ enc pv \<and>
      cbor (enc hv) = Some h \<and> cbor (enc pv) = Some p" for hv pv
    by auto
  ultimately show ?thesis unfolding validate_two_items [OF assms] by simp
qed

theorem decode_iff_two_items_witness:
  "decode (\<lambda>bs. if bs = [0xf6] then Some Null else Some (Integer 1)) [0x01, 0xf6] =
      Inr (Integer 1, Null) \<longleftrightarrow>
    (\<exists>hv pv. dwf 0 hv \<and> dwf 0 pv \<and> [0x01, 0xf6] = enc hv @ enc pv \<and>
      (if enc hv = [0xf6] then Some Null else Some (Integer 1)) = Some (Integer 1) \<and>
      (if enc pv = [0xf6] then Some Null else Some (Integer 1)) = Some Null)"
  by (rule decode_iff_two_items) simp

text \<open>parsing is a passthrough: a parsed frame carries the wire bytes unchanged and its fields
  are those of the decoded header and payload; a message frame (\<open>op = 1\<close>) has a type.\<close>

theorem parse_passthrough:
  assumes "parse cbor raw = Inr f"
  shows "fraw f = raw \<and> (fop f = 1 \<longrightarrow> ft f \<noteq> None) \<and>
    (\<exists>h p i. decode cbor raw = Inr (h, p) \<and> field h ''op'' = Some (Integer i) \<and> fop f = as_i64 i \<and>
      ft f = Option.bind (field h ''t'') as_text \<and>
      fseq f = map_option as_i64 (Option.bind (field p ''seq'') as_integer))"
proof -
  have int: "as_integer v = Some i \<longleftrightarrow> v = Integer i" for v i by (cases v) simp_all
  show ?thesis
    using assms by (auto simp: parse_def Let_def bind_eq_Some_conv int split: option.splits if_splits)
qed

text \<open>A reader for two concrete items: the header map \<open>{"op": 1, "t": "#a"}\<close> and \<open>{"seq": 7}\<close>.\<close>

definition sample_header :: bytes where
  "sample_header = [0xa2, 0x61, 0x74, 0x62, 0x23, 0x61, 0x62, 0x6f, 0x70, 0x01]"

definition sample_payload :: bytes where
  "sample_payload = [0xa1, 0x63, 0x73, 0x65, 0x71, 0x07]"

definition sample_reader :: cbor_reader where
  "sample_reader bs =
     (if bs = sample_header
      then Some (Map [(Text ''t'', Text ''#a''), (Text ''op'', Integer 1)])
      else if bs = sample_payload then Some (Map [(Text ''seq'', Integer 7)]) else None)"

lemma parse_sample:
  "parse sample_reader (sample_header @ sample_payload) =
    Inr \<lparr>fop = 1, ft = Some ''#a'', fseq = Some 7, fraw = sample_header @ sample_payload\<rparr>"
  by code_simp

theorem parse_passthrough_witness:
  "fraw \<lparr>fop = 1, ft = Some ''#a'', fseq = Some 7, fraw = sample_header @ sample_payload\<rparr> =
    sample_header @ sample_payload"
  using parse_passthrough [OF parse_sample] by simp

text \<open>a valid frame followed by anything is no frame: one message cannot hide another behind
  it.\<close>

theorem decode_rejects_trailing:
  assumes "decode cbor raw = Inr x" "length (raw @ extra) < 2 ^ 64" "extra \<noteq> []"
  shows "decode cbor' (raw @ extra) \<noteq> Inr y"
proof
  assume d: "decode cbor' (raw @ extra) = Inr y"
  obtain h p h' p' where xy: "x = (h, p)" "y = (h', p')" by (cases x, cases y)
  have len: "length raw < 2 ^ 64" using assms(2) by simp
  from assms(1) decode_iff_two_items [OF len, of cbor h p] obtain hv pv where
    v: "dwf 0 hv" "dwf 0 pv" "raw = enc hv @ enc pv" by (auto simp: xy)
  from d decode_iff_two_items [OF assms(2), of cbor' h' p'] obtain hw pw where
    w: "dwf 0 hw" "dwf 0 pw" "raw @ extra = enc hw @ enc pw" by (auto simp: xy)
  have "enc hv @ enc pv @ extra = enc hw @ enc pw" using v(3) w(3) by simp
  with items.prefix_inj [OF v(1) w(1)] have "enc pv @ extra = enc pw @ []" by simp
  with items.prefix_inj [OF v(2) w(2)] assms(3) show False by blast
qed

theorem decode_rejects_trailing_witness:
  "decode sample_reader ((sample_header @ sample_payload) @ [0x00]) \<noteq> Inr (Null, Null)"
  by (rule decode_rejects_trailing [where cbor = sample_reader]) (code_simp, simp_all add: sample_header_def sample_payload_def)

definition wrapped_header :: bytes where
  "wrapped_header = [0xa1, 0x62, 0x6f, 0x70, 0x1b, 0xff, 0xff, 0xff, 0xff, 0xff, 0xff, 0xff, 0xff]"

definition wrapped_reader :: cbor_reader where
  "wrapped_reader bs =
     (if bs = wrapped_header then Some (Map [(Text ''op'', Integer 18446744073709551615)])
      else if bs = sample_payload then Some (Map [(Text ''seq'', Integer 7)]) else None)"

text \<open>the casts of \<open>op\<close> and \<open>seq\<close> to \<open>i64\<close> wrap, so a header whose \<open>op\<close> is the unsigned
  integer \<open>2 ^ 64 - 1\<close> parses as \<open>op = -1\<close>, the upstream error frame.\<close>

theorem parse_op_wraps:
  "map_sum id fop (parse wrapped_reader (wrapped_header @ sample_payload)) = Inr (-1)"
  by code_simp

end
