(* ===== verification/Car.thy ===== *)
theory Car
  imports Codec
begin

text \<open>
  The CAR block reader (\<open>rust/crates/atmoq/src/car.rs\<close>): LEB128 numbers, binary CIDs and the
  block loop. A cursor \<open>&mut &[u8]\<close> is the remaining input, returned with the value; after an
  error the callers never look at it again. The block table is a map (\<open>HashMap\<close>).
\<close>

section \<open>Numbers\<close>

datatype car_error =
    TruncatedVarint
  | VarintOverflow
  | HeaderExceedsInput u64
  | UnsupportedVersion u64
  | TruncatedMultihash

fun varint_loop :: "bytes \<Rightarrow> u64 \<Rightarrow> nat \<Rightarrow> car_error + u64 \<times> bytes" where
  "varint_loop [] value shift = Inl TruncatedVarint"
| "varint_loop (byte # rest) value shift =
     (let value = value OR push_bit shift (ucast (byte AND 0x7f)) in
      if byte AND 0x80 = 0 then Inr (value, rest)
      else if 64 \<le> shift + 7 then Inl VarintOverflow
      else varint_loop rest value (shift + 7))"

definition varint :: "bytes \<Rightarrow> car_error + u64 \<times> bytes" where
  "varint cur = varint_loop cur 0 0"

lemma varint_loop_consumes:
  "varint_loop bs v s = Inr (n, r) \<Longrightarrow> \<exists>p. bs = p @ r \<and> p \<noteq> []"
proof (induction bs v s rule: varint_loop.induct)
  case (2 byte rest v0 s0)
  show ?case
  proof (cases "byte AND 0x80 = 0")
    case True
    with 2 show ?thesis by (intro exI [of _ "[byte]"]) (simp add: Let_def)
  next
    case False
    with 2 obtain p where "rest = p @ r" by (auto simp: Let_def split: if_splits)
    then show ?thesis by (intro exI [of _ "byte # p"]) simp
  qed
qed simp

lemma varint_shorter: "varint bs = Inr (n, r) \<Longrightarrow> length r < length bs"
  unfolding varint_def by (auto dest: varint_loop_consumes)

section \<open>CIDs and blocks\<close>

text \<open>Version, codec and multihash off the front; the result is the CID's own bytes,
  \<open>start[..start.len() - cur.len()]\<close>, and the rest.\<close>

definition read_cid :: "bytes \<Rightarrow> car_error + bytes \<times> bytes" where
  "read_cid start =
     bind_res (varint start) (\<lambda>(version, cur).
       if version \<noteq> 1 then Inl (UnsupportedVersion version)
       else
         bind_res (varint cur) (\<lambda>(codec, cur).
         bind_res (varint cur) (\<lambda>(hash_code, cur).
         bind_res (varint cur) (\<lambda>(hash_len, cur).
           if uint hash_len > int (length cur) then Inl TruncatedMultihash
           else
             let cur = drop (unat hash_len) cur in
             Inr (take (length start - length cur) start, cur)))))"

type_synonym block_map = "bytes \<rightharpoonup> bytes"

function blocks_loop :: "bytes \<Rightarrow> block_map \<Rightarrow> block_map" where
  "blocks_loop cur out =
     (if cur = [] then out
      else case varint cur of
        Inl _ \<Rightarrow> out
      | Inr (entry_len, rest) \<Rightarrow>
          if uint entry_len > int (length rest) then out
          else
            let entry = take (unat entry_len) rest; next = drop (unat entry_len) rest in
            case read_cid entry of
              Inl _ \<Rightarrow> blocks_loop next out
            | Inr (cid, body) \<Rightarrow> blocks_loop next (out(cid \<mapsto> body)))"
  by pat_completeness auto
termination
  by (relation "measure (\<lambda>(cur, out). length cur)") (auto dest: varint_shorter)

declare blocks_loop.simps [simp del]

definition blocks :: "bytes \<Rightarrow> car_error + block_map" where
  "blocks data =
     bind_res (varint data) (\<lambda>(header_len, cur).
       if uint header_len > int (length cur) then Inl (HeaderExceedsInput header_len)
       else Inr (blocks_loop (drop (unat header_len) cur) Map.empty))"

section \<open>Bits of a number\<close>

text \<open>Seven bits below the ones already read are added, not overlaid.\<close>

lemma unat_or_push_bit:
  fixes v d :: u64
  assumes v: "unat v < 2 ^ s" and s: "s < 64" and d: "unat v + unat d * 2 ^ s < 2 ^ 64"
  shows "unat (v OR push_bit s d) = unat v + unat d * 2 ^ s"
proof -
  have "take_bit s (unat v) = unat v" using v by (simp add: take_bit_nat_eq_self)
  then have tv: "take_bit s v = v"
    by (simp add: word_unat_eq_iff unsigned_take_bit_eq)
  have *: "bit v k \<Longrightarrow> k < s" for k
    by (subst (asm) tv [symmetric]) (simp add: bit_take_bit_iff)
  have "v AND push_bit s d = 0"
    by (rule bit_eqI) (auto simp: bit_simps dest!: *)
  then have "v OR push_bit s d = v + push_bit s d"
    by (simp add: disjunctive_add_eq_or)
  moreover have "unat (push_bit s d) = unat d * 2 ^ s"
  proof -
    have "unat (push_bit s d) = (unat d * 2 ^ s) mod 2 ^ 64"
      unfolding unsigned_push_bit_eq by (simp add: take_bit_eq_mod push_bit_eq_mult)
    then show ?thesis using d by simp
  qed
  ultimately show ?thesis using d by (simp add: unat_word_ariths)
qed

lemma and_0x7f: "unat ((b :: u8) AND 0x7f) = unat b mod 128"
proof -
  have "b AND 0x7f = take_bit 7 b"
    by (simp add: take_bit_eq_mask mask_eq_exp_minus_1)
  then show ?thesis unfolding unsigned_take_bit_eq by (simp add: take_bit_eq_mod unat_mod)
qed

lemma and_0x80: "(b :: u8) AND 0x80 = 0 \<longleftrightarrow> unat b < 128"
proof -
  have "b AND 0x80 = 0 \<longleftrightarrow> \<not> bit b 7"
    using and_exp_eq_0_iff_not_bit [of b 7] by simp
  also have "\<dots> \<longleftrightarrow> even (unat b div 128)"
    using bit_unsigned_iff [of b 7, where 'a = nat] by (simp add: bit_iff_odd)
  also have "\<dots> \<longleftrightarrow> unat b < 128"
  proof -
    have "even (m div 128) \<longleftrightarrow> m < 128" if "m < 256" for m :: nat
    proof -
      have "m div 128 = 0 \<or> m div 128 = 1" using that by linarith
      then show ?thesis by auto
    qed
    then show ?thesis using unat_u8_less by blast
  qed
  finally show ?thesis .
qed

section \<open>LEB128\<close>

text \<open>The number's code, seven bits a byte, low ones first; the top bit says that more follow.\<close>

fun leb :: "nat \<Rightarrow> bytes" where
  "leb n = (if n < 128 then [word_of_nat n] else word_of_nat (n mod 128 + 128) # leb (n div 128))"
declare leb.simps [simp del]

lemma varint_loop_leb:
  "unat v < 2 ^ s \<Longrightarrow> s < 64 \<Longrightarrow> unat v + n * 2 ^ s < 2 ^ 64 \<Longrightarrow>
    \<exists>u. varint_loop (leb n @ r) v s = Inr (u, r) \<and> unat u = unat v + n * 2 ^ s"
proof (induction n arbitrary: v s rule: leb.induct)
  case (1 n)
  define d where "d = n mod 128"
  have d: "d < 128" by (simp add: d_def)
  have byte: "unat ((word_of_nat m :: u8) AND 0x7f) = m mod 128" for m
    by (simp add: and_0x7f mod_mod_cancel)
  have lt: "unat v + d * 2 ^ s < 2 ^ 64"
    by (rule le_less_trans [OF _ "1.prems"(3)]) (simp add: d_def)
  have v': "unat (v OR push_bit s (ucast (b AND 0x7f))) = unat v + d * 2 ^ s"
    if "unat (b AND 0x7f) = d" for b :: u8
    using unat_or_push_bit [OF "1.prems"(1,2), of "ucast (b AND 0x7f)"] that lt d
    by (simp add: unsigned_ucast_eq take_bit_nat_eq_self)
  show ?case
  proof (cases "n < 128")
    case True
    then show ?thesis using v' [of "word_of_nat n"]
      by (simp add: leb.simps [of n] and_0x80 byte d_def)
  next
    case False
    have "128 * 2 ^ s \<le> n * 2 ^ s" using False by simp
    then have "128 * 2 ^ s < (2::nat) ^ 64" using "1.prems"(3) by linarith
    then have "2 ^ (7 + s) < (2::nat) ^ 64" by (simp add: power_add)
    then have s: "s + 7 < 64" using power_less_imp_less_exp [of "2::nat" "7 + s" 64] by simp
    let ?b = "word_of_nat (n mod 128 + 128) :: u8"
    let ?v = "v OR push_bit s (ucast (?b AND 0x7f))"
    have b: "unat ?b = d + 128" using d by (simp add: d_def del: of_nat_add)
    have u: "unat ?v = unat v + d * 2 ^ s" by (rule v') (simp add: byte d_def del: of_nat_add)
    have n: "n = d + n div 128 * 128" by (simp add: d_def)
    have "x + n div 128 * 2 ^ (s + 7) = unat v + n * 2 ^ s" if "x = unat v + d * 2 ^ s" for x
    proof -
      have "n * 2 ^ s = (d + n div 128 * 128) * 2 ^ s" using n by simp
      then show ?thesis by (simp only: that power_add add_mult_distrib) simp
    qed
    from this [OF u] have tot: "unat ?v + n div 128 * 2 ^ (s + 7) = unat v + n * 2 ^ s" .
    have "unat v + d * 2 ^ s < 2 ^ s + d * 2 ^ s" using "1.prems"(1) by simp
    also have "\<dots> = Suc d * 2 ^ s" by simp
    also have "\<dots> \<le> 128 * 2 ^ s" using d by (intro mult_right_mono) simp_all
    finally have "unat ?v < 2 ^ (s + 7)" unfolding u by (simp add: power_add mult.commute)
    from "1.IH" [OF False this s] obtain w where
      "varint_loop (leb (n div 128) @ r) ?v (s + 7) = Inr (w, r)" "unat w = unat v + n * 2 ^ s"
      using "1.prems"(3) tot by auto
    then show ?thesis using False s b by (simp add: leb.simps [of n] and_0x80 del: of_nat_add)
  qed
qed

lemma leb_nonempty [simp]: "leb n \<noteq> []"
  by (subst leb.simps) simp

lemma varint_leb:
  assumes "n < 2 ^ 64"
  shows "\<exists>u. varint (leb n @ r) = Inr (u, r) \<and> unat u = n"
  using varint_loop_leb [of 0 0 n r] assms by (simp add: varint_def)

lemma varint_leb_of_nat [simp]:
  assumes "n < 2 ^ 64"
  shows "varint (leb n @ r) = Inr (word_of_nat n, r)"
  using varint_leb [OF assms, of r] by auto

lemma varint_loop_append:
  "varint_loop p v s = Inr (n, r) \<Longrightarrow> varint_loop (p @ q) v s = Inr (n, r @ q)"
  by (induction p v s rule: varint_loop.induct) (auto simp: Let_def split: if_splits)

lemma varint_append: "varint p = Inr (n, r) \<Longrightarrow> varint (p @ q) = Inr (n, r @ q)"
  by (simp add: varint_def varint_loop_append)

text \<open>A LEB128 number is the number's own code: the reader takes it off the front of anything.\<close>

definition read_number :: "bytes \<Rightarrow> (nat \<times> bytes) option" where
  "read_number bs = (case varint bs of Inl _ \<Rightarrow> None | Inr (u, r) \<Rightarrow> Some (unat u, r))"

interpretation lebs: stream_codec leb "\<lambda>n. n < 2 ^ 64" read_number
proof
  fix n :: nat and r
  assume "n < 2 ^ 64"
  from varint_leb [OF this, of r] obtain u where "varint (leb n @ r) = Inr (u, r)" "unat u = n"
    by blast
  then show "read_number (leb n @ r) = Some (n, r)" by (simp add: read_number_def)
qed

section \<open>Archives\<close>

text \<open>A version 1 CID, an entry of the archive, and the entries the reader understands.\<close>

definition cid_of :: "nat \<Rightarrow> nat \<Rightarrow> bytes \<Rightarrow> bytes" where
  "cid_of codec hash digest = leb 1 @ leb codec @ leb hash @ leb (length digest) @ digest"

definition cid_ok :: "bytes \<Rightarrow> bool" where
  "cid_ok c \<longleftrightarrow> (\<exists>codec hash digest. c = cid_of codec hash digest \<and> codec < 2 ^ 64 \<and>
     hash < 2 ^ 64 \<and> length digest < 2 ^ 64)"

definition car_entry :: "bytes \<times> bytes \<Rightarrow> bytes" where
  "car_entry cb = leb (length (fst cb @ snd cb)) @ fst cb @ snd cb"

definition entry_ok :: "bytes \<times> bytes \<Rightarrow> bool" where
  "entry_ok cb \<longleftrightarrow> cid_ok (fst cb) \<and> length (fst cb @ snd cb) < 2 ^ 64"


lemma uint_word_of_nat_u64: "n < 2 ^ 64 \<Longrightarrow> uint (word_of_nat n :: u64) = int n"
  by (subst uint_nat) (simp add: unat_of_nat)

lemma read_cid_ok: 
  assumes "cid_ok c" shows "read_cid (c @ b) = Inr (c, b)"
proof -
  from assms obtain codec hash digest where c: "c = cid_of codec hash digest"
    and ok: "codec < 2 ^ 64" "hash < 2 ^ 64" "length digest < 2 ^ 64"
    by (auto simp: cid_ok_def)
  have "varint (c @ b) = Inr (1, leb codec @ leb hash @ leb (length digest) @ digest @ b)"
    by (simp add: c cid_of_def)
  moreover have "unat (word_of_nat (length digest) :: u64) = length digest"
    using ok(3) by (simp add: unat_of_nat)
  ultimately show ?thesis using ok
    by (simp add: read_cid_def Let_def uint_word_of_nat_u64 del: bind_res_eq_Inr)
qed

lemma blocks_loop_step:
  assumes "cur \<noteq> []" "varint cur = Inr (l, entry @ r)" "uint l = int (length entry)"
    "unat l = length entry" "read_cid entry = Inr (c, b)"
  shows "blocks_loop cur out = blocks_loop r (out(c \<mapsto> b))"
  using assms by (subst blocks_loop.simps) (simp add: Let_def)

lemma blocks_loop_entry:
  assumes "entry_ok e" shows "blocks_loop (car_entry e @ r) out = blocks_loop r (out(fst e \<mapsto> snd e))"
proof -
  let ?n = "length (fst e @ snd e)"
  have n: "?n < 2 ^ 64" and c: "cid_ok (fst e)" using assms by (simp_all add: entry_ok_def)
  have ne: "leb ?n \<noteq> []" by (rule leb_nonempty)
  have v: "varint (car_entry e @ r) = Inr (word_of_nat ?n, fst e @ snd e @ r)"
    using varint_leb_of_nat [OF n, of "fst e @ snd e @ r"] by (simp add: car_entry_def)
  have u: "unat (word_of_nat ?n :: u64) = ?n" "uint (word_of_nat ?n :: u64) = int ?n"
    using n by (simp add: unat_of_nat del: length_append of_nat_add) (rule uint_word_of_nat_u64 [OF n])
  have "car_entry e @ r \<noteq> []" using ne by (simp add: car_entry_def)
  moreover have "varint (car_entry e @ r) = Inr (word_of_nat ?n, (fst e @ snd e) @ r)"
    using v by (simp only: append_assoc)
  ultimately show ?thesis by (rule blocks_loop_step [OF _ _ u(2,1) read_cid_ok [OF c]])
qed

lemma blocks_loop_entries:
  "\<forall>e \<in> set es. entry_ok e \<Longrightarrow>
    blocks_loop (concat (map car_entry es) @ r) out = blocks_loop r (out ++ map_of (rev es))"
proof (induction es arbitrary: out)
  case (Cons e es)
  then show ?case by (cases e) (simp add: blocks_loop_entry)
qed simp

lemma blocks_loop_torn:
  assumes "entry_ok e" "car_entry e = t @ q" "q \<noteq> []"
  shows "blocks_loop t out = out"
proof (cases "varint t")
  case (Inl x)
  then show ?thesis by (simp add: blocks_loop.simps [of t])
next
  case (Inr a)
  obtain l r where a: "a = (l, r)" by (cases a)
  let ?n = "length (fst e @ snd e)"
  have n: "?n < 2 ^ 64" using assms(1) by (simp add: entry_ok_def)
  have "varint (t @ q) = Inr (word_of_nat ?n, fst e @ snd e)"
    using varint_leb_of_nat [OF n, of "fst e @ snd e"] assms(2) by (simp add: car_entry_def)
  moreover have "varint (t @ q) = Inr (l, r @ q)" using varint_append [of t l r q] Inr a by simp
  ultimately have "l = word_of_nat ?n" "r @ q = fst e @ snd e"
    by (simp_all only: sum.inject prod.inject)
  then have "length r < ?n" "uint l = int ?n"
    using assms(3) uint_word_of_nat_u64 [OF n] by (metis length_append length_greater_0_conv less_add_same_cancel1, simp)
  then show ?thesis by (simp add: blocks_loop.simps [of t] Inr a)
qed

section \<open>Properties\<close>

text \<open>C26: the block table of an archive is its entries, the last one winning where a CID is
  repeated; the header's content does not matter, and a last entry cut off at any point (inside
  its length, its CID or its body) is ignored, not an error.\<close>

theorem blocks_of_archive:
  assumes "length h < 2 ^ 64" "\<forall>e \<in> set es. entry_ok e"
    and "tail = [] \<or> (\<exists>e q. entry_ok e \<and> q \<noteq> [] \<and> car_entry e = tail @ q)"
  shows "blocks (leb (length h) @ h @ concat (map car_entry es) @ tail) = Inr (map_of (rev es))"
proof -
  have "blocks_loop tail out = out" for out
    using assms(3) blocks_loop_torn by (auto simp: blocks_loop.simps [of "[]"])
  then show ?thesis
    using assms(1,2)
    by (simp add: blocks_def uint_word_of_nat_u64 unat_of_nat blocks_loop_entries del: bind_res_eq_Inr)
qed

theorem blocks_of_archive_witness:
  "blocks (leb (length [0xa0 :: u8]) @ [0xa0] @
      concat (map car_entry [(cid_of 0x71 0x12 [9, 9], [1]), (cid_of 0x71 0x12 [9, 9], [2])]) @ [0x05]) =
    Inr (map_of (rev [(cid_of 0x71 0x12 [9, 9], [1]), (cid_of 0x71 0x12 [9, 9], [2])]))"
proof (rule blocks_of_archive)
  have c: "cid_ok (cid_of 0x71 0x12 d)" if "length d < 2 ^ 64" for d
    using that unfolding cid_ok_def by (intro exI [of _ "0x71"] exI [of _ "0x12"] exI [of _ d]) simp
  have l: "length (cid_of 0x71 0x12 [9, 9]) = 6" "length (cid_of 0x71 0x12 []) = 4" by code_simp+
  show "length [0xa0 :: u8] < 2 ^ 64" by simp
  show "\<forall>e \<in> set [(cid_of 0x71 0x12 [9, 9], [1]), (cid_of 0x71 0x12 [9, 9], [2])]. entry_ok e"
    by (simp add: entry_ok_def c l)
  have "car_entry (cid_of 0x71 0x12 [], [7]) = [0x05] @ [1, 0x71, 0x12, 0, 7]" by code_simp
  moreover have "entry_ok (cid_of 0x71 0x12 [], [7])" by (simp add: entry_ok_def c l)
  ultimately show "[0x05] = [] \<or>
      (\<exists>e q. entry_ok e \<and> q \<noteq> [] \<and> car_entry e = [0x05] @ q)" by blast
qed

text \<open>LEB128 numbers read back one after another, and the reader leaves exactly the bytes
  behind them.\<close>

theorem varints_read_back:
  "\<forall>n \<in> set ns. n < 2 ^ 64 \<Longrightarrow>
    decode_n read_number (length ns) (concat (map leb ns) @ r) = Some (ns, r)"
  by (rule lebs.decode_n_concat)

theorem varints_read_back_witness:
  "decode_n read_number (length [5, 300, 0 :: nat]) (concat (map leb [5, 300, 0]) @ [1]) = Some ([5, 300, 0], [1])"
  by (rule varints_read_back) simp

text \<open>the overflow check looks at the shift, not at the value: of a tenth byte only the lowest
  bit is kept, so numbers of 2 ^ 64 and more are read as smaller ones, without an error.\<close>

theorem varint_high_bits:
  "varint (replicate 9 0x80 @ (b AND 0x7f) # r) = Inr (push_bit 63 (ucast b), r)"
proof -
  have "push_bit 63 (ucast (b AND 0x7f)) = (push_bit 63 (ucast b) :: u64)"
    by (rule bit_eqI) (auto simp: bit_simps)
  moreover have "(b AND 0x7f) AND 0x80 = 0" by (simp add: and.assoc)
  moreover have "replicate 9 x = [x, x, x, x, x, x, x, x, x]" for x :: u8
    by (simp add: eval_nat_numeral(1-3) replicate_Suc numeral_eq_Suc)
  ultimately show ?thesis by (simp add: varint_def Let_def)
qed

end
