(* ===== verification/Router.thy ===== *)
theory Router
  imports Frame Metrics Track_Properties "HOL-Library.AList"
begin

text \<open>
  Per-account tracks on demand (\<open>rust/crates/atmoq/src/router.rs\<close>). The request loop, the watchers of
  unused tracks and the pump share the routing map under a lock, so each of them is one operation
  on it: \<open>request_track\<close> (one turn of the loop), \<open>unused\<close> (a watcher firing) and \<open>route\<close>. A
  requested track arrives from the transport fresh and named.
\<close>

section \<open>State\<close>

definition MAX_DID_TRACKS :: nat where
  "MAX_DID_TRACKS = 10000"

record did_track =
  dtrack :: "unit track"
  dgroups :: "group list"
  dgroup :: handle
  dcount :: nat
  dgeneration :: u64

record did_router =
  ractive :: "(string \<times> did_track) list"
  rgroup_size :: nat
  rwindow :: u64
  rmax_tracks :: nat
  rnext_generation :: u64

definition spawn_router :: "nat \<Rightarrow> u64 \<Rightarrow> nat \<Rightarrow> did_router" where
  "spawn_router group_size replay_window_secs max_tracks =
     \<lparr>ractive = [], rgroup_size = group_size, rwindow = replay_window_secs,
      rmax_tracks = (if max_tracks = 0 then MAX_DID_TRACKS else max_tracks), rnext_generation = 0\<rparr>"

section \<open>Requests\<close>

text \<open>\<open>str::len\<close> counts bytes.\<close>

definition is_did :: "string \<Rightarrow> bool" where
  "is_did name \<longleftrightarrow> take 4 name = ''did:'' \<and> 7 \<le> length name \<and> length name \<le> 256"

datatype request_outcome = NotDid | NoGroup | CapReached | Serving u64

definition request_track :: "nat \<Rightarrow> string \<Rightarrow> did_router \<Rightarrow> metrics \<Rightarrow> (did_router \<times> metrics) \<times> request_outcome" where
  "request_track now did r m =
     (if \<not> is_did did then ((r, m), NotDid)
      else
        let producer = (if 0 < rwindow r then
                          (case set_max_group_age (unat (rwindow r) * 1000) track_new of
                             Inr tr \<Rightarrow> tr | Inl _ \<Rightarrow> track_new)
                        else track_new) in
        case append_group_at 0 now producer of
          Inl _ \<Rightarrow> ((r, m), NoGroup)
        | Inr (h, tr) \<Rightarrow>
            let generation = rnext_generation r; r = r\<lparr>rnext_generation := generation + 1\<rparr> in
            if rmax_tracks r \<le> length (ractive r) then
              ((r, m\<lparr>m_did_tracks_refused_total := m_did_tracks_refused_total m + 1\<rparr>), CapReached)
            else
              ((r\<lparr>ractive := AList.update did
                    \<lparr>dtrack = tr, dgroups = [group_new], dgroup = h, dcount = 0, dgeneration = generation\<rparr>
                    (ractive r)\<rparr>,
                m\<lparr>m_did_tracks_opened_total := m_did_tracks_opened_total m + 1\<rparr>), Serving generation))"

text \<open>The watcher of one materialization fires when its last subscriber has left.\<close>

definition unused :: "string \<Rightarrow> u64 \<Rightarrow> did_router \<Rightarrow> metrics \<Rightarrow> did_router \<times> metrics" where
  "unused did generation r m =
     (case map_of (ractive r) did of
        None \<Rightarrow> (r, m)
      | Some t \<Rightarrow>
          if dgeneration t = generation then
            (r\<lparr>ractive := AList.delete did (ractive r)\<rparr>,
             m\<lparr>m_did_tracks_closed_total := m_did_tracks_closed_total m + 1\<rparr>)
          else (r, m))"

section \<open>Routing\<close>

definition event_did :: "cbor_reader \<Rightarrow> bytes \<Rightarrow> string option" where
  "event_did cbor raw =
     (case decode cbor raw of
        Inl _ \<Rightarrow> None
      | Inr (_, payload) \<Rightarrow>
          (case (case field payload ''repo'' of Some v \<Rightarrow> Some v | None \<Rightarrow> field payload ''did'') of
             None \<Rightarrow> None
           | Some v \<Rightarrow> as_text v))"

definition rotate_did :: "nat \<Rightarrow> did_track \<Rightarrow> did_track" where
  "rotate_did now t =
     (case append_group_at (length (dgroups t)) now (dtrack t) of
        Inl _ \<Rightarrow> t
      | Inr (h, tr) \<Rightarrow>
          let groups = dgroups t @ [group_new];
              groups = (case on_group (dgroup t) group_finish groups of Inr gs \<Rightarrow> gs | Inl _ \<Rightarrow> groups) in
          t\<lparr>dtrack := tr, dgroups := groups, dgroup := h, dcount := 0\<rparr>)"

definition write_did :: "nat \<Rightarrow> nat \<Rightarrow> bytes \<Rightarrow> did_track \<Rightarrow> did_track" where
  "write_did group_size now raw t =
     (case on_group (dgroup t) (write_frame raw) (dgroups t) of
        Inl _ \<Rightarrow> t
      | Inr groups \<Rightarrow>
          let t = t\<lparr>dgroups := groups, dcount := dcount t + 1\<rparr> in
          if group_size \<le> dcount t then rotate_did now t else t)"

definition route :: "cbor_reader \<Rightarrow> nat \<Rightarrow> bytes \<Rightarrow> did_router \<Rightarrow> did_router" where
  "route cbor now raw r =
     (if ractive r = [] then r
      else case event_did cbor raw of
        None \<Rightarrow> r
      | Some did \<Rightarrow>
          (case map_of (ractive r) did of
             None \<Rightarrow> r
           | Some t \<Rightarrow> r\<lparr>ractive := AList.update did (write_did (rgroup_size r) now raw t) (ractive r)\<rparr>))"

end
