(* ===== verification/Router_Properties.thy ===== *)
theory Router_Properties
  imports Router
begin

text \<open>
  Selective sync: every track served carries exactly the frames of its account routed since it was
  materialized, in order; the cap on tracks and the accounting of the metrics.
\<close>

section \<open>One track\<close>

text \<open>\<open>log\<close> are the frames routed to the track: its groups, in sequence, hold them (less what their
  caches evicted), the last group being the one written to.\<close>

definition did_ok :: "bytes list \<Rightarrow> did_track \<Rightarrow> bool" where
  "did_ok log t \<longleftrightarrow>
     (\<exists>hists. list_all2 group_ok hists (dgroups t) \<and> concat hists = log) \<and>
     dgroups t \<noteq> [] \<and> href (dgroup t) = length (dgroups t) - 1 \<and>
     \<not> gclosed (last (dgroups t)) \<and> \<not> gfin (last (dgroups t)) \<and>
     track_ok (dtrack t) \<and> \<not> tclosed (dtrack t) \<and> tfinal (dtrack t) = None"

lemma on_group_last:
  assumes "href h = length gs" "f g = Inr g'"
  shows "on_group h f (gs @ [g]) = Inr (gs @ [g'])"
  using assms by (simp add: on_group_def list_update_append)

lemma write_did_ok:
  assumes "did_ok log t"
  shows "did_ok (log @ [raw]) (write_did n now raw t)" and "dgeneration (write_did n now raw t) = dgeneration t"
proof -
  from assms obtain gs g where gs: "dgroups t = gs @ [g]" by (cases "dgroups t" rule: rev_cases) (auto simp: did_ok_def)
  note t = assms [unfolded did_ok_def gs]
  then have h: "href (dgroup t) = length gs" and g: "\<not> gclosed g" "\<not> gfin g" by simp_all
  from t obtain hs hist where hs: "list_all2 group_ok hs gs" "group_ok hist g" "concat hs @ hist = log"
    by (auto simp: list_all2_append2 list_all2_Cons2)
  from append_frame_Inr [OF g] obtain g1 where g1: "append_frame raw g = Inr g1" by blast
  note a = append_frame_ok [OF hs(2) g1]
  have w: "on_group (dgroup t) (write_frame raw) (dgroups t) = Inr (gs @ [g1])"
    unfolding gs by (rule on_group_last [OF h]) (simp add: write_frame_def g1)
  let ?t = "t\<lparr>dgroups := gs @ [g1], dcount := dcount t + 1\<rparr>"
  have ok1: "did_ok (log @ [raw]) ?t"
  proof -
    have "list_all2 group_ok (hs @ [hist @ [raw]]) (gs @ [g1])" using hs(1) a(1) by (simp add: list_all2_appendI)
    moreover have "concat (hs @ [hist @ [raw]]) = log @ [raw]" using hs(3) by simp
    ultimately show ?thesis using t h g a unfolding did_ok_def by auto
  qed
  have "did_ok (log @ [raw]) (rotate_did now ?t) \<and> dgeneration (rotate_did now ?t) = dgeneration t"
  proof (cases "append_group_at (length gs + 1) now (dtrack t)")
    case (Inl e)
    then show ?thesis using ok1 by (simp add: rotate_did_def)
  next
    case (Inr x)
    obtain k tr where x: "x = (k, tr)" by (cases x)
    have tok: "track_ok (dtrack t)" "\<not> tclosed (dtrack t)" "tfinal (dtrack t) = None" using t by simp_all
    note p = append_group_push [OF tok(1) Inr [unfolded x]]
    have tr: "track_ok tr" "\<not> tclosed tr" "tfinal tr = None"
    proof -
      have "case tmax (dtrack t) of None \<Rightarrow> hseq k = hseq k | Some m \<Rightarrow> hseq k = max m (hseq k)"
        using p by (cases "tmax (dtrack t)") (auto simp: max_def)
      then show "track_ok tr" using push_group_ok(1) [OF tok(1), of k "hseq k" now] p by simp
      show "\<not> tclosed tr" "tfinal tr = None" using p tok by simp_all
    qed
    have "\<not> gclosed g1" using a g by simp
    then obtain g2 where g2: "group_finish g1 = Inr g2" by (auto simp: group_finish_def group_modify_def)
    then have g2ok: "group_ok (hist @ [raw]) g2"
      using a(1) by (auto simp: group_finish_def group_modify_def group_ok_def split: if_splits)
    have "on_group (dgroup t) group_finish ((gs @ [g1]) @ [group_new]) = Inr (gs @ [g2, group_new])"
      using g2 h by (simp add: on_group_def nth_append list_update_append)
    then have "rotate_did now ?t = ?t\<lparr>dtrack := tr, dgroups := gs @ [g2, group_new], dgroup := k, dcount := 0\<rparr>"
      using Inr x by (simp add: rotate_did_def)
    moreover have "list_all2 group_ok (hs @ [hist @ [raw], []]) (gs @ [g2, group_new])"
      using hs(1) g2ok by (simp add: list_all2_appendI)
    moreover have "concat (hs @ [hist @ [raw], []]) = log @ [raw]" using hs(3) by simp
    ultimately show ?thesis using tr p unfolding did_ok_def by auto
  qed
  then show "did_ok (log @ [raw]) (write_did n now raw t)" "dgeneration (write_did n now raw t) = dgeneration t"
    using ok1 w gs by (simp_all add: write_did_def Let_def)
qed

section \<open>Lives of the router\<close>

text \<open>The log of an account: what was routed to its current track. \<open>lost\<close> counts the tracks replaced
  by a new request for the same account before their watcher fired.\<close>

inductive router_run :: "cbor_reader \<Rightarrow> did_router \<Rightarrow> metrics \<Rightarrow> (string \<Rightarrow> bytes list) \<Rightarrow> nat \<Rightarrow> bool" for cbor where
  spawn: "router_run cbor (spawn_router group_size window max_tracks) metrics_default (\<lambda>_. []) 0"
| request: "router_run cbor r m log lost \<Longrightarrow> request_track now did r m = ((r', m'), Serving g) \<Longrightarrow>
    router_run cbor r' m' (log(did := [])) (if map_of (ractive r) did = None then lost else lost + 1)"
| refuse: "router_run cbor r m log lost \<Longrightarrow> request_track now did r m = ((r', m'), outcome) \<Longrightarrow>
    (\<forall>g. outcome \<noteq> Serving g) \<Longrightarrow> router_run cbor r' m' log lost"
| idle: "router_run cbor r m log lost \<Longrightarrow> unused did generation r m = (r', m') \<Longrightarrow> router_run cbor r' m' log lost"
| frame: "router_run cbor r m log lost \<Longrightarrow>
    router_run cbor (route cbor now raw r) m
      (case event_did cbor raw of None \<Rightarrow> log | Some did \<Rightarrow> log(did := log did @ [raw])) lost"

definition router_ok :: "did_router \<Rightarrow> (string \<Rightarrow> bytes list) \<Rightarrow> bool" where
  "router_ok r log \<longleftrightarrow>
     distinct (map fst (ractive r)) \<and> length (ractive r) \<le> rmax_tracks r \<and>
     (\<forall>did t. map_of (ractive r) did = Some t \<longrightarrow> is_did did \<and> did_ok (log did) t)"

lemma length_update: "length (AList.update k v xs) \<le> Suc (length xs)"
  by (induction xs) auto

lemma length_update_mem: "k \<in> fst ` set xs \<Longrightarrow> length (AList.update k v xs) = length xs"
  by (induction xs) auto

lemma length_delete: "length (AList.delete k xs) \<le> length xs"
  by (simp add: AList.delete_eq)

lemma new_track_ok: "append_group_at 0 now producer = Inr (h, tr) \<Longrightarrow>
    producer = track_new \<or> producer = track_new\<lparr>tage := a\<rparr> \<Longrightarrow>
    did_ok [] \<lparr>dtrack = tr, dgroups = [group_new], dgroup = h, dcount = 0, dgeneration = g\<rparr>"
proof -
  assume a: "append_group_at 0 now producer = Inr (h, tr)" and p: "producer = track_new \<or> producer = track_new\<lparr>tage := a\<rparr>"
  have ok: "track_ok producer" "\<not> tclosed producer" "tfinal producer = None" "tmax producer = None"
    using p by (auto simp: track_ok_def track_new_def live_live_of)
  note q = append_group_push [OF ok(1) a]
  have "case tmax producer of None \<Rightarrow> hseq h = hseq h | Some m \<Rightarrow> hseq h = max m (hseq h)" using ok(4) by simp
  then have "track_ok tr" using push_group_ok(1) [OF ok(1), of h "hseq h" now] q by simp
  moreover have "list_all2 group_ok [[]] [group_new]" by simp
  then have "\<exists>hists. list_all2 group_ok hists [group_new] \<and> concat hists = []" by (rule exI [of _ "[[]]", OF conjI]) simp
  ultimately show "did_ok [] \<lparr>dtrack = tr, dgroups = [group_new], dgroup = h, dcount = 0, dgeneration = g\<rparr>"
    using q ok(2,3) unfolding did_ok_def by simp
qed

lemma request_ok:
  assumes "router_ok r log" "request_track now did r m = ((r', m'), outcome)"
  shows "router_ok r' (if (\<exists>g. outcome = Serving g) then log(did := []) else log)"
proof (cases "\<exists>g. outcome = Serving g")
  case False
  then have "ractive r' = ractive r" "rmax_tracks r' = rmax_tracks r"
    using assms(2) by (auto simp: request_track_def Let_def split: if_splits sum.splits)
  then show ?thesis using assms(1) False by (simp add: router_ok_def)
next
  case True
  then obtain g where g: "outcome = Serving g" by blast
  then obtain producer h tr where
    "is_did did" and h: "append_group_at 0 now producer = Inr (h, tr)"
    and pr: "producer = track_new \<or> producer = track_new\<lparr>tage := Some (unat (rwindow r) * 1000)\<rparr>"
    and cap: "length (ractive r) < rmax_tracks r"
    and r': "ractive r' = AList.update did
        \<lparr>dtrack = tr, dgroups = [group_new], dgroup = h, dcount = 0, dgeneration = g\<rparr> (ractive r)"
      "rmax_tracks r' = rmax_tracks r"
    using assms(2) by (auto simp: request_track_def set_max_group_age_def track_modify_def track_new_def Let_def
        split: if_splits sum.splits)
  from new_track_ok [OF h pr] have "did_ok [] \<lparr>dtrack = tr, dgroups = [group_new], dgroup = h, dcount = 0, dgeneration = g\<rparr>" .
  moreover have "length (ractive r') \<le> rmax_tracks r'"
    using length_update [of did _ "ractive r"] cap by (metis r' Suc_leI le_trans)
  ultimately show ?thesis using assms(1) \<open>is_did did\<close> r' g
    by (auto simp: router_ok_def distinct_update update_conv split: if_splits)
qed

lemma unused_ok: "router_ok r log \<Longrightarrow> unused did g r m = (r', m') \<Longrightarrow> router_ok r' log"
  using length_delete [of did "ractive r"]
  by (auto simp: unused_def router_ok_def distinct_delete delete_conv split: option.splits if_splits)

lemma route_ok:
  assumes "router_ok r log"
  shows "router_ok (route cbor now raw r)
    (case event_did cbor raw of None \<Rightarrow> log | Some did \<Rightarrow> log(did := log did @ [raw]))"
proof (cases "ractive r = [] \<or> event_did cbor raw = None")
  case True
  then show ?thesis using assms by (auto simp: route_def router_ok_def split: option.splits)
next
  case False
  then obtain did where did: "event_did cbor raw = Some did" by auto
  show ?thesis
  proof (cases "map_of (ractive r) did")
    case None
    then show ?thesis using assms False did by (auto simp: route_def router_ok_def)
  next
    case (Some t)
    have "did \<in> fst ` set (ractive r)" using Some by (metis map_of_eq_None_iff option.distinct(1))
    then have "length (AList.update did v (ractive r)) = length (ractive r)" for v by (rule length_update_mem)
    moreover have "did_ok (log did @ [raw]) (write_did (rgroup_size r) now raw t)"
      using write_did_ok(1) assms Some by (simp add: router_ok_def)
    ultimately show ?thesis using assms False did Some
      by (auto simp: route_def router_ok_def distinct_update update_conv split: if_splits)
  qed
qed

lemma router_run_ok: "router_run cbor r m log lost \<Longrightarrow> router_ok r log"
proof (induction rule: router_run.induct)
  case (spawn group_size window max_tracks)
  then show ?case by (simp add: router_ok_def spawn_router_def)
next
  case (request r m log lost now did r' m' g)
  from request_ok [OF request.IH request.hyps(2)] show ?case by (simp add: fun_upd_def)
next
  case (refuse r m log lost now did r' m' outcome)
  from request_ok [OF refuse.IH refuse.hyps(2)] refuse.hyps(3) show ?case by simp
next
  case (idle r m log lost did generation r' m')
  then show ?case using unused_ok by blast
next
  case (frame r m log lost now raw)
  then show ?case using route_ok by blast
qed

section \<open>A short life\<close>

definition alice :: string where
  "alice = ''did:plc:a''"

text \<open>A decoder that reads every item as an event of this account.\<close>

definition alice_cbor :: cbor_reader where
  "alice_cbor bs = Some (Map [(Text ''repo'', Text alice)])"

definition served1 :: "did_router \<times> metrics" where
  "served1 = fst (request_track 5 alice (spawn_router 2 60 3) metrics_default)"

definition served2 :: did_router where
  "served2 = route alice_cbor 7 [0xA0, 0xA0] (fst served1)"

lemma served1_run: "router_run alice_cbor (fst served1) (snd served1) (\<lambda>_. []) 0"
proof -
  have o: "snd (request_track 5 alice (spawn_router 2 60 3) metrics_default) = Serving 0"
    "map_of (ractive (spawn_router 2 60 3)) alice = None" by code_simp+
  have "request_track 5 alice (spawn_router 2 60 3) metrics_default = ((fst served1, snd served1), Serving 0)"
    using o(1) by (simp add: served1_def prod_eq_iff)
  from router_run.request [OF router_run.spawn this] o(2) show ?thesis by (simp add: fun_upd_def)
qed

lemma served2_run: "router_run alice_cbor served2 (snd served1) ((\<lambda>_. [])(alice := [[0xA0, 0xA0]])) 0"
proof -
  have "event_did alice_cbor [0xA0, 0xA0] = Some alice" by code_simp
  then show ?thesis using router_run.frame [OF served1_run, of 7 "[0xA0, 0xA0]"] by (simp add: served2_def)
qed

section \<open>What is promised\<close>

text \<open>C14: selective sync is complete and exclusive: the track of an account carries exactly the frames
  of that account routed since it was materialized, in order, over its groups; never more tracks
  are served than the cap allows.\<close>

theorem did_track_complete:
  assumes "router_run cbor r m log lost" "map_of (ractive r) did = Some t"
  shows "(\<exists>hists. list_all2 group_ok hists (dgroups t) \<and> concat hists = log did) \<and>
    is_did did \<and> length (ractive r) \<le> rmax_tracks r"
  using router_run_ok [OF assms(1)] assms(2) by (auto simp: router_ok_def did_ok_def)

theorem did_track_complete_witness:
  "\<exists>t hists. map_of (ractive served2) alice = Some t \<and> list_all2 group_ok hists (dgroups t) \<and>
    concat hists = [[0xA0, 0xA0]]"
proof -
  have "map_of (ractive served2) alice \<noteq> None" by code_simp
  then obtain t where t: "map_of (ractive served2) alice = Some t" by blast
  from did_track_complete [OF served2_run t] t show ?thesis by auto
qed

lemma length_delete_mem:
  "distinct (map fst xs) \<Longrightarrow> map_of xs k = Some v \<Longrightarrow> Suc (length (AList.delete k xs)) = length xs"
proof (induction xs)
  case (Cons x xs)
  have "k \<notin> fst ` set xs \<Longrightarrow> AList.delete k xs = xs" by (simp add: AList.delete_idem)
  then show ?case using Cons by (cases x) (auto split: if_splits)
qed simp

lemma length_update_old: "map_of xs k = Some u \<Longrightarrow> length (AList.update k v xs) = length xs"
  by (rule length_update_mem) (metis map_of_eq_None_iff option.distinct(1))

lemma length_update_new: "map_of xs k = None \<Longrightarrow> length (AList.update k v xs) = Suc (length xs)"
  by (induction xs) (auto split: if_splits)

text \<open>What materializing and tearing down a track do to the number of tracks.\<close>

lemma tracks_update:
  "length (AList.update did t xs) + (if map_of xs did = None then lost else lost + 1) = Suc (length xs + lost)"
proof (cases "map_of xs did")
  case None
  then show ?thesis by (simp add: length_update_new)
next
  case (Some u)
  then have "did \<in> fst ` set xs" by (metis map_of_eq_None_iff option.distinct(1))
  then show ?thesis using Some by (simp add: length_update_mem)
qed

lemma tracks_delete:
  "distinct (map fst xs) \<Longrightarrow> map_of xs did = Some t \<Longrightarrow>
    (word_of_nat (length xs) :: u64) = 1 + word_of_nat (length (AList.delete did xs))"
  using length_delete_mem [of xs did t] by (metis of_nat_Suc)

text \<open>the accounting of the metrics is exact up to the tracks that were replaced: opened minus
  closed is the number of tracks served plus those replaced before their watcher fired, which are
  never counted as closed.\<close>

theorem did_track_accounting:
  assumes "router_run cbor r m log lost"
  shows "m_did_tracks_opened_total m - m_did_tracks_closed_total m = word_of_nat (length (ractive r) + lost)"
  using assms
proof (induction rule: router_run.induct)
  case (spawn group_size window max_tracks)
  then show ?case by (simp add: spawn_router_def metrics_default_def)
next
  case (request r m log lost now did r' m' g)
  then obtain t where r': "ractive r' = AList.update did t (ractive r)"
    and m': "m' = m\<lparr>m_did_tracks_opened_total := m_did_tracks_opened_total m + 1\<rparr>"
    by (auto simp: request_track_def Let_def split: if_splits sum.splits)
  with tracks_update [of did t "ractive r" lost] show ?case using request.IH by (simp add: algebra_simps)
next
  case (refuse r m log lost now did r' m' outcome)
  then have "ractive r' = ractive r" "m_did_tracks_opened_total m' = m_did_tracks_opened_total m"
    "m_did_tracks_closed_total m' = m_did_tracks_closed_total m"
    by (auto simp: request_track_def Let_def split: if_splits sum.splits)
  then show ?case using refuse.IH by simp
next
  case (idle r m log lost did generation r' m')
  show ?case
  proof (cases "map_of (ractive r) did")
    case None
    then show ?thesis using idle by (simp add: unused_def)
  next
    case (Some t)
    have "distinct (map fst (ractive r))" using router_run_ok [OF idle.hyps(1)] by (simp add: router_ok_def)
    note tracks_delete [OF this Some]
    with idle Some show ?thesis by (auto simp: unused_def algebra_simps split: if_splits)
  qed
next
  case (frame r m log lost now raw)
  have "length (ractive (route cbor now raw r)) = length (ractive r)"
    by (auto simp: route_def length_update_old split: option.split)
  then show ?case using frame.IH by simp
qed

theorem did_track_accounting_witness:
  "m_did_tracks_opened_total (snd served1) - m_did_tracks_closed_total (snd served1) = 1"
proof -
  have "length (ractive served2) = 1" by code_simp
  with did_track_accounting [OF served2_run] show ?thesis by simp
qed

text \<open>a watcher that fires late does not take the account's new track away.\<close>

theorem stale_watcher_harmless:
  assumes "request_track now did r m = ((r', m'), Serving g)" "g' \<noteq> g"
  shows "unused did g' r' m' = (r', m') \<and> map_of (ractive r') did \<noteq> None"
  using assms by (auto simp: request_track_def unused_def update_conv Let_def split: if_splits sum.splits)

theorem stale_watcher_harmless_witness:
  "\<exists>r m. request_track 9 alice (fst served1) (snd served1) = ((r, m), Serving 1) \<and> unused alice 0 r m = (r, m)"
proof -
  have "snd (request_track 9 alice (fst served1) (snd served1)) = Serving 1" by code_simp
  then obtain r m where q: "request_track 9 alice (fst served1) (snd served1) = ((r, m), Serving 1)"
    by (metis prod.collapse)
  from stale_watcher_harmless [OF q, of 0] q show ?thesis by simp
qed

section \<open>The gauge of live tracks\<close>

text \<open>What happens to a router, and how many tracks are replaced meanwhile by a new request for the same
  account before their watcher fired.\<close>

datatype router_op = Requested nat string | Unused string u64 | Routed nat bytes

fun router_turn :: "cbor_reader \<Rightarrow> router_op \<Rightarrow> did_router \<times> metrics \<times> nat \<Rightarrow> did_router \<times> metrics \<times> nat" where
  "router_turn cbor (Requested now did) (r, m, k) =
     (case request_track now did r m of
        ((r', m'), Serving g) \<Rightarrow> (r', m', if map_of (ractive r) did = None then k else k + 1)
      | ((r', m'), _) \<Rightarrow> (r', m', k))"
| "router_turn cbor (Unused did generation) (r, m, k) = (case unused did generation r m of (r', m') \<Rightarrow> (r', m', k))"
| "router_turn cbor (Routed now raw) (r, m, k) = (route cbor now raw r, m, k)"

abbreviation "router_ops cbor ops s \<equiv> fold (router_turn cbor) ops s"

definition counted :: "nat \<Rightarrow> did_router \<times> metrics \<times> nat \<Rightarrow> bool" where
  "counted n s \<longleftrightarrow> (case s of (r, m, k) \<Rightarrow> distinct (map fst (ractive r)) \<and> unat (m_did_tracks_opened_total m) \<le> n \<and>
     unat (m_did_tracks_opened_total m) = unat (m_did_tracks_closed_total m) + length (ractive r) + k)"

lemma unat_inc: "unat (x :: u64) + 1 < 2 ^ 64 \<Longrightarrow> unat (x + 1) = unat x + 1"
  using unat_add_lem [of x 1] by simp

lemma route_same: "map fst (ractive (route cbor now raw r)) = map fst (ractive r)"
  by (auto simp: route_def update_keys split: option.split)
    (metis AList.update_keys image_iff map_of_eq_None_iff option.distinct(1) set_map)

lemma counted_op:
  assumes "counted n s" "Suc n < 2 ^ 64" "router_turn cbor op s = s'"
  shows "counted (Suc n) s' \<and> snd (snd s) \<le> snd (snd s')"
proof -
  obtain r m k where s: "s = (r, m, k)" by (cases s)
  note c = assms(1) [unfolded counted_def s prod.case]
  show ?thesis
  proof (cases op)
    case (Requested now did)
    obtain r' m' outcome where q: "request_track now did r m = ((r', m'), outcome)" by (metis prod.collapse)
    show ?thesis
    proof (cases "\<exists>g. outcome = Serving g")
      case True
      then obtain g t where g: "outcome = Serving g" "ractive r' = AList.update did t (ractive r)"
        and m': "m' = m\<lparr>m_did_tracks_opened_total := m_did_tracks_opened_total m + 1\<rparr>"
        using q by (auto simp: request_track_def Let_def split: if_splits sum.splits)
      have "unat (m_did_tracks_opened_total m + 1) = unat (m_did_tracks_opened_total m) + 1"
        using c assms(2) by (intro unat_inc) simp
      moreover have "distinct (map fst (ractive r'))" using c by (simp add: g(2) distinct_update)
      moreover have "length (ractive r') + (if map_of (ractive r) did = None then k else k + 1) = Suc (length (ractive r) + k)"
        unfolding g(2) by (rule tracks_update)
      ultimately show ?thesis using assms(3) c by (auto simp: s Requested q g(1) m' counted_def)
    next
      case False
      then have "ractive r' = ractive r" "m_did_tracks_opened_total m' = m_did_tracks_opened_total m"
        "m_did_tracks_closed_total m' = m_did_tracks_closed_total m"
        using q by (auto simp: request_track_def Let_def split: if_splits sum.splits)
      then show ?thesis using assms(3) c False by (cases outcome) (auto simp: s Requested q counted_def)
    qed
  next
    case (Unused did generation)
    obtain r' m' where u: "unused did generation r m = (r', m')" by (metis prod.collapse)
    show ?thesis
    proof (cases "map_of (ractive r) did")
      case None
      then show ?thesis using u assms(3) c by (auto simp: s Unused unused_def counted_def)
    next
      case (Some t)
      have "Suc (length (AList.delete did (ractive r))) = length (ractive r)" 
        by (rule length_delete_mem) (use c Some in auto)
      moreover from this have "unat (m_did_tracks_closed_total m + 1) = unat (m_did_tracks_closed_total m) + 1"
        using c assms(2) by (intro unat_inc) simp
      ultimately show ?thesis using u assms(3) c Some
        by (auto simp: s Unused unused_def counted_def distinct_delete split: if_splits)
    qed
  next
    case (Routed now raw)
    have "length (ractive (route cbor now raw r)) = length (ractive r)" by (metis length_map route_same)
    then show ?thesis using assms(3) c by (auto simp: s Routed counted_def route_same)
  qed
qed

lemma counted_ops:
  "counted n s \<Longrightarrow> n + length ops < 2 ^ 64 \<Longrightarrow> router_ops cbor ops s = s' \<Longrightarrow>
    counted (n + length ops) s' \<and> snd (snd s) \<le> snd (snd s')"
proof (induction ops arbitrary: n s)
  case (Cons op ops)
  have "counted (Suc n) (router_turn cbor op s) \<and> snd (snd s) \<le> snd (snd (router_turn cbor op s))"
    using counted_op [OF Cons.prems(1) _ refl] Cons.prems(2) by simp
  then show ?case using Cons.IH [of "Suc n" "router_turn cbor op s"] Cons.prems(2,3) by (auto intro: order_trans)
qed simp

text \<open>C37: the gauge of live tracks drifts: whatever is requested, routed and torn down, it exceeds the number of
  tracks served by the number of tracks that a new request for the same account replaced before their
  watcher fired; nothing that happens later takes that number back, so the gauge stays too high for
  good.\<close>

theorem did_tracks_live_drifts:
  assumes "router_ops cbor ops (spawn_router group_size window max_tracks, metrics_default, 0) = (r, m, k)"
    and "router_ops cbor later (r, m, k) = (r', m', k')" "length ops + length later < 2 ^ 64"
  shows "unat (did_tracks_live m) = length (ractive r) + k \<and> k \<le> k' \<and>
    unat (did_tracks_live m') = length (ractive r') + k'"
proof -
  have live: "unat (did_tracks_live m) = length (ractive r) + k" if "counted n (r, m, k)" for n r m k
    using that by (simp add: counted_def did_tracks_live_def unat_sat_sub)
  have "counted 0 (spawn_router group_size window max_tracks, metrics_default, 0)"
    by (simp add: counted_def spawn_router_def metrics_default_def)
  from counted_ops [OF this _ assms(1)] assms(3) have one: "counted (length ops) (r, m, k)" by simp
  note two = counted_ops [OF one assms(3,2)]
  show ?thesis using live [OF one] two live by auto
qed

definition requested_twice :: "router_op list" where
  "requested_twice = [Requested 8 alice, Requested 9 alice]"

theorem did_tracks_live_drifts_witness:
  "case router_ops (\<lambda>_. None) [Unused alice 0, Unused alice 1]
      (router_ops (\<lambda>_. None) requested_twice (spawn_router 2 0 5, metrics_default, 0)) of
     (r, m, k) \<Rightarrow> ractive r = [] \<and> unat (did_tracks_live m) = 1"
proof -
  let ?one = "router_ops (\<lambda>_. None) requested_twice (spawn_router 2 0 5, metrics_default, 0)"
  let ?two = "router_ops (\<lambda>_. None) [Unused alice 0, Unused alice 1] ?one"
  obtain r m k where one: "?one = (r, m, k)" by (cases ?one)
  obtain r' m' k' where two: "?two = (r', m', k')" by (cases ?two)
  have "fst ?two = fst ?two \<and> ractive (fst ?two) = [] \<and> snd (snd ?two) = 1" by code_simp
  then have "ractive r' = []" "k' = 1" unfolding two by simp_all
  moreover have "unat (did_tracks_live m') = length (ractive r') + k'"
    using did_tracks_live_drifts [OF one two [unfolded one]] by (simp add: requested_twice_def)
  ultimately show ?thesis unfolding two by simp
qed

end
