(* ===== verification/Ingest.thy ===== *)
theory Ingest
  imports Frame Metrics
begin

text \<open>
  The upstream side (\<open>rust/crates/atmoq/src/ingest.rs\<close> and \<open>spawn_ingest\<close> in \<open>main.rs\<close>): the WebSocket
  read loop with its ping and idle timers, and the reconnect loop with its backoff. The WebSocket
  and the clock are the environment: an event says which branch of the \<open>select!\<close> is ready, and
  when; instants are milliseconds. The channel to the pump is the list of frames sent into it.
\<close>

section \<open>Reading frames\<close>

definition CONNECT_TIMEOUT :: nat where "CONNECT_TIMEOUT = 30000"
definition PING_INTERVAL :: nat where "PING_INTERVAL = 15000"
definition IDLE_TIMEOUT :: nat where "IDLE_TIMEOUT = 45000"

datatype message = Binary bytes | PingMessage | PongMessage | CloseMessage | OtherMessage

datatype upstream_event =
    Read "(unit + message) option"
  | IdleFired
  | PingDue "(unit + unit) option"

text \<open>\<open>Read None\<close> is the end of the stream, \<open>Read (Some (Inl _))\<close> a read error; \<open>PingDue None\<close> a ping
  that could not be sent in time, \<open>PingDue (Some (Inl _))\<close> one that failed.\<close>

datatype ingest_error = ConnectTimedOut | ConnectFailed | Idle | PingTimedOut | PingFailed | ReadFailed

record ingest =
  ilast_rx :: nat
  ideadline :: nat
  ichannel :: "frame list"
  imetrics :: metrics

datatype ingest_status = Reading | Ended | Broken ingest_error

definition ingest_start :: "nat \<Rightarrow> metrics \<Rightarrow> ingest" where
  "ingest_start now m = \<lparr>ilast_rx = now, ideadline = now + IDLE_TIMEOUT, ichannel = [], imetrics = m\<rparr>"

text \<open>One turn of the loop: \<open>now\<close> is when the event is taken, \<open>later\<close> when its handling is done; \<open>open\<close>
  says whether the pump still receives.\<close>

definition relay_step :: "cbor_reader \<Rightarrow> nat \<Rightarrow> nat \<Rightarrow> bool \<Rightarrow> upstream_event \<Rightarrow> ingest \<Rightarrow> ingest \<times> ingest_status" where
  "relay_step cbor now later receiver_open ev s =
     (case ev of
        Read None \<Rightarrow> (s, Ended)
      | Read (Some (Inl _)) \<Rightarrow> (s, Broken ReadFailed)
      | Read (Some (Inr (Binary data))) \<Rightarrow>
          (case parse cbor data of
             Inr f \<Rightarrow>
               if receiver_open then (s\<lparr>ichannel := ichannel s @ [f], ilast_rx := later\<rparr>, Reading)
               else (s, Ended)
           | Inl _ \<Rightarrow>
               let m = imetrics s in
               (s\<lparr>imetrics := m\<lparr>m_frames_rejected_total := m_frames_rejected_total m + 1\<rparr>, ilast_rx := later\<rparr>, Reading))
      | Read (Some (Inr CloseMessage)) \<Rightarrow> (s, Ended)
      | Read (Some (Inr _)) \<Rightarrow> (s\<lparr>ilast_rx := later\<rparr>, Reading)
      | IdleFired \<Rightarrow>
          let deadline = ilast_rx s + IDLE_TIMEOUT in
          if now < deadline then (s\<lparr>ideadline := deadline\<rparr>, Reading) else (s, Broken Idle)
      | PingDue None \<Rightarrow> (s, Broken PingTimedOut)
      | PingDue (Some (Inl _)) \<Rightarrow> (s, Broken PingFailed)
      | PingDue (Some (Inr _)) \<Rightarrow> (s, Reading))"

fun relay_frames :: "cbor_reader \<Rightarrow> (nat \<times> nat \<times> bool \<times> upstream_event) list \<Rightarrow> ingest \<Rightarrow> ingest \<times> ingest_status" where
  "relay_frames cbor [] s = (s, Reading)"
| "relay_frames cbor ((now, later, receiver_open, ev) # evs) s =
     (case relay_step cbor now later receiver_open ev s of
        (s, Reading) \<Rightarrow> relay_frames cbor evs s
      | (s, status) \<Rightarrow> (s, status))"

text \<open>The connection attempt: a timeout, a failure, or the frames of the connection. The query of the
  request carries the cursor.\<close>

definition cursor_query :: "int option \<Rightarrow> string option" where
  "cursor_query cursor = map_option (\<lambda>c. ''cursor='' @ dec_int c) cursor"

definition subscribe_repos :: "cbor_reader \<Rightarrow> (unit + unit) option \<Rightarrow> nat \<Rightarrow>
    (nat \<times> nat \<times> bool \<times> upstream_event) list \<Rightarrow> metrics \<Rightarrow> ingest \<times> ingest_status" where
  "subscribe_repos cbor connect now evs m =
     (case connect of
        None \<Rightarrow> (ingest_start now m, Broken ConnectTimedOut)
      | Some (Inl _) \<Rightarrow> (ingest_start now m, Broken ConnectFailed)
      | Some (Inr _) \<Rightarrow> relay_frames cbor evs (ingest_start now m))"

section \<open>Reconnecting\<close>

definition resume_cursor :: "int \<Rightarrow> int option" where
  "resume_cursor last_seq = (if last_seq = - 1 then None else Some last_seq)"

text \<open>The pause after a connection that lasted \<open>elapsed\<close> milliseconds, and the backoff after it.\<close>

definition backoff_step :: "nat \<Rightarrow> nat \<Rightarrow> nat \<times> nat" where
  "backoff_step elapsed backoff =
     (let backoff = (if elapsed > 60 * 1000 then 1 else backoff) in (backoff, min (backoff * 2) 60))"

text \<open>The loop over a list of attempts: what each connection got, how long it lasted and whether the
  receiver is gone afterwards. It yields the cursors resumed from, the pauses, and all frames
  handed to the pump. \<open>last_seq\<close> is read anew for every attempt; the pump sets it, so it is given
  with the attempt.\<close>

record attempt =
  alast_seq :: int
  aconnect :: "(unit + unit) option"
  astart :: nat
  aevents :: "(nat \<times> nat \<times> bool \<times> upstream_event) list"
  aelapsed :: nat
  aclosed :: bool

fun spawn_ingest :: "cbor_reader \<Rightarrow> nat \<Rightarrow> attempt list \<Rightarrow> metrics \<Rightarrow>
    (int option list \<times> nat list \<times> frame list) \<times> metrics" where
  "spawn_ingest cbor backoff [] m = (([], [], []), m)"
| "spawn_ingest cbor backoff (a # as) m =
     (let m = m\<lparr>m_upstream_connects_total := m_upstream_connects_total m + 1\<rparr>;
          (s, _) = subscribe_repos cbor (aconnect a) (astart a) (aevents a) m;
          cursor = resume_cursor (alast_seq a) in
      if aclosed a then (([cursor], [], ichannel s), imetrics s)
      else
        let (pause, backoff) = backoff_step (aelapsed a) backoff;
            ((cursors, pauses, frames), m) = spawn_ingest cbor backoff as (imetrics s) in
        ((cursor # cursors, pause # pauses, ichannel s @ frames), m))"

section \<open>Properties\<close>

text \<open>Frames the read loop lets through.\<close>

fun accepted_frames :: "cbor_reader \<Rightarrow> (nat \<times> nat \<times> bool \<times> upstream_event) list \<Rightarrow> frame list" where
  "accepted_frames cbor [] = []"
| "accepted_frames cbor ((now, later, op, ev) # evs) =
     (case ev of
        Read (Some (Inr (Binary data))) \<Rightarrow>
          (case parse cbor data of Inr f \<Rightarrow> f # accepted_frames cbor evs | Inl _ \<Rightarrow> accepted_frames cbor evs)
      | _ \<Rightarrow> accepted_frames cbor evs)"

lemma relay_step_channel:
  assumes "relay_step cbor now later op ev s = (s', st)"
  shows "ichannel s' = ichannel s @ (if st = Reading then accepted_frames cbor [(now, later, op, ev)] else [])"
  using assms
  by (auto simp: relay_step_def Let_def split: upstream_event.splits option.splits sum.splits message.splits if_splits)

text \<open>C32: only frames that parse reach the pump, unchanged and in order; the loop hands on a prefix of
  them, and all of them as long as it reads.\<close>

theorem relay_frames_channel:
  "case relay_frames cbor evs s of (s', st) \<Rightarrow>
     \<exists>n. ichannel s' = ichannel s @ accepted_frames cbor (take n evs) \<and> (st = Reading \<longrightarrow> n = length evs)"
proof (induction evs arbitrary: s)
  case Nil
  then show ?case by simp
next
  case (Cons e evs)
  obtain now later op ev where e: "e = (now, later, op, ev)" by (cases e)
  obtain s1 st where step: "relay_step cbor now later op ev s = (s1, st)"
    by (cases "relay_step cbor now later op ev s")
  note ch = relay_step_channel [OF step]
  have cons: "accepted_frames cbor [(now, later, op, ev)] @ accepted_frames cbor xs = accepted_frames cbor ((now, later, op, ev) # xs)" for xs
    by (auto split: upstream_event.splits option.splits sum.splits message.splits)
  show ?case
  proof (cases "st = Reading")
    case True
    obtain s2 st2 where r: "relay_frames cbor evs s1 = (s2, st2)" by (cases "relay_frames cbor evs s1")
    with Cons.IH [of s1] obtain n where n: "ichannel s2 = ichannel s1 @ accepted_frames cbor (take n evs)"
      "st2 = Reading \<longrightarrow> n = length evs" by auto
    have "ichannel s2 = ichannel s @ accepted_frames cbor (take (Suc n) (e # evs))"
      using n(1) ch True cons [of "take n evs"] by (simp add: e)
    moreover have "relay_frames cbor (e # evs) s = (s2, st2)" using step r True by (simp add: e)
    ultimately show ?thesis using n(2) by (auto intro!: exI [of _ "Suc n"])
  next
    case False
    then have "relay_frames cbor (e # evs) s = (s1, st)" using step by (cases st) (simp_all add: e)
    then show ?thesis using ch False by (auto intro!: exI [of _ 0])
  qed
qed

definition op_cbor :: cbor_reader where
  "op_cbor _ = Some (Map [(Text ''op'', Integer 1), (Text ''t'', Text ''#info'')])"

definition two_reads :: "(nat \<times> nat \<times> bool \<times> upstream_event) list" where
  "two_reads = [(1, 2, True, Read (Some (Inr (Binary [0xA0, 0xA0])))), (3, 4, True, Read (Some (Inr (Binary [0xFF]))))]"

lemma two_reads_parse:
  "parse op_cbor [0xA0, 0xA0] = Inr \<lparr>fop = 1, ft = Some ''#info'', fseq = None, fraw = [0xA0, 0xA0]\<rparr>"
  "\<exists>e. parse op_cbor [0xFF] = Inl e"
proof -
  let ?m = "Map [(Text ''op'', Integer 1), (Text ''t'', Text ''#info'')]"
  have "decode op_cbor [0xA0, 0xA0] = Inr (?m, ?m)" by code_simp
  then show "parse op_cbor [0xA0, 0xA0] = Inr \<lparr>fop = 1, ft = Some ''#info'', fseq = None, fraw = [0xA0, 0xA0]\<rparr>"
    by (simp add: parse_def field_def)
  have "case decode op_cbor [0xFF] of Inl _ \<Rightarrow> True | _ \<Rightarrow> False" by code_simp
  then show "\<exists>e. parse op_cbor [0xFF] = Inl e" by (auto simp: parse_def split: sum.splits)
qed

theorem relay_frames_channel_witness:
  "map fraw (ichannel (fst (relay_frames op_cbor two_reads (ingest_start 0 metrics_default)))) = [[0xA0, 0xA0]]"
proof -
  let ?r = "relay_frames op_cbor two_reads (ingest_start 0 metrics_default)"
  obtain e where bad: "parse op_cbor [0xFF] = Inl e" using two_reads_parse(2) by blast
  have "snd ?r = Reading" by (simp add: two_reads_def relay_step_def two_reads_parse(1) bad Let_def)
  moreover have "map fraw (accepted_frames op_cbor two_reads) = [[0xA0, 0xA0]]"
    by (simp add: two_reads_def two_reads_parse(1) bad)
  moreover obtain s st where r: "?r = (s, st)" by (cases ?r)
  moreover from relay_frames_channel [where cbor = op_cbor and evs = two_reads and s = "ingest_start 0 metrics_default"]
  obtain n where "ichannel s = ichannel (ingest_start 0 metrics_default) @ accepted_frames op_cbor (take n two_reads)"
    "st = Reading \<longrightarrow> n = length two_reads" unfolding r prod.case by blast
  ultimately show ?thesis by (simp add: ingest_start_def)
qed

text \<open>Every message restarts the idle clock, so the connection is only given up after a full idle
  timeout without one.\<close>

lemma relay_step_rx:
  assumes "relay_step cbor now later op ev s = (s', Reading)"
  shows "ilast_rx s' = (case ev of Read _ \<Rightarrow> later | _ \<Rightarrow> ilast_rx s)"
  using assms
  by (auto simp: relay_step_def Let_def split: upstream_event.splits option.splits sum.splits message.splits if_splits)

lemma relay_step_idle:
  "relay_step cbor now later op ev s = (s', Broken Idle) \<longleftrightarrow>
    ev = IdleFired \<and> s' = s \<and> ilast_rx s + IDLE_TIMEOUT \<le> now"
  by (auto simp: relay_step_def Let_def split: upstream_event.splits option.splits sum.splits message.splits if_splits)

lemma idle_after_silence:
  "relay_frames cbor evs s = (s', Broken Idle) \<Longrightarrow> sorted (ilast_rx s # map (fst \<circ> snd) evs) \<Longrightarrow>
    \<exists>pre now later op post. evs = pre @ (now, later, op, IdleFired) # post \<and>
      ilast_rx s + IDLE_TIMEOUT \<le> now \<and>
      (\<forall>e \<in> set pre. (\<exists>r. snd (snd (snd e)) = Read r) \<longrightarrow> fst (snd e) + IDLE_TIMEOUT \<le> now)"
proof (induction evs arbitrary: s)
  case (Cons e evs)
  obtain now later op ev where e: "e = (now, later, op, ev)" by (cases e)
  obtain s1 st where step: "relay_step cbor now later op ev s = (s1, st)"
    by (cases "relay_step cbor now later op ev s")
  show ?case
  proof (cases "st = Reading")
    case True
    have rx: "ilast_rx s1 = (case ev of Read _ \<Rightarrow> later | _ \<Rightarrow> ilast_rx s)"
      using relay_step_rx step True by simp
    have "relay_frames cbor evs s1 = (s', Broken Idle)" using Cons.prems(1) step True by (simp add: e)
    moreover have "sorted (ilast_rx s1 # map (fst \<circ> snd) evs)"
      using Cons.prems(2) rx by (auto simp: e comp_def split: upstream_event.splits)
    ultimately obtain pre n l o' post where *: "evs = pre @ (n, l, o', IdleFired) # post"
      "ilast_rx s1 + IDLE_TIMEOUT \<le> n"
      "\<forall>e \<in> set pre. (\<exists>r. snd (snd (snd e)) = Read r) \<longrightarrow> fst (snd e) + IDLE_TIMEOUT \<le> n"
      using Cons.IH by blast
    have "ilast_rx s + IDLE_TIMEOUT \<le> n" "(\<exists>r. ev = Read r) \<longrightarrow> later + IDLE_TIMEOUT \<le> n"
      using *(2) rx Cons.prems(2) by (auto simp: e split: upstream_event.splits)
    then show ?thesis using * by (intro exI [of _ "e # pre"] exI [of _ n] exI [of _ l] exI [of _ o'] exI [of _ post]) (simp add: e)
  next
    case False
    then have "(s1, st) = (s', Broken Idle)" using Cons.prems(1) step by (cases st) (simp_all add: e)
    then have "ev = IdleFired" "ilast_rx s + IDLE_TIMEOUT \<le> now" using step by (simp_all add: relay_step_idle)
    then show ?thesis by (intro exI [of _ "[]"] exI) (auto simp: e)
  qed
qed simp

text \<open>a live upstream is kept and a silent one dropped: with instants in order, an idle failure
  means that nothing was read, pongs included, for the whole timeout before it; and an idle timer
  firing that late always is such a failure, an earlier one being re-armed to that instant.\<close>

theorem idle_timeout_exact:
  assumes "sorted (ilast_rx s # map (fst \<circ> snd) evs)"
  shows "(relay_frames cbor evs s = (s', Broken Idle) \<longrightarrow>
      (\<exists>pre now later op post. evs = pre @ (now, later, op, IdleFired) # post \<and>
        (\<forall>e \<in> set pre. (\<exists>r. snd (snd (snd e)) = Read r) \<longrightarrow> fst (snd e) + IDLE_TIMEOUT \<le> now))) \<and>
    relay_step cbor now later op IdleFired s =
      (if ilast_rx s + IDLE_TIMEOUT \<le> now then (s, Broken Idle)
       else (s\<lparr>ideadline := ilast_rx s + IDLE_TIMEOUT\<rparr>, Reading))"
proof
  show "relay_frames cbor evs s = (s', Broken Idle) \<longrightarrow>
      (\<exists>pre now later op post. evs = pre @ (now, later, op, IdleFired) # post \<and>
        (\<forall>e \<in> set pre. (\<exists>r. snd (snd (snd e)) = Read r) \<longrightarrow> fst (snd e) + IDLE_TIMEOUT \<le> now))"
    using idle_after_silence [OF _ assms] by blast
qed (auto simp: relay_step_def Let_def)

theorem idle_timeout_exact_witness:
  "relay_step (\<lambda>_. None) 50000 50000 True IdleFired (ingest_start 10 metrics_default) =
    (ingest_start 10 metrics_default, Broken Idle)"
proof -
  have "sorted (ilast_rx (ingest_start 10 metrics_default) # map (fst \<circ> snd)
      [(50000 :: nat, 50000, True, IdleFired)])" by (simp add: ingest_start_def)
  from idle_timeout_exact [OF this, of "\<lambda>_. None" _ 50000 50000 True] show ?thesis
    by (simp add: ingest_start_def IDLE_TIMEOUT_def)
qed

text \<open>reconnecting never spins and never stalls: every pause is between 1 and 60 seconds.\<close>

theorem backoff_bounds:
  assumes "1 \<le> backoff" "backoff \<le> 60"
  shows "\<forall>pause \<in> set (fst (snd (fst (spawn_ingest cbor backoff as m)))). 1 \<le> pause \<and> pause \<le> 60"
  using assms
proof (induction cbor backoff as m rule: spawn_ingest.induct)
  case (2 cbor backoff a as m)
  let ?m = "m\<lparr>m_upstream_connects_total := m_upstream_connects_total m + 1\<rparr>"
  obtain s st where s: "subscribe_repos cbor (aconnect a) (astart a) (aevents a) ?m = (s, st)"
    by (cases "subscribe_repos cbor (aconnect a) (astart a) (aevents a) ?m")
  obtain pause b where b: "backoff_step (aelapsed a) backoff = (pause, b)" by (cases "backoff_step (aelapsed a) backoff")
  then have bounds: "1 \<le> pause" "pause \<le> 60" "1 \<le> b" "b \<le> 60"
    using "2.prems" by (auto simp: backoff_step_def Let_def split: if_splits)
  obtain cs ps fs m' where r: "spawn_ingest cbor b as (imetrics s) = ((cs, ps, fs), m')"
    by (cases "spawn_ingest cbor b as (imetrics s)") auto
  show ?case
  proof (cases "aclosed a")
    case False
    from "2.IH" [OF refl s [symmetric] refl refl False b [symmetric] refl bounds(3,4)] r have
      "\<forall>pause \<in> set ps. 1 \<le> pause \<and> pause \<le> 60" by simp
    then show ?thesis using bounds(1,2) False by (simp add: s b r Let_def)
  qed (simp add: s Let_def)
qed simp

theorem backoff_bounds_witness:
  "list_all (\<lambda>pause. 1 \<le> pause \<and> pause \<le> 60) (fst (snd (fst (spawn_ingest (\<lambda>_. None) 1
     (replicate 9 \<lparr>alast_seq = 7, aconnect = None, astart = 0, aevents = [], aelapsed = 30000, aclosed = False\<rparr>)
     metrics_default))))"
  using backoff_bounds [of 1] by (simp add: list_all_iff)

end
