(* ===== verification/Pump.thy ===== *)
theory Pump
  imports Publisher_Properties Router Ingest
begin

text \<open>
  The relay's main loop (\<open>pump\<close> in \<open>rust/crates/atmoq/src/main.rs\<close>): frames from upstream, deduplicated
  by sequence number, are fanned out to the per-account tracks and published; timers persist the
  cursor and collect old groups; a shutdown signal or the end of the channel finishes the group.
  The shared metrics are those of the publisher. An event carries the readings of the clocks.
\<close>

section \<open>State\<close>

record retention =
  window_secs :: u64
  max_bytes :: u64

record pump_config =
  cgroup_size :: nat
  cretention :: retention
  ccursor_file :: "string option"

record pump_state =
  sdisk :: disk
  spublisher :: publisher
  slast_seq :: int
  stotal :: u64
  sdropped :: u64
  srouter :: "did_router option"

text \<open>\<open>rx.recv()\<close>, the two timers, and the signal.\<close>

datatype pump_event = Recv "frame option" | CursorTick | GcTick | ShutdownSignal

record clock =
  wall_ms :: u64
  instant :: nat

datatype pump_status = Running | Stopping | Aborted moq_error

section \<open>Steps\<close>

definition update_metrics :: "(metrics \<Rightarrow> metrics) \<Rightarrow> pump_state \<Rightarrow> pump_state" where
  "update_metrics f s = s\<lparr>spublisher := (spublisher s)\<lparr>pmetrics := f (pmetrics (spublisher s))\<rparr>\<rparr>"

definition relay_frame :: "cbor_reader \<Rightarrow> pump_config \<Rightarrow> clock \<Rightarrow> frame \<Rightarrow> pump_state \<Rightarrow> pump_state \<times> pump_status" where
  "relay_frame cbor cfg clk f s =
     (let s = s\<lparr>srouter := map_option (route cbor (instant clk) (fraw f)) (srouter s)\<rparr> in
      case publish (fraw f) (cgroup_size cfg) (wall_ms clk) (instant clk) (sdisk s) (spublisher s) of
        ((d, p), Inl e) \<Rightarrow> (s\<lparr>sdisk := d, spublisher := p\<rparr>, Aborted e)
      | ((d, p), Inr _) \<Rightarrow>
          (update_metrics (record_frame (wall_ms clk) (fseq f))
             (s\<lparr>sdisk := d, spublisher := p, stotal := stotal s + 1\<rparr>), Running))"

definition pump_frame :: "cbor_reader \<Rightarrow> pump_config \<Rightarrow> clock \<Rightarrow> frame \<Rightarrow> pump_state \<Rightarrow> pump_state \<times> pump_status" where
  "pump_frame cbor cfg clk f s =
     (if fop f = - 1 then
        (update_metrics (\<lambda>m. m\<lparr>m_upstream_error_frames_total := m_upstream_error_frames_total m + 1\<rparr>) s, Running)
      else case fseq f of
        None \<Rightarrow> relay_frame cbor cfg clk f s
      | Some seq \<Rightarrow>
          if seq \<le> slast_seq s then
            (update_metrics
               (\<lambda>m. m\<lparr>m_frames_dropped_below_cursor_total := m_frames_dropped_below_cursor_total m + 1\<rparr>)
               (s\<lparr>sdropped := sdropped s + 1\<rparr>), Running)
          else relay_frame cbor cfg clk f (s\<lparr>sdropped := 0, slast_seq := seq\<rparr>))"

definition pump_step :: "cbor_reader \<Rightarrow> pump_config \<Rightarrow> clock \<Rightarrow> pump_event \<Rightarrow> pump_state \<Rightarrow> pump_state \<times> pump_status" where
  "pump_step cbor cfg clk ev s =
     (case ev of
        Recv None \<Rightarrow> (s, Stopping)
      | Recv (Some f) \<Rightarrow> pump_frame cbor cfg clk f s
      | CursorTick \<Rightarrow> (s\<lparr>sdisk := persist_cursor (ccursor_file cfg) (slast_seq s) (sdisk s)\<rparr>, Running)
      | GcTick \<Rightarrow>
          (case publisher_gc (wall_ms clk) (window_secs (cretention cfg)) (max_bytes (cretention cfg))
                  (sdisk s) (spublisher s) of
             (d, p) \<Rightarrow> (s\<lparr>sdisk := d, spublisher := p\<rparr>, Running))
      | ShutdownSignal \<Rightarrow> (s, Stopping))"

fun pump_loop :: "cbor_reader \<Rightarrow> pump_config \<Rightarrow> (clock \<times> pump_event) list \<Rightarrow> pump_state \<Rightarrow> pump_state \<times> pump_status" where
  "pump_loop cbor cfg [] s = (s, Running)"
| "pump_loop cbor cfg ((clk, ev) # evs) s =
     (case pump_step cbor cfg clk ev s of
        (s, Running) \<Rightarrow> pump_loop cbor cfg evs s
      | (s, status) \<Rightarrow> (s, status))"

text \<open>After the loop: finish the group, then write the cursor. A failing write or finish leaves at once.\<close>

definition pump_end :: "pump_config \<Rightarrow> clock \<Rightarrow> pump_state \<Rightarrow> disk \<times> (moq_error + publisher)" where
  "pump_end cfg clk s =
     (case publisher_finish (wall_ms clk) (sdisk s) (spublisher s) of
        (d, Inl e) \<Rightarrow> (d, Inl e)
      | (d, Inr p) \<Rightarrow> (persist_cursor (ccursor_file cfg) (slast_seq s) d, Inr p))"

definition pump_start :: "pump_config \<Rightarrow> int option \<Rightarrow> disk \<Rightarrow> publisher \<Rightarrow> did_router option \<Rightarrow> pump_state" where
  "pump_start cfg cursor d p r =
     \<lparr>sdisk = d, spublisher = p, slast_seq = load_initial_cursor d (ccursor_file cfg) cursor, stotal = 0,
      sdropped = 0, srouter = r\<rparr>"

end
