(* ===== verification/Event_Loop.thy ===== *)
theory Event_Loop
  imports Pump
begin

text \<open>
  What the pump owes its publisher, whatever the publisher is: of the frames received those that pass
  the filter (\<open>relayed\<close>) are handed over, in order. The locale \<open>frame_pump\<close> states this of one turn of
  the loop; its lemma of all turns holds for the lite publisher (\<open>Pump_Run\<close>) and for the draft-07
  publisher (\<open>Pump07\<close>).
\<close>

section \<open>The selection\<close>

fun relayed :: "int \<Rightarrow> ('c \<times> pump_event) list \<Rightarrow> frame list" where
  "relayed low [] = []"
| "relayed low ((clk, ev) # evs) =
     (case ev of
        Recv (Some f) \<Rightarrow>
          if fop f = - 1 then relayed low evs
          else (case fseq f of
                  None \<Rightarrow> f # relayed low evs
                | Some q \<Rightarrow> if q \<le> low then relayed low evs else f # relayed q evs)
      | Recv None \<Rightarrow> []
      | ShutdownSignal \<Rightarrow> []
      | _ \<Rightarrow> relayed low evs)"

definition seqs_of :: "frame list \<Rightarrow> int list" where
  "seqs_of fs = List.map_filter fseq fs"

lemma seqs_of_simps [simp]:
  "seqs_of [] = []"
  "seqs_of (f # fs) = (case fseq f of None \<Rightarrow> seqs_of fs | Some q \<Rightarrow> q # seqs_of fs)"
  by (simp_all add: seqs_of_def List.map_filter_simps split: option.split)

lemma seqs_of_append [simp]: "seqs_of (fs @ gs) = seqs_of fs @ seqs_of gs"
  by (induction fs) (simp_all split: option.split)

definition high_water :: "int \<Rightarrow> int list \<Rightarrow> int" where
  "high_water low qs = (if qs = [] then low else last qs)"

lemma high_water_simps [simp]: "high_water low [] = low" "high_water low (q # qs) = high_water q qs"
  by (simp_all add: high_water_def)

lemma relayed_sorted: "sorted_wrt (<) (low # seqs_of (relayed low evs))"
proof (induction low evs rule: relayed.induct)
  case (2 low clk ev evs)
  have up: "sorted_wrt (<) (low # xs)" if "sorted_wrt (<) (q # xs)" "low < q" for q :: int and xs
    using that by (auto intro: less_trans)
  show ?case using 2
    by (auto split: pump_event.split option.split simp: not_le intro: less_trans)
qed simp

lemma relayed_messages: "f \<in> set (relayed low evs) \<Longrightarrow> fop f \<noteq> - 1 \<and> Recv (Some f) \<in> snd ` set evs"
proof (induction evs arbitrary: low)
  case (Cons e evs)
  obtain clk ev where e: "e = (clk, ev)" by (cases e)
  then consider low' where "f \<in> set (relayed low' evs)" | "ev = Recv (Some f)" "fop f \<noteq> - 1"
    using Cons.prems by (auto split: pump_event.splits option.splits if_splits)
  then show ?case using Cons.IH by cases (auto simp: e)
qed simp

lemma high_water_append: "high_water low (xs @ ys) = high_water (high_water low xs) ys"
  by (simp add: high_water_def)

lemma relayed_Cons:
  "ev \<noteq> Recv None \<Longrightarrow> ev \<noteq> ShutdownSignal \<Longrightarrow> relayed low ((c, ev) # evs) =
    relayed low [(c, ev)] @ relayed (high_water low (seqs_of (relayed low [(c, ev)]))) evs"
  by (auto split: pump_event.splits option.splits)

lemma relayed_last: "ev = Recv None \<or> ev = ShutdownSignal \<Longrightarrow> relayed low ((c, ev) # evs) = relayed low [(c, ev)]"
  by auto

text \<open>The messages received; all of them are relayed when they are numbered above the cursor, in order.\<close>

definition received :: "('c \<times> pump_event) list \<Rightarrow> frame list" where
  "received evs = List.map_filter (\<lambda>(_, ev). case ev of Recv r \<Rightarrow> r | _ \<Rightarrow> None) evs"

lemma relayed_all:
  assumes "\<forall>ev \<in> snd ` set evs. ev \<noteq> Recv None \<and> ev \<noteq> ShutdownSignal"
    and "\<forall>f. Recv (Some f) \<in> snd ` set evs \<longrightarrow> fop f \<noteq> - 1"
    and "sorted_wrt (<) (low # seqs_of (received evs))"
  shows "relayed low evs = received evs"
  using assms
proof (induction evs arbitrary: low)
  case (Cons e evs)
  obtain clk ev where e: "e = (clk, ev)" by (cases e)
  show ?case
  proof (cases "\<exists>f. ev = Recv (Some f)")
    case True
    then obtain f where f: "ev = Recv (Some f)" by blast
    then have op: "fop f \<noteq> - 1" using Cons.prems(2) by (simp add: e)
    show ?thesis using Cons.IH [of "case fseq f of None \<Rightarrow> low | Some q \<Rightarrow> q"] Cons.prems f op
      by (cases "fseq f") (auto simp: e received_def List.map_filter_simps)
  next
    case False
    then show ?thesis using Cons.IH [of low] Cons.prems
      by (cases ev) (auto simp: e received_def List.map_filter_simps split: option.splits)
  qed
qed (simp add: received_def List.map_filter_simps)

text \<open>A number that fits the signed 64 bits of the cursor.\<close>

definition numbers_fit :: "frame \<Rightarrow> bool" where
  "numbers_fit f \<longleftrightarrow> (case fseq f of None \<Rightarrow> True | Some q \<Rightarrow> q < 2 ^ 63)"

section \<open>The loop\<close>

fun event_loop :: "('c \<Rightarrow> pump_event \<Rightarrow> 's \<Rightarrow> 's \<times> 'st) \<Rightarrow> 'st \<Rightarrow> ('c \<times> pump_event) list \<Rightarrow> 's \<Rightarrow> 's \<times> 'st" where
  "event_loop step go [] s = (s, go)"
| "event_loop step go ((c, ev) # evs) s =
     (case step c ev s of (s', st) \<Rightarrow> if st = go then event_loop step go evs s' else (s', st))"

text \<open>\<open>inv s h\<close> relates a state to the frames \<open>h\<close> handed to the publisher so far; \<open>halted s h\<close> is what is
  left of it when a turn that was to hand over the last of \<open>h\<close> ends in another way than going on or
  stopping.\<close>

locale frame_pump =
  fixes step :: "'c \<Rightarrow> pump_event \<Rightarrow> 's \<Rightarrow> 's \<times> 'st"
    and go :: 'st
    and stop :: 'st
    and inv :: "'s \<Rightarrow> frame list \<Rightarrow> bool"
    and halted :: "'s \<Rightarrow> frame list \<Rightarrow> bool"
    and cursor :: "'s \<Rightarrow> int"
    and fits :: "frame \<Rightarrow> bool"
  assumes turn: "inv s h \<Longrightarrow> (\<And>f. ev = Recv (Some f) \<Longrightarrow> fits f) \<Longrightarrow> step c ev s = (s', st) \<Longrightarrow>
      (st = go \<or> st = stop) \<and> inv s' (h @ relayed (cursor s) [(c, ev)]) \<and>
        cursor s' = high_water (cursor s) (seqs_of (relayed (cursor s) [(c, ev)])) \<or>
      st \<noteq> go \<and> st \<noteq> stop \<and> halted s' (h @ relayed (cursor s) [(c, ev)])"
    and goes_on: "step c ev s = (s', go) \<Longrightarrow> ev \<noteq> Recv None \<and> ev \<noteq> ShutdownSignal"
    and stops: "step c ev s = (s', stop) \<Longrightarrow> ev = Recv None \<or> ev = ShutdownSignal"
begin

lemma run:
  assumes "inv s h" "\<And>f. Recv (Some f) \<in> snd ` set evs \<Longrightarrow> fits f" "event_loop step go evs s = (s', st)"
  shows "(st = go \<or> st = stop) \<and> inv s' (h @ relayed (cursor s) evs) \<and>
        cursor s' = high_water (cursor s) (seqs_of (relayed (cursor s) evs)) \<or>
      st \<noteq> go \<and> st \<noteq> stop \<and> (\<exists>done rest. evs = done @ rest \<and> halted s' (h @ relayed (cursor s) done))"
  using assms
proof (induction evs arbitrary: s h)
  case Nil
  then show ?case by auto
next
  case (Cons e evs)
  obtain c ev where e: "e = (c, ev)" by (cases e)
  obtain s1 st1 where step: "step c ev s = (s1, st1)" by (cases "step c ev s")
  have fits: "fits f" if "ev = Recv (Some f)" for f using Cons.prems(2) that by (simp add: e)
  note out = turn [OF Cons.prems(1) fits step]
  show ?case
  proof (cases "st1 = go")
    case True
    then have loop: "event_loop step go evs s1 = (s', st)" using Cons.prems(3) step by (simp add: e)
    have rel: "relayed low ((c, ev) # es) = relayed low [(c, ev)] @
        relayed (high_water low (seqs_of (relayed low [(c, ev)]))) es" for low :: int and c :: 'c and es
      using goes_on step True by (intro relayed_Cons) auto
    have o: "inv s1 (h @ relayed (cursor s) [(c, ev)])"
      "cursor s1 = high_water (cursor s) (seqs_of (relayed (cursor s) [(c, ev)]))" using out True by auto
    have fits: "fits f" if "Recv (Some f) \<in> snd ` set evs" for f using Cons.prems(2) that by simp
    have join: "(h @ relayed (cursor s) [(c, ev)]) @ relayed (cursor s1) es = h @ relayed (cursor s) (e # es)"
      "high_water (cursor s1) (seqs_of (relayed (cursor s1) es)) =
        high_water (cursor s) (seqs_of (relayed (cursor s) (e # es)))" for es
      unfolding e rel [of "cursor s" c es] o(2) by (simp_all only: append_assoc seqs_of_append high_water_append)
    from Cons.IH [OF o(1) fits loop] show ?thesis unfolding join by (metis append_Cons)
  next
    case False
    then have same: "s' = s1" "st = st1" using Cons.prems(3) step by (simp_all add: e)
    show ?thesis
    proof (cases "st1 = stop")
      case True
      then have "relayed (cursor s) (e # evs) = relayed (cursor s) [(c, ev)]"
        unfolding e using stops step by (intro relayed_last) simp
      then show ?thesis unfolding same using out True by auto
    next
      case neither: False
      then have "halted s1 (h @ relayed (cursor s) [(c, ev)])" using out False by blast
      moreover have "e # evs = [(c, ev)] @ evs" by (simp add: e)
      ultimately show ?thesis unfolding same using False neither by blast
    qed
  qed
qed

end

end
