(* ===== verification/Pump_Run.thy ===== *)
theory Pump_Run
  imports Event_Loop Relay_Steps
begin

text \<open>
  The pump against the lite publisher's history: reading all groups in sequence order (\<open>stream_of\<close>)
  gives exactly the frames handed over, in order, over all lives. Every turn of the loop keeps
  \<open>pump_ok\<close>, so the pump is an instance of \<open>frame_pump\<close>; to its publisher a turn is a few steps of a relay
  that is up (\<open>run_step\<close>).
\<close>

section \<open>The stream of all groups\<close>

definition stream_to :: "nat \<Rightarrow> history \<Rightarrow> bytes list" where
  "stream_to n sent = concat (map (\<lambda>i. sent (word_of_nat i)) [0..<n])"

definition stream_of :: "publisher \<Rightarrow> history \<Rightarrow> bytes list" where
  "stream_of p sent = stream_to (Suc (unat (hseq (pgroup p)))) sent"

lemma stream_to_below: "n \<le> unat s \<Longrightarrow> stream_to n (sent(s := fs)) = stream_to n sent"
proof -
  assume n: "n \<le> unat s"
  have "word_of_nat i \<noteq> s" if "i < n" for i
  proof
    assume i: "word_of_nat i = s"
    have "i < 2 ^ 64" using that n unat_u64_less [of s] by linarith
    then have "unat (word_of_nat i :: u64) = i" by (simp add: unat_of_nat)
    then show False using i that n by simp
  qed
  then have "map (\<lambda>i. (sent(s := fs)) (word_of_nat i)) [0..<n] = map (\<lambda>i. sent (word_of_nat i)) [0..<n]" by simp
  then show ?thesis by (simp only: stream_to_def)
qed

lemma stream_to_Suc: "stream_to (Suc (unat s)) sent = stream_to (unat s) sent @ sent s"
  by (simp add: stream_to_def)

lemma stream_published:
  "stream_to (Suc (unat (hseq (pgroup p)))) (published p data sent) = stream_of p sent @ [data]"
  by (simp add: stream_of_def stream_to_Suc published_def stream_to_below)

section \<open>One frame\<close>

text \<open>The group in progress and the next frame always fit a record of the store.\<close>

definition group_fits :: "nat \<Rightarrow> nat \<Rightarrow> publisher \<Rightarrow> bool" where
  "group_fits gsize limit p \<longleftrightarrow> pcount p = length (pframes p) \<and> pcount p < max 1 gsize \<and>
     (\<forall>f \<in> set (pframes p). length f \<le> limit)"

lemma fits_rec:
  assumes "group_fits gsize limit p" "length data \<le> limit" "(4 + limit) * max 1 gsize < 2 ^ 32"
  shows "rec_ok True (s, ms, pframes p @ [data])"
proof -
  let ?fs = "pframes p @ [data]"
  have fs: "\<forall>f \<in> set ?fs. length f \<le> limit" and n: "length ?fs \<le> max 1 gsize"
    using assms(1,2) by (auto simp: group_fits_def)
  have "sum_list (map (\<lambda>f. 4 + length f) ?fs) \<le> sum_list (map (\<lambda>_. 4 + limit) ?fs)"
    using fs by (intro sum_list_mono) auto
  also have "\<dots> = (4 + limit) * length ?fs" by (simp add: sum_list_triv)
  also have "\<dots> \<le> (4 + limit) * max 1 gsize" using n by (intro mult_left_mono) auto
  finally have "length (frames_body ?fs) < 2 ^ 32" using assms(3) by (simp add: length_frames_body)
  moreover have "4 + limit < 2 ^ 32" "max 1 gsize < 2 ^ 32"
  proof -
    have "4 + limit \<le> (4 + limit) * max 1 gsize" "max 1 gsize \<le> (4 + limit) * max 1 gsize"
      using mult_le_mono2 [of 1 "max 1 gsize" "4 + limit"] mult_le_mono1 [of 1 "4 + limit" "max 1 gsize"] by simp_all
    then show "4 + limit < 2 ^ 32" "max 1 gsize < 2 ^ 32" using assms(3) by (simp_all only: order.strict_trans1)
  qed
  ultimately show ?thesis using fs n by (fastforce simp: rec_ok_def frame_ok_def)
qed

lemma publish_step:
  assumes run: "relay_run cfg d (Some p) sent" and fits: "group_fits gsize limit p"
    and small: "length data \<le> limit" "(4 + limit) * max 1 gsize < 2 ^ 32"
    and pub: "publish data gsize now_ms now d p = ((d', p'), res)"
  shows "relay_run cfg d' (Some p') (published p data sent)"
    and "res = Inr () \<Longrightarrow> group_fits gsize limit p' \<and> stream_of p' (published p data sent) = stream_of p sent @ [data]"
    and "res \<noteq> Inr () \<Longrightarrow> hseq (pgroup p') = -1"
proof -
  note up = relay_up [OF run]
  have ok: "pub_ok (seq_name cfg) d p sent" and gf: "good_file (seq_name cfg)" using up by simp_all
  have rec: "rec_ok True (s, ms, pframes p @ [data])" for s ms by (rule fits_rec [OF fits small])
  show run': "relay_run cfg d' (Some p') (published p data sent)" using relay_run.wrote [OF run _ pub] rec by blast
  note o = publish_outcome [OF ok gf rec pub]
  show "res \<noteq> Inr () \<Longrightarrow> hseq (pgroup p') = -1" using o(2) by simp
  assume "res = Inr ()"
  note o = o(1) [OF this]
  have fits': "group_fits gsize limit p'" using o fits small(1) by (auto simp: group_fits_def split: if_splits)
  have "pub_ok (seq_name cfg) d' p' (published p data sent)" using relay_up [OF run'] by simp
  then have top: "published p data sent (hseq (pgroup p')) = pframes p'" by (simp add: pub_ok_def)
  have "stream_of p' (published p data sent) = stream_of p sent @ [data]"
  proof (cases "gsize \<le> pcount p + 1")
    case True
    then have "stream_of p' (published p data sent) =
        stream_to (Suc (unat (hseq (pgroup p)))) (published p data sent) @ published p data sent (hseq (pgroup p'))"
      using o stream_to_Suc [of "hseq (pgroup p')" "published p data sent"] by (simp add: stream_of_def)
    then show ?thesis using True o top by (simp add: stream_published)
  next
    case False
    then show ?thesis using o stream_published [of p data sent] by (simp add: stream_of_def)
  qed
  with fits' show "group_fits gsize limit p' \<and> stream_of p' (published p data sent) = stream_of p sent @ [data]" by simp
qed

section \<open>The loop\<close>

text \<open>A cursor file that is no state file of the publisher.\<close>

definition good_cursor :: "string option \<Rightarrow> pump_config \<Rightarrow> bool" where
  "good_cursor cfg pc \<longleftrightarrow>
     (case ccursor_file pc of None \<Rightarrow> True
      | Some c \<Rightarrow> good_file c \<and> c \<noteq> seq_name cfg \<and> tmp_name c \<noteq> seq_name cfg)"

definition pump_ok :: "string option \<Rightarrow> pump_config \<Rightarrow> nat \<Rightarrow> pump_state \<Rightarrow> history \<Rightarrow> bool" where
  "pump_ok cfg pc limit s sent \<longleftrightarrow>
     relay_run cfg (sdisk s) (Some (spublisher s)) sent \<and> group_fits (cgroup_size pc) limit (spublisher s) \<and>
     good_cursor cfg pc \<and> (4 + limit) * max 1 (cgroup_size pc) < 2 ^ 32"

lemma update_metrics_ok: "pump_ok cfg pc limit s sent \<Longrightarrow> pump_ok cfg pc limit (update_metrics f s) sent"
  using relay_run.counters by (auto simp: pump_ok_def update_metrics_def group_fits_def)

lemma update_metrics_simps [simp]:
  "slast_seq (update_metrics f s) = slast_seq s" "stream_of (spublisher (update_metrics f s)) = stream_of (spublisher s)"
  "pgroup (spublisher (update_metrics f s)) = pgroup (spublisher s)"
  by (simp_all add: update_metrics_def stream_of_def fun_eq_iff)

lemma relay_run_room: "relay_run cfg d u sent \<Longrightarrow> room d = None \<and> granted d"
  using relay_run_ok [of cfg d u sent] by (cases u) (auto simp: pub_ok_def down_ok_def store_ok_def on_disk_def)

lemma persist_cursor_elsewhere:
  assumes "relay_run cfg d u sent" "good_cursor cfg pc"
  shows "elsewhere d (persist_cursor (ccursor_file pc) n d)" and "room (persist_cursor (ccursor_file pc) n d) = None"
    and "load_group_seq (persist_cursor (ccursor_file pc) n d) (default_seq_file cfg) = load_group_seq d (default_seq_file cfg)"
proof -
  have "elsewhere d (persist_cursor (ccursor_file pc) n d) \<and> room (persist_cursor (ccursor_file pc) n d) = None \<and>
    load_group_seq (persist_cursor (ccursor_file pc) n d) (Some (seq_name cfg)) = load_group_seq d (Some (seq_name cfg))"
  proof (cases "ccursor_file pc")
    case None
    then show ?thesis using relay_run_room [OF assms(1)] by (simp add: persist_cursor_def)
  next
    case (Some c)
    have c: "\<not> is_segment_file c" "tmp_name c \<noteq> seq_name cfg" "c \<noteq> seq_name cfg"
      using assms(2) Some by (simp_all add: good_cursor_def good_file_def)
    note l = persist_cursor_leaves [OF c, of d n] relay_run_room [OF assms(1)]
    then have "load_group_seq (persist_cursor (Some c) n d) (Some (seq_name cfg)) = load_group_seq d (Some (seq_name cfg))"
      by (intro load_group_seq_cong) simp_all
    then show ?thesis using l Some by simp
  qed
  then show "elsewhere d (persist_cursor (ccursor_file pc) n d)" "room (persist_cursor (ccursor_file pc) n d) = None"
    "load_group_seq (persist_cursor (ccursor_file pc) n d) (default_seq_file cfg) = load_group_seq d (default_seq_file cfg)"
    by simp_all
qed

lemma persist_cursor_run:
  "relay_run cfg d u sent \<Longrightarrow> good_cursor cfg pc \<Longrightarrow> relay_run cfg (persist_cursor (ccursor_file pc) n d) u sent"
  by (rule relay_run.other_file [OF _ persist_cursor_elsewhere])

text \<open>The relay as its pump has it.\<close>

definition relay_at :: "pump_state \<Rightarrow> history \<Rightarrow> relay" where
  "relay_at s sent = (sdisk s, spublisher s, sent)"

lemma relay_at_up: "up cfg (relay_at s sent) \<longleftrightarrow> relay_run cfg (sdisk s) (Some (spublisher s)) sent"
  by (simp add: up_def relay_at_def)

lemma update_metrics_step: "run_step cfg (relay_at s sent) (relay_at (update_metrics f s) sent)"
  using run_step.count by (auto simp: relay_at_def update_metrics_def)

text \<open>Frames that get past the filter.\<close>

lemma relay_frame_ok:
  assumes ok: "pump_ok cfg pc limit s sent" and small: "length (fraw f) \<le> limit"
    and step: "relay_frame cbor pc clk f s = (s', st)"
  shows "\<exists>sent'. (run_step cfg)\<^sup>*\<^sup>* (relay_at s sent) (relay_at s' sent') \<and> slast_seq s' = slast_seq s \<and>
    (st = Running \<and> pump_ok cfg pc limit s' sent' \<and>
       stream_of (spublisher s') sent' = stream_of (spublisher s) sent @ [fraw f] \<or>
     (\<exists>e. st = Aborted e) \<and> hseq (pgroup (spublisher s')) = -1)"
proof -
  note o = ok [unfolded pump_ok_def]
  obtain d p res where pub: "publish (fraw f) (cgroup_size pc) (wall_ms clk) (instant clk) (sdisk s) (spublisher s) = ((d, p), res)"
    by (cases "publish (fraw f) (cgroup_size pc) (wall_ms clk) (instant clk) (sdisk s) (spublisher s)") auto
  let ?sent = "published (spublisher s) (fraw f) sent"
  note ps = publish_step [OF _ _ small _ pub, of cfg sent]
  have "rec_ok True (q, ms, pframes (spublisher s) @ [fraw f])" for q ms by (rule fits_rec) (use o small in auto)
  then have wrote: "run_step cfg (relay_at s sent) (d, p, ?sent)" unfolding relay_at_def by (intro run_step.wrote [OF _ pub]) blast
  show ?thesis
  proof (cases res)
    case (Inl e)
    then have s': "sdisk s' = d" "spublisher s' = p" "slast_seq s' = slast_seq s" "st = Aborted e"
      using step by (auto simp: relay_frame_def pub Let_def)
    then have "run_step cfg (relay_at s sent) (relay_at s' ?sent)" using wrote by (simp add: relay_at_def)
    then show ?thesis using ps(3) o Inl s' by (intro exI [of _ ?sent]) auto
  next
    case (Inr u)
    let ?s = "(s\<lparr>srouter := map_option (route cbor (instant clk) (fraw f)) (srouter s)\<rparr>)
      \<lparr>sdisk := d, spublisher := p, stotal := stotal s + 1\<rparr>"
    have s': "s' = update_metrics (record_frame (wall_ms clk) (fseq f)) ?s" "st = Running"
      using step Inr by (auto simp: relay_frame_def pub Let_def)
    have "relay_run cfg d (Some p) ?sent" "group_fits (cgroup_size pc) limit p"
      "stream_of p ?sent = stream_of (spublisher s) sent @ [fraw f]" using ps(1,2) o Inr by auto
    then have "pump_ok cfg pc limit ?s ?sent" using o by (simp add: pump_ok_def)
    then have ok': "pump_ok cfg pc limit s' ?sent" unfolding s'(1) by (rule update_metrics_ok)
    have "run_step cfg (d, p, ?sent) (relay_at s' ?sent)" using update_metrics_step [of cfg ?s] unfolding s'(1) by (simp add: relay_at_def)
    with wrote have "(run_step cfg)\<^sup>*\<^sup>* (relay_at s sent) (relay_at s' ?sent)" by auto
    then show ?thesis using ok' s' \<open>stream_of p ?sent = stream_of (spublisher s) sent @ [fraw f]\<close>
      by (intro exI [of _ ?sent]) auto
  qed
qed

text \<open>One event: what it adds to the stream, and the high-water mark after it.\<close>

definition pump_next :: "string option \<Rightarrow> pump_config \<Rightarrow> nat \<Rightarrow> history \<Rightarrow> clock \<Rightarrow> pump_event \<Rightarrow> pump_state \<Rightarrow>
    pump_state \<Rightarrow> pump_status \<Rightarrow> bool" where
  "pump_next cfg pc limit sent clk ev s s' st \<longleftrightarrow>
     (\<exists>sent'. (run_step cfg)\<^sup>*\<^sup>* (relay_at s sent) (relay_at s' sent') \<and>
       ((\<forall>e. st \<noteq> Aborted e) \<and> pump_ok cfg pc limit s' sent' \<and>
          stream_of (spublisher s') sent' = stream_of (spublisher s) sent @ map fraw (relayed (slast_seq s) [(clk, ev)]) \<and>
          slast_seq s' = high_water (slast_seq s) (seqs_of (relayed (slast_seq s) [(clk, ev)])) \<and>
          (st = Running \<or> ev = Recv None \<or> ev = ShutdownSignal) \<or>
        (\<exists>e. st = Aborted e) \<and> hseq (pgroup (spublisher s')) = -1))"

lemma pump_next_same:
  assumes "pump_ok cfg pc limit s' sent" "(run_step cfg)\<^sup>*\<^sup>* (relay_at s sent) (relay_at s' sent)"
    and "slast_seq s' = slast_seq s" "\<forall>e. st \<noteq> Aborted e"
    and "pgroup (spublisher s') = pgroup (spublisher s)" "relayed (slast_seq s) [(clk, ev)] = []"
    and "st = Running \<or> ev = Recv None \<or> ev = ShutdownSignal"
  shows "pump_next cfg pc limit sent clk ev s s' st"
  unfolding pump_next_def using assms by (intro exI [of _ sent]) (auto simp: pump_ok_def stream_of_def)

lemma pump_frame_ok:
  assumes ok: "pump_ok cfg pc limit s sent" and small: "length (fraw f) \<le> limit"
    and step: "pump_frame cbor pc clk f s = (s', st)"
  shows "pump_next cfg pc limit sent clk (Recv (Some f)) s s' st"
proof -
  consider "fop f = - 1" | "fop f \<noteq> - 1" "fseq f = None" | q where "fop f \<noteq> - 1" "fseq f = Some q" "q \<le> slast_seq s"
    | q where "fop f \<noteq> - 1" "fseq f = Some q" "\<not> q \<le> slast_seq s" by (cases "fseq f") auto
  then show ?thesis
  proof cases
    case 1
    then show ?thesis using step ok update_metrics_ok [OF ok] update_metrics_step
      by (intro pump_next_same) (auto simp: pump_frame_def)
  next
    case 2
    then have "relay_frame cbor pc clk f s = (s', st)" using step by (simp add: pump_frame_def)
    from relay_frame_ok [OF ok small this] 2 show ?thesis by (auto simp: pump_next_def)
  next
    case 3
    have "pump_ok cfg pc limit (s\<lparr>sdropped := sdropped s + 1\<rparr>) sent" using ok by (simp add: pump_ok_def)
    moreover have "relay_at (s\<lparr>sdropped := sdropped s + 1\<rparr>) sent = relay_at s sent" by (simp add: relay_at_def)
    then have "run_step cfg (relay_at s sent) (relay_at (update_metrics g (s\<lparr>sdropped := sdropped s + 1\<rparr>)) sent)" for g
      using update_metrics_step by metis
    ultimately show ?thesis using step update_metrics_ok 3 by (intro pump_next_same) (auto simp: pump_frame_def)
  next
    case 4
    let ?s = "s\<lparr>sdropped := 0, slast_seq := q\<rparr>"
    have "relay_frame cbor pc clk f ?s = (s', st)" using step 4 by (simp add: pump_frame_def)
    moreover have "pump_ok cfg pc limit ?s sent" using ok by (simp add: pump_ok_def)
    moreover have "relay_at ?s sent = relay_at s sent" by (simp add: relay_at_def)
    ultimately show ?thesis using relay_frame_ok [of cfg pc limit ?s sent f cbor clk s' st] small 4
      by (auto simp: pump_next_def)
  qed
qed

lemma pump_step_ok:
  assumes ok: "pump_ok cfg pc limit s sent" and small: "\<And>f. ev = Recv (Some f) \<Longrightarrow> length (fraw f) \<le> limit"
    and step: "pump_step cbor pc clk ev s = (s', st)"
  shows "pump_next cfg pc limit sent clk ev s s' st"
proof -
  note o = ok [unfolded pump_ok_def]
  consider f where "ev = Recv (Some f)" | "ev = Recv None \<or> ev = ShutdownSignal" | "ev = CursorTick" | "ev = GcTick"
    by (metis pump_event.exhaust option.exhaust)
  then show ?thesis
  proof cases
    case 1
    then have "pump_frame cbor pc clk f s = (s', st)" using step by (simp add: pump_step_def)
    from pump_frame_ok [OF ok _ this] small 1 show ?thesis by blast
  next
    case 2
    then have "s' = s" "st = Stopping" "relayed (slast_seq s) [(clk, ev)] = []" using step by (auto simp: pump_step_def)
    then show ?thesis using ok 2 by (intro pump_next_same) simp_all
  next
    case 3
    then have "s' = s\<lparr>sdisk := persist_cursor (ccursor_file pc) (slast_seq s) (sdisk s)\<rparr>" "st = Running"
      using step by (simp_all add: pump_step_def)
    moreover have "relay_run cfg (persist_cursor (ccursor_file pc) (slast_seq s) (sdisk s)) (Some (spublisher s)) sent"
      by (rule persist_cursor_run) (use o in simp_all)
    moreover have "run_step cfg (relay_at s sent) (persist_cursor (ccursor_file pc) (slast_seq s) (sdisk s), spublisher s, sent)"
      unfolding relay_at_def by (rule run_step.state_file [OF persist_cursor_elsewhere]) (use o in blast)+
    then have "run_step cfg (relay_at s sent) (relay_at (s\<lparr>sdisk := persist_cursor (ccursor_file pc) (slast_seq s) (sdisk s)\<rparr>) sent)"
      by (simp add: relay_at_def)
    ultimately show ?thesis using o 3 by (intro pump_next_same) (simp_all add: pump_ok_def)
  next
    case 4
    obtain d p where g: "publisher_gc (wall_ms clk) (window_secs (cretention pc)) (max_bytes (cretention pc))
        (sdisk s) (spublisher s) = (d, p)" by fastforce
    then have s': "s' = s\<lparr>sdisk := d, spublisher := p\<rparr>" "st = Running" using step 4 by (simp_all add: pump_step_def)
    have "relay_run cfg d (Some p) sent" by (rule relay_run.collect [OF _ g]) (use o in simp)
    moreover have "run_step cfg (relay_at s sent) (relay_at s' sent)" using run_step.collect [OF g] s'(1) by (simp add: relay_at_def)
    moreover have "pframes p = pframes (spublisher s)" "pcount p = pcount (spublisher s)" "pgroup p = pgroup (spublisher s)"
      using g by (auto simp: publisher_gc_def Let_def split: option.splits prod.splits if_splits)
    ultimately show ?thesis using o s' 4 by (intro pump_next_same) (simp_all add: pump_ok_def group_fits_def)
  qed
qed

lemma pump_loop_event_loop: "pump_loop cbor pc evs s = event_loop (pump_step cbor pc) Running evs s"
proof (induction evs arbitrary: s)
  case (Cons e evs)
  then show ?case by (cases e) (auto split: prod.split pump_status.split)
qed simp

lemma pump_step_status:
  "pump_step cbor pc clk ev s = (s', Running) \<Longrightarrow> ev \<noteq> Recv None \<and> ev \<noteq> ShutdownSignal"
  "pump_step cbor pc clk ev s = (s', Stopping) \<Longrightarrow> ev = Recv None \<or> ev = ShutdownSignal"
  by (auto simp: pump_step_def pump_frame_def relay_frame_def Let_def
      split: pump_event.splits option.splits prod.splits sum.splits if_splits)

interpretation lite: frame_pump "pump_step cbor pc" Running Stopping
    "\<lambda>s h. \<exists>sent. pump_ok cfg pc maxlen s sent \<and> (run_step cfg)\<^sup>*\<^sup>* w (relay_at s sent) \<and>
       stream_of (spublisher s) sent = old @ map fraw h"
    "\<lambda>s h. hseq (pgroup (spublisher s)) = - 1 \<and> (\<exists>sent. (run_step cfg)\<^sup>*\<^sup>* w (relay_at s sent))"
    slast_seq "\<lambda>f. length (fraw f) \<le> maxlen" for cbor pc cfg maxlen old w
proof (unfold_locales, goal_cases)
  case (1 s h ev c s' st)
  then obtain sent where sent: "pump_ok cfg pc maxlen s sent" "(run_step cfg)\<^sup>*\<^sup>* w (relay_at s sent)"
    "stream_of (spublisher s) sent = old @ map fraw h" by blast
  from pump_step_ok [OF sent(1) 1(2,3)] obtain sent' where
    n: "(run_step cfg)\<^sup>*\<^sup>* (relay_at s sent) (relay_at s' sent')"
      "(\<forall>e. st \<noteq> Aborted e) \<and> pump_ok cfg pc maxlen s' sent' \<and>
          stream_of (spublisher s') sent' = stream_of (spublisher s) sent @ map fraw (relayed (slast_seq s) [(c, ev)]) \<and>
          slast_seq s' = high_water (slast_seq s) (seqs_of (relayed (slast_seq s) [(c, ev)])) \<and>
          (st = Running \<or> ev = Recv None \<or> ev = ShutdownSignal) \<or>
        (\<exists>e. st = Aborted e) \<and> hseq (pgroup (spublisher s')) = -1"
    unfolding pump_next_def by blast
  have "(run_step cfg)\<^sup>*\<^sup>* w (relay_at s' sent')" using sent(2) n(1) by (rule rtranclp_trans)
  then show ?case using n(2) sent(3) by (cases st) (simp_all del: relayed.simps, (metis append.assoc map_append)+)
qed (use pump_step_status in blast)+

lemma pump_loop_runs:
  assumes "pump_ok cfg pc limit s sent" "\<And>f. Recv (Some f) \<in> snd ` set evs \<Longrightarrow> length (fraw f) \<le> limit"
    and "pump_loop cbor pc evs s = (s', st)"
  shows "\<exists>sent'. (run_step cfg)\<^sup>*\<^sup>* (relay_at s sent) (relay_at s' sent') \<and>
    ((\<forall>e. st \<noteq> Aborted e) \<and> pump_ok cfg pc limit s' sent' \<and>
       stream_of (spublisher s') sent' = stream_of (spublisher s) sent @ map fraw (relayed (slast_seq s) evs) \<and>
       slast_seq s' = high_water (slast_seq s) (seqs_of (relayed (slast_seq s) evs)) \<or>
     (\<exists>e. st = Aborted e) \<and> hseq (pgroup (spublisher s')) = -1)"
  using lite.run [where h = "[]" and old = "stream_of (spublisher s) sent" and w = "relay_at s sent",
      OF _ assms(2) assms(3) [unfolded pump_loop_event_loop]]
    assms(1) by (cases st) auto

lemma pump_loop_ok:
  assumes "pump_ok cfg pc limit s sent" "\<And>f. Recv (Some f) \<in> snd ` set evs \<Longrightarrow> length (fraw f) \<le> limit"
    and "pump_loop cbor pc evs s = (s', st)"
  shows "\<exists>sent'. relay_run cfg (sdisk s') (Some (spublisher s')) sent' \<and>
    ((\<forall>e. st \<noteq> Aborted e) \<and> pump_ok cfg pc limit s' sent' \<and>
       stream_of (spublisher s') sent' = stream_of (spublisher s) sent @ map fraw (relayed (slast_seq s) evs) \<and>
       slast_seq s' = high_water (slast_seq s) (seqs_of (relayed (slast_seq s) evs)) \<or>
     (\<exists>e. st = Aborted e) \<and> hseq (pgroup (spublisher s')) = -1)"
  using pump_loop_runs [OF assms] steps_up assms(1) by (metis pump_ok_def relay_at_up)

end
