(* ===== verification/Pump_Properties.thy ===== *)
theory Pump_Properties
  imports Pump_Run
begin

text \<open>
  What the relay promises downstream: frames are relayed once, in order and unchanged, over
  rotations and restarts, and none that upstream delivered in order is left out.
\<close>

section \<open>A short run\<close>

definition msg :: "int \<Rightarrow> bytes \<Rightarrow> frame" where
  "msg q raw = \<lparr>fop = 1, ft = Some ''#commit'', fseq = Some q, fraw = raw\<rparr>"

definition tick :: clock where
  "tick = \<lparr>wall_ms = 3000, instant = 30\<rparr>"

definition small_config :: pump_config where
  "small_config = \<lparr>cgroup_size = 2, cretention = \<lparr>window_secs = 0, max_bytes = 0\<rparr>, ccursor_file = Some ''cursor''\<rparr>"

definition arrivals :: "(clock \<times> pump_event) list" where
  "arrivals = map (\<lambda>ev. (tick, ev))
     [Recv (Some (msg 5 [1])), Recv (Some (msg 5 [1])), Recv (Some ((msg 6 [2])\<lparr>fop := - 1, fseq := None\<rparr>)),
      CursorTick, Recv (Some (msg 7 [3])), GcTick, Recv (Some (msg 9 [4])), ShutdownSignal]"

definition pump0 :: pump_state where
  "pump0 = pump_start small_config None (fst relay1) (snd relay1) None"

definition pump1 :: pump_state where
  "pump1 = fst (pump_loop (\<lambda>_. None) small_config arrivals pump0)"

lemma pump0_ok: "pump_ok None small_config 8 pump0 (\<lambda>_. [])"
proof -
  have "good_cursor None small_config" by code_simp
  then show ?thesis
    by (simp add: pump_ok_def pump0_def pump_start_def relay1_run group_fits_def relay_seqs small_config_def)
qed

lemma arrivals_small: "Recv (Some f) \<in> snd ` set arrivals \<Longrightarrow> length (fraw f) \<le> 8"
  by (auto simp: arrivals_def msg_def)

lemma arrivals_run: "pump_loop (\<lambda>_. None) small_config arrivals pump0 = (pump1, Stopping)"
proof -
  have "snd (pump_loop (\<lambda>_. None) small_config arrivals pump0) = Stopping" by code_simp
  then show ?thesis by (simp add: pump1_def prod_eq_iff)
qed

lemma pump0_low: "slast_seq pump0 = - 1"
  by code_simp

lemma arrivals_relayed: "relayed (- 1) arrivals = [msg 5 [1], msg 7 [3], msg 9 [4]]"
  by (simp add: arrivals_def msg_def)

section \<open>Order and completeness\<close>

text \<open>C6: the relay is a faithful pipe as long as the disk takes its writes: reading all groups in sequence order gives what was published
  before followed by the raw bytes of exactly the frames that pass the filter, in order, whatever
  rotations, timers and collections happen in between; the pump only ever aborts when the sequence
  numbers of groups are used up.\<close>

theorem pump_relays_in_order:
  assumes "pump_ok cfg pc limit s sent" "\<forall>f. Recv (Some f) \<in> snd ` set evs \<longrightarrow> length (fraw f) \<le> limit"
    and "pump_loop cbor pc evs s = (s', st)"
  shows "\<exists>sent'. relay_run cfg (sdisk s') (Some (spublisher s')) sent' \<and>
    (if \<exists>e. st = Aborted e then hseq (pgroup (spublisher s')) = -1
     else stream_of (spublisher s') sent' = stream_of (spublisher s) sent @ map fraw (relayed (slast_seq s) evs))"
  using pump_loop_ok [OF assms(1) _ assms(3)] assms(2) by auto

theorem pump_relays_in_order_witness:
  "\<exists>sent. relay_run None (sdisk pump1) (Some (spublisher pump1)) sent \<and> stream_of (spublisher pump1) sent = [[1], [3], [4]]"
proof -
  have "stream_of (spublisher pump0) (\<lambda>_. []) = []" by (simp add: stream_of_def stream_to_def)
  with pump_relays_in_order [OF pump0_ok _ arrivals_run] arrivals_small show ?thesis
    by (auto simp: pump0_low arrivals_relayed msg_def)
qed

text \<open>what is relayed has strictly growing sequence numbers above the cursor, so replayed frames
  are never repeated, and it never contains an upstream error frame or anything upstream did not
  send.\<close>

theorem relayed_once:
  assumes "pump_ok cfg pc limit s sent" "\<forall>f. Recv (Some f) \<in> snd ` set evs \<longrightarrow> length (fraw f) \<le> limit"
    and "pump_loop cbor pc evs s = (s', st)" "st = Running \<or> st = Stopping"
  shows "\<exists>sent' fs. relay_run cfg (sdisk s') (Some (spublisher s')) sent' \<and>
    stream_of (spublisher s') sent' = stream_of (spublisher s) sent @ map fraw fs \<and>
    sorted_wrt (<) (slast_seq s # seqs_of fs) \<and> slast_seq s' = high_water (slast_seq s) (seqs_of fs) \<and>
    (\<forall>f \<in> set fs. fop f \<noteq> - 1 \<and> Recv (Some f) \<in> snd ` set evs)"
proof -
  have "\<not> (\<exists>e. st = Aborted e)" using assms(4) by auto
  moreover note pump_loop_ok [OF assms(1) _ assms(3)] assms(2)
  ultimately obtain sent' where
    "relay_run cfg (sdisk s') (Some (spublisher s')) sent'"
    "stream_of (spublisher s') sent' = stream_of (spublisher s) sent @ map fraw (relayed (slast_seq s) evs)"
    "slast_seq s' = high_water (slast_seq s) (seqs_of (relayed (slast_seq s) evs))"
    by (auto simp: pump_ok_def)
  then show ?thesis using relayed_sorted relayed_messages by blast
qed

theorem relayed_once_witness:
  "\<exists>sent fs. stream_of (spublisher pump1) sent = map fraw fs \<and> sorted_wrt (<) (- 1 # seqs_of fs) \<and>
    high_water (- 1) (seqs_of fs) = 9"
proof -
  have "slast_seq pump1 = 9" by code_simp
  moreover have "stream_of (spublisher pump0) (\<lambda>_. []) = []" by (simp add: stream_of_def stream_to_def)
  ultimately show ?thesis using relayed_once [OF pump0_ok _ arrivals_run] arrivals_small
    by (simp add: pump0_low) metis
qed

text \<open>nothing is lost: if upstream sends messages with growing sequence numbers above the cursor,
  every one of them that arrives before the end is relayed.\<close>

theorem relayed_complete:
  assumes "pump_ok cfg pc limit s sent" "\<forall>f. Recv (Some f) \<in> snd ` set evs \<longrightarrow> length (fraw f) \<le> limit"
    and "pump_loop cbor pc evs s = (s', Running)"
    and "\<forall>ev \<in> snd ` set evs. ev \<noteq> Recv None \<and> ev \<noteq> ShutdownSignal"
    and "\<forall>f. Recv (Some f) \<in> snd ` set evs \<longrightarrow> fop f \<noteq> - 1"
    and "sorted_wrt (<) (slast_seq s # seqs_of (received evs))"
  shows "\<exists>sent'. relay_run cfg (sdisk s') (Some (spublisher s')) sent' \<and>
    stream_of (spublisher s') sent' = stream_of (spublisher s) sent @ map fraw (received evs)"
  using pump_loop_ok [OF assms(1) _ assms(3)] assms(2) relayed_all [OF assms(4-6)] by (auto simp: pump_ok_def)

definition good_arrivals :: "(clock \<times> pump_event) list" where
  "good_arrivals = [(tick, Recv (Some (msg 5 [1]))), (tick, GcTick), (tick, Recv (Some (msg 8 [2])))]"

theorem relayed_complete_witness:
  "\<exists>sent. stream_of (spublisher (fst (pump_loop (\<lambda>_. None) small_config good_arrivals pump0))) sent = [[1], [2]]"
proof -
  let ?r = "pump_loop (\<lambda>_. None) small_config good_arrivals pump0"
  have "snd ?r = Running" by code_simp
  then have r: "?r = (fst ?r, Running)" by (simp add: prod_eq_iff)
  have rec: "received good_arrivals = [msg 5 [1], msg 8 [2]]"
    by (simp add: received_def good_arrivals_def List.map_filter_simps)
  have small: "\<forall>f. Recv (Some f) \<in> snd ` set good_arrivals \<longrightarrow> length (fraw f) \<le> 8"
    and evs: "\<forall>ev \<in> snd ` set good_arrivals. ev \<noteq> Recv None \<and> ev \<noteq> ShutdownSignal"
    and ops: "\<forall>f. Recv (Some f) \<in> snd ` set good_arrivals \<longrightarrow> fop f \<noteq> - 1"
    by (auto simp: good_arrivals_def msg_def)
  have up: "sorted_wrt (<) (slast_seq pump0 # seqs_of (received good_arrivals))"
    by (simp add: rec pump0_low msg_def)
  have "stream_of (spublisher pump0) (\<lambda>_. []) = []" by (simp add: stream_of_def stream_to_def)
  with relayed_complete [OF pump0_ok small r evs ops up] rec show ?thesis by (auto simp: msg_def)
qed

section \<open>Over a restart\<close>

text \<open>A run that starts where the one before ended continues its numbers upwards.\<close>

lemma sorted_join:
  assumes "sorted_wrt (<) (low # xs)" "sorted_wrt (<) (high_water low xs # ys)"
  shows "sorted_wrt (<) (low # xs @ ys)"
proof -
  have below: "x \<le> high_water low xs" if "x \<in> set (low # xs)" for x
  proof (cases "xs = []")
    case True
    then show ?thesis using that by simp
  next
    case False
    then have "low # xs = (low # butlast xs) @ [last xs]" by simp
    then have "sorted_wrt (<) ((low # butlast xs) @ [last xs])" using assms(1) by metis
    then have "\<forall>y \<in> set (low # butlast xs). y < last xs" by (simp only: sorted_wrt_append) simp
    moreover have "x \<in> set (low # butlast xs) \<or> x = last xs"
      using that \<open>low # xs = (low # butlast xs) @ [last xs]\<close> by (metis in_set_conv_decomp set_ConsD rotate1.simps(2) set_rotate1)
    ultimately show ?thesis using False by (auto simp: high_water_def)
  qed
  have "x < y" if "x \<in> set (low # xs)" "y \<in> set ys" for x y
    using below [OF that(1)] assms(2) that(2) by fastforce
  then show ?thesis using assms by (auto simp: sorted_wrt_append)
qed

end
