(* ===== verification/Reload.thy ===== *)
theory Reload
  imports Resume
begin

text \<open>
  What a restart reloads into the live cache (\<open>reload_window\<close> in \<open>rust/crates/atmoq/src/main.rs\<close>): the
  stored groups whose time stamp lies in the window, one by one. The replay from disk stops at the lowest
  cached group, so it relies on the reloaded groups being the newest ones without a gap. The wall clock
  does not guarantee that: a clock that was set back while the relay ran leaves a hole.
\<close>

section \<open>What is reloaded\<close>

lemma evict_slots_live: "set (live_of (fst (evict_slots mx age now ss dups))) \<subseteq> set (live_of ss)"
  by (induction mx age now ss dups rule: evict_slots.induct) (auto simp: Let_def split: prod.splits if_splits)

lemma trim_slots_live: "live_of (fst (trim_slots ss offset)) = live_of ss"
  by (induction ss offset rule: trim_slots.induct) simp_all

lemma push_group_subset: "set (live (push_group h now mx tr)) \<subseteq> insert h (set (live tr))"
proof -
  have "set (live (evict_expired now t)) \<subseteq> set (live t)" for t :: "'a track"
    using evict_slots_live trim_slots_live
    by (simp add: evict_expired_def live_live_of Let_def split_beta)
  from this [of "tr\<lparr>tduplicates := insert (hseq h) (tduplicates tr), tmax := Some mx, tgroups := tgroups tr @ [Some (h, now)]\<rparr>"]
  show ?thesis unfolding push_group_def by (simp add: live_live_of)
qed

lemma create_group_live: "create_group h now tr = Inr tr' \<Longrightarrow> set (live tr') \<subseteq> insert h (set (live tr))"
  using create_group_push push_group_subset by metis

lemma reload_groups_live:
  assumes "reload_groups now seqs d st tr heap = Inr (tr', heap')"
  shows "hseq ` set (live tr') \<subseteq> hseq ` set (live tr) \<union> set seqs"
  using assms
proof (induction now seqs d st tr heap rule: reload_groups.induct)
  case (2 now seq seqs d st tr heap)
  from "2.prems" obtain r where r: "read d st seq = Inr r" by auto
  consider "r = None" "reload_groups now seqs d st tr heap = Inr (tr', heap')"
    | frames t g g' where "r = Some frames" "create_group \<lparr>href = length heap, hseq = seq\<rparr> (now seq) tr = Inr t"
        "write_frames frames group_new = Inr g" "group_finish g = Inr g'" "reload_groups now seqs d st t (heap @ [g']) = Inr (tr', heap')"
    using "2.prems" r by (cases r) auto
  then show ?case
  proof cases
    case 2
    then show ?thesis using "2.IH"(2) [OF 2(5)] create_group_live [OF 2(2)] by fastforce
  qed (use "2.IH"(1) r in auto)
qed auto

lemma build_live:
  assumes "build_lite_publisher now_ms rnow now tr cfg w m d = (d', Inr p)" "pstore p = Some st" "live tr = []"
    and "h \<in> set (live (ptrack p))"
  shows "h = pgroup p \<or> 0 < w \<and> hseq h \<in> set (groups_since st (cutoff now_ms w))"
proof -
  from assms(1,2) obtain d1 tr1 heap tr2 d2 tr3 seed where
    rw: "reload_window now_ms rnow w d1 st tr [] = Inr (tr1, heap)" and src: "set_group_source StoreSource tr1 = Inr tr2"
    and first: "make_first_group (length heap) now seed (default_seq_file cfg) d1 tr2 = (d2, Inr (pgroup p, tr3))"
    and p: "ptrack p = tr3"
    by (auto simp: build_lite_publisher_def Let_def split: prod.splits sum.splits)
  have "live tr2 = live tr1" using src by (auto simp: set_group_source_def track_modify_Inr live_live_of)
  moreover have "set (live tr3) \<subseteq> insert (pgroup p) (set (live tr2))"
  proof (cases seed)
    case None
    then have "append_group_at (length heap) now tr2 = Inr (pgroup p, tr3)"
      using first by (auto simp: make_first_group_def split: sum.splits)
    then obtain s where "tr3 = push_group (pgroup p) now s tr2"
      by (auto simp: append_group_at_def track_modify_Inr Let_def split: if_splits)
    then show ?thesis using push_group_subset by blast
  next
    case (Some prev)
    then have "create_group (pgroup p) now tr2 = Inr tr3"
      using first by (auto simp: make_first_group_def Let_def split: sum.splits)
    then show ?thesis by (rule create_group_live)
  qed
  moreover have "hseq ` set (live tr1) \<subseteq> (if 0 < w then set (groups_since st (cutoff now_ms w)) else {})"
    using rw reload_groups_live [of rnow _ d1 st tr "[]" tr1 heap] assms(3)
    by (auto simp: reload_window_def word_neq_0_conv split: if_splits)
  ultimately show ?thesis using assms(4) p by (auto split: if_splits)
qed

section \<open>A hole\<close>

lemma groups_since_iff:
  "om_ok (index st) \<Longrightarrow> q \<in> set (groups_since st limit) \<longleftrightarrow> (\<exists>loc. om_get (index st) q = Some loc \<and> limit \<le> lms loc)"
  using om_distinct [of "index st"] by (force simp: groups_since_def om_get_def)

lemma build_store:
  assumes "relay_run cfg d None sent" "load_group_seq d (default_seq_file cfg) \<noteq> Some (-1)"
    and "apply_replay_window secs track_new = Inr tr"
    and "build_lite_publisher now_ms rnow now tr cfg w m d = (d', Inr p)"
  shows "up cfg (d', p, sent)" and "\<exists>st. pstore p = Some st \<and> om_ok (index st)" and "live tr = []"
proof -
  show up: "up cfg (d', p, sent)" using relay_run.boot [OF assms] by (simp add: up_def)
  from relay_up [of cfg d' p sent] up obtain st rss where "pstore p = Some st" "rep d' st rss"
    by (auto simp: up_def pub_ok_def store_ok_def)
  then show "\<exists>st. pstore p = Some st \<and> om_ok (index st)" using rep_index(2) by blast
  show "live tr = []" using assms(3)
    by (auto simp: apply_replay_window_def set_max_group_age_def track_modify_Inr live_live_of track_new_def split: if_splits)
qed

lemma indexed_stored:
  assumes "up cfg (d, p, sent)" "pstore p = Some st" "om_get (index st) q \<noteq> None"
  shows "stored_group (d, st) q = Some (sent q) \<and> q < hseq (pgroup p)"
proof -
  from relay_up [of cfg d p sent] assms(1,2) obtain rss b where st: "store_ok d st rss b"
    by (auto simp: up_def pub_ok_def)
  then have "contents rss q \<noteq> None" using rep_index(1) [of d st rss q] assms(3) by (simp add: store_ok_def)
  then have "w_stored (d, p, sent) q = contents rss q" using stored_group_read [OF st] assms(2) by (simp add: w_stored_def w_simps)
  then show ?thesis using stored_facts [OF assms(1), of q] \<open>contents rss q \<noteq> None\<close> stored_group_read [OF st]
    by (auto simp: w_simps)
qed

text \<open>C38: a restart can hide a stored group: when the wall clock was set back while the relay ran, a group
  stamped before the window is not reloaded although an older one is, and a subscriber that resumes there
  is not sent it, from disk or live, though the store still has it.\<close>

theorem reload_leaves_hole:
  assumes "relay_run cfg d None sent" "load_group_seq d (default_seq_file cfg) \<noteq> Some (-1)"
    and "apply_replay_window secs track_new = Inr tr"
    and "build_lite_publisher now_ms rnow now tr cfg w m d = (d', Inr p)" "pstore p = Some st"
    and "om_get (index st) q = Some loc" "lms loc < cutoff now_ms w"
    and "h \<in> set (live (ptrack p))" "hseq h \<le> q"
    and "run_track (Some q) (\<lambda>_. ptrack p) (Some (source_oldest st, \<lambda>_. stored_group (d', st))) = (out, e, hs)"
  shows "stored_group (d', st) q = Some (sent q) \<and> e = Served \<and> out = [] \<and> q \<notin> hseq ` set hs"
proof -
  note b = build_store [OF assms(1-4)]
  have ok: "om_ok (index st)" using b(2) assms(5) by auto
  have st: "stored_group (d', st) q = Some (sent q)" "q < hseq (pgroup p)"
    using indexed_stored [OF b(1) assms(5)] assms(6) by simp_all
  have "q \<notin> set (groups_since st (cutoff now_ms w))"
    using groups_since_iff [OF ok] assms(6,7) by auto
  then have "q \<notin> hseq ` set (live (ptrack p))" using build_live [OF assms(4,5) b(3)] st(2) by auto
  moreover obtain f where f: "track_oldest (ptrack p) = Some f" "f \<le> hseq h" using track_oldest_le [OF assms(8)] by blast
  then have "f \<le> backfill_start q (source_oldest st)" using assms(9)
    by (auto simp: backfill_start_def max_def split: option.split)
  ultimately show ?thesis using assms(10) st(1) f
    by (auto simp: run_track_def start_consumer_def live_groups_from backfill.simps [of _ _ 0])
qed

text \<open>The third sample; the clock is then set back, another group is published, and the relay is started
  again with a window of two seconds.\<close>

definition set_back :: "disk \<times> publisher" where
  "set_back = fst (publish [3] 1 500 8 (fst relay3) (snd relay3))"

definition replay_2s :: "store_source track" where
  "replay_2s = track_new\<lparr>tage := Some 2000\<rparr>"

definition restarted :: "disk \<times> publisher" where
  "restarted = (case build_lite_publisher 3000 (\<lambda>_. 0) 0 replay_2s None 2 metrics_default (fst set_back) of
     (d, Inr p) \<Rightarrow> (d, p) | (d, Inl _) \<Rightarrow> (d, snd set_back))"

lemma restarted_facts:
  "(case restarted of (d, p) \<Rightarrow> (map hseq (live (ptrack p)),
      (case pstore p of None \<Rightarrow> None | Some st \<Rightarrow> map_option lms (om_get (index st) 1)))) = ([0, 3], Some 500)"
  by code_simp

theorem reload_leaves_hole_witness:
  "\<exists>hs. run_track (Some 1) (\<lambda>_. ptrack (snd restarted))
     (Some (source_oldest (the (pstore (snd restarted))), \<lambda>_. stored_group (fst restarted, the (pstore (snd restarted))))) =
     ([], Served, hs) \<and> 1 \<notin> hseq ` set hs \<and>
     stored_group (fst restarted, the (pstore (snd restarted))) 1 = Some [[3]]"
proof -
  let ?b = "build_lite_publisher 3000 (\<lambda>_. 0) 0 replay_2s None 2 metrics_default (fst set_back)"
  let ?sent = "sent3(1 := [[3]])" and ?st = "the (pstore (snd restarted))"
  have sb: "publish [3] 1 500 8 (fst relay3) (snd relay3) =
      ((fst set_back, snd set_back), snd (publish [3] 1 500 8 (fst relay3) (snd relay3)))" by (simp add: set_back_def)
  have run: "relay_run None (fst set_back) (Some (snd set_back)) ?sent"
    using relay_run.wrote [OF relay3_run _ sb] by (simp add: published_def relay5_seqs small_rec sent3_def)
  note k = relay_run.kill [OF run]
  have seq: "load_group_seq (fst set_back) (default_seq_file None) \<noteq> Some (-1)" by code_simp
  have win: "apply_replay_window 2 track_new = Inr replay_2s"
    by (simp add: apply_replay_window_def set_max_group_age_def track_modify_def track_new_def replay_2s_def)
  have seq': "load_group_seq (fst set_back) (Some (seq_name None)) \<noteq> Some (-1)" using seq by simp
  note down = relay_down [OF k]
  from build_ok [OF down [THEN conjunct2] down [THEN conjunct1] refl seq' win, of 3000 "\<lambda>_. 0" 0 2 metrics_default]
  obtain d p where "?b = (d, Inr p)" by metis
  then have b: "?b = (fst restarted, Inr (snd restarted))" by (simp add: restarted_def)
  obtain st loc where f: "pstore (snd restarted) = Some st" "om_get (index st) 1 = Some loc" "lms loc = 500"
    "map hseq (live (ptrack (snd restarted))) = [0, 3]"
    using restarted_facts by (auto simp: case_prod_beta split: option.splits)
  then obtain h hs where h: "live (ptrack (snd restarted)) = h # hs" "hseq h = 0" by auto
  obtain out e gs where r: "run_track (Some 1) (\<lambda>_. ptrack (snd restarted))
      (Some (source_oldest st, \<lambda>_. stored_group (fst restarted, st))) = (out, e, gs)" by (metis prod_cases3)
  have "lms loc < cutoff 3000 2" by (simp add: f(3) cutoff_def sat_sub_def)
  moreover have "h \<in> set (live (ptrack (snd restarted)))" "hseq h \<le> 1" by (simp_all add: h)
  ultimately show ?thesis using reload_leaves_hole [OF k seq win b f(1,2) _ _ _ r] by (simp add: f(1) r)
qed

end
