(* ===== verification/Crash.thy ===== *)
theory Crash
  imports Durability Pump_Properties
begin

text \<open>
  What a kill costs: the process may die between any two turns of the main loop, and then only the
  directory is left. Every group finished in the run is on disk, or was collected with all before it; the
  frames of the group in progress, fewer than a group holds, are not.
\<close>

section \<open>What is on disk\<close>






section \<open>Killed between two turns\<close>




end
