(* ===== verification/Cursor_File.thy ===== *)
theory Cursor_File
  imports Pump_Properties
begin

text \<open>
  The cursor file of a run: the publisher and its store never touch it, and a tick leaves the old cursor or
  the new one. So at every moment, a kill included, the cursor a next run would resume from lies between
  the one this run started with and the highest number it has relayed.
\<close>

section \<open>Files the publisher leaves alone\<close>

definition foreign_file :: "string option \<Rightarrow> string \<Rightarrow> bool" where
  "foreign_file cfg c \<longleftrightarrow> \<not> is_segment_file c \<and> c \<noteq> seq_name cfg \<and> c \<noteq> tmp_name (seq_name cfg)"

definition same_at :: "string \<Rightarrow> disk \<Rightarrow> disk \<Rightarrow> bool" where
  "same_at c d d' \<longleftrightarrow> granted d' = granted d \<and> map_of (files d') c = map_of (files d) c"

lemma same_at_refl [simp]: "same_at c d d"
  by (simp add: same_at_def)

lemma same_at_trans: "same_at c d d' \<Longrightarrow> same_at c d' d'' \<Longrightarrow> same_at c d d''"
  by (simp add: same_at_def)

lemma same_cursor: "same_at c d d' \<Longrightarrow> load_initial_cursor d' (Some c) flag = load_initial_cursor d (Some c) flag"
  by (simp add: same_at_def load_initial_cursor_def read_to_string_def)

lemma persist_group_seq_same:
  assumes "foreign_file cfg c"
  shows "same_at c d (persist_group_seq (Some (seq_name cfg)) s d)"
proof -
  obtain d' ok where w: "write_state_file (seq_name cfg) (dec (unat s) @ newline) d = (d', ok)" by fastforce
  show ?thesis using write_state_file_others [OF w, of c] assms
    by (simp add: persist_group_seq_def w same_at_def foreign_file_def)
qed

lemma same_at_room [simp]: "same_at c d (d'\<lparr>room := r\<rparr>) = same_at c d d'" "same_at c (d\<lparr>room := r\<rparr>) d' = same_at c d d'"
  by (simp_all add: same_at_def)

lemma rotate_same:
  assumes ok: "pub_ok (seq_name cfg) d p sent" and c: "foreign_file cfg c"
    and rot: "rotate now_ms now (d\<lparr>room := r\<rparr>) p = ((d', p'), res)"
  shows "same_at c d d'"
proof (cases "append_group_at (length (pheap p)) now (ptrack p)")
  case (Inl e)
  then show ?thesis using rot by (auto simp: rotate_def)
next
  case (Inr x)
  obtain h tr where x: "x = (h, tr)" by (cases x)
  from rotate_groups [OF ok Inr [unfolded x]] obtain heap where
    fin: "on_group (pgroup p) group_finish (pheap p @ [group_new]) = Inr heap" by blast
  from ok obtain st rss b where st: "pstore p = Some st" "store_ok d st rss b" "b \<le> unat (hseq (pgroup p))"
    by (auto simp: pub_ok_def)
  obtain d1 st1 res1 where ap: "append_group (hseq (pgroup p)) now_ms (pframes p) (d\<lparr>room := r\<rparr>) st = ((d1, st1), res1)"
    by (cases "append_group (hseq (pgroup p)) now_ms (pframes p) (d\<lparr>room := r\<rparr>) st") auto
  have "same_at c d d1" using append_leaves [OF st(2,3) ap] c by (simp add: same_at_def foreign_file_def)
  moreover have "d' = persist_group_seq (Some (seq_name cfg)) (hseq h) d1"
    using rot ok by (cases res1) (auto simp: pub_ok_def rotate_def Inr x fin store_finished_def st(1) ap Let_def)
  ultimately show ?thesis using same_at_trans persist_group_seq_same [OF c] by metis
qed

lemma publish_same:
  assumes ok: "pub_ok (seq_name cfg) d p sent" and rec: "\<And>s ms. rec_ok True (s, ms, pframes p @ [data])"
    and c: "foreign_file cfg c" and run: "publish data n now_ms now (d\<lparr>room := r\<rparr>) p = ((d', p'), res)"
  shows "same_at c d d'"
proof -
  from publish_cases [OF ok rec, of n now_ms now] obtain p1 where
    p1: "pub_ok (seq_name cfg) d p1 (published p data sent)"
    and eq: "publish data n now_ms now (d\<lparr>room := r\<rparr>) p =
      (if n \<le> pcount p + 1 then rotate now_ms now (d\<lparr>room := r\<rparr>) p1 else ((d\<lparr>room := r\<rparr>, p1), Inr ()))"
    by metis
  show ?thesis using run rotate_same [OF p1 c] unfolding eq by (auto split: if_splits)
qed

lemma publisher_gc_same:
  assumes "pub_ok (seq_name cfg) d p sent" "foreign_file cfg c" "publisher_gc now_ms w mb d p = (d', p')"
  shows "same_at c d d'"
proof -
  from assms(1) obtain st rss b where st: "pstore p = Some st" "store_ok d st rss b" by (auto simp: pub_ok_def)
  have "same_at c d d1" if "gc limit m d st = (d1, st1, n)" for limit m d1 st1 n
    using gc_leaves [OF st(2) that, of c] assms(2) by (auto simp: same_at_def foreign_file_def)
  then show ?thesis using assms(3)
    by (auto simp: publisher_gc_def st(1) Let_def split: prod.splits if_splits)
qed

lemma boot_same:
  assumes "on_disk d fs b" "foreign_file cfg c" "build_lite_publisher now_ms rnow now tr cfg w m d = (d', Inr p)"
  shows "same_at c d d'"
proof -
  from open_store_ok [OF assms(1)] obtain d2 st where op: "open_store d = (d2, Inr st)"
    "\<And>q. \<not> is_segment_file q \<Longrightarrow> map_of (files d2) q = map_of (files d) q" "granted d2 = granted d" by metis
  then have "same_at c d d2" using assms(2) by (simp add: same_at_def foreign_file_def)
  moreover have "d' = persist_group_seq (Some (seq_name cfg)) (hseq (pgroup p)) d2"
    using assms(3) by (auto simp: build_lite_publisher_def op(1) make_first_group_def Let_def
        split: sum.splits prod.splits option.splits)
  ultimately show ?thesis using same_at_trans persist_group_seq_same [OF assms(2)] by metis
qed

section \<open>The cursor on disk\<close>

text \<open>A turn that is cut off: its writes get as far as the room that is left.\<close>

definition with_room :: "nat option \<Rightarrow> pump_state \<Rightarrow> pump_state" where
  "with_room r s = s\<lparr>sdisk := (sdisk s)\<lparr>room := r\<rparr>\<rparr>"

lemma with_room_simps [simp]:
  "sdisk (with_room r s) = (sdisk s)\<lparr>room := r\<rparr>" "spublisher (with_room r s) = spublisher s"
  "slast_seq (with_room r s) = slast_seq s"
  by (simp_all add: with_room_def)

lemma with_room_None: "relay_run cfg (sdisk s) u sent \<Longrightarrow> with_room None s = s"
  using relay_run_room [of cfg "sdisk s" u sent] by (simp add: with_room_def room_None)

lemma load_cursor_room [simp]: "load_initial_cursor (d\<lparr>room := r\<rparr>) f flag = load_initial_cursor d f flag"
  by (cases f) (simp_all add: load_initial_cursor_def read_to_string_def)

lemma gc_loop_room:
  "gc_loop cutoff_ms mb tot (d\<lparr>room := r\<rparr>) segs idx =
    (case gc_loop cutoff_ms mb tot d segs idx of (d', segs', idx', n) \<Rightarrow> (d'\<lparr>room := r\<rparr>, segs', idx', n))"
proof (induction cutoff_ms mb tot d segs idx rule: gc_loop.induct)
  case (1 cutoff_ms mb tot d seg seg' segs idx)
  have comm: "d\<lparr>room := r, files := fs\<rparr> = d\<lparr>files := fs, room := r\<rparr>" for fs by simp
  show ?case
  proof (cases "gc_due cutoff_ms mb tot seg")
    case True
    then show ?thesis using 1 by (simp add: comm split: prod.splits)
  qed simp
qed simp_all

lemma publisher_gc_room:
  "publisher_gc now_ms w mb (d\<lparr>room := r\<rparr>) p =
    (case publisher_gc now_ms w mb d p of (d', p') \<Rightarrow> (d'\<lparr>room := r\<rparr>, p'))"
  by (auto simp: publisher_gc_def gc_def gc_loop_room Let_def split: option.split prod.split)

lemma recv_turn:
  assumes "pump_step cbor pc clk (Recv (Some f)) s = (s', st)"
  shows "relayed (slast_seq s) [(clk, Recv (Some f))] = [] \<and> sdisk s' = sdisk s \<or>
    relayed (slast_seq s) [(clk, Recv (Some f))] = [f] \<and>
    (\<exists>p res. publish (fraw f) (cgroup_size pc) (wall_ms clk) (instant clk) (sdisk s) (spublisher s) = ((sdisk s', p), res))"
  using assms
  by (auto simp: pump_step_def pump_frame_def relay_frame_def update_metrics_def Let_def
      split: if_splits option.splits sum.splits prod.splits)

text \<open>What is in the file after a turn, cut off or not.\<close>

lemma pump_step_cursor:
  assumes ok: "pump_ok cfg pc limit s sent" and c: "ccursor_file pc = Some c" "foreign_file cfg c" "slast_seq s < 2 ^ 63"
    and small: "\<And>f. ev = Recv (Some f) \<Longrightarrow> length (fraw f) \<le> limit"
    and step: "pump_step cbor pc clk ev (with_room r s) = (s', st)"
  shows "load_initial_cursor (sdisk s') (Some c) flag \<in> {load_initial_cursor (sdisk s) (Some c) flag, slast_seq s}"
proof -
  note o = ok [unfolded pump_ok_def]
  have pub: "pub_ok (seq_name cfg) (sdisk s) (spublisher s) sent" using relay_up o by blast
  consider f where "ev = Recv (Some f)" | "ev = CursorTick" | "ev = GcTick" | "ev = Recv None \<or> ev = ShutdownSignal"
    by (metis pump_event.exhaust option.exhaust)
  then show ?thesis
  proof cases
    case 1
    then have len: "length (fraw f) \<le> limit" using small by simp
    have "rec_ok True (q, ms, pframes (spublisher s) @ [fraw f])" for q ms by (rule fits_rec) (use o len in auto)
    note same = publish_same [OF pub this c(2)]
    have "same_at c (sdisk s) (sdisk s')"
      using recv_turn [OF step [unfolded 1]] same by auto
    then show ?thesis using same_cursor by simp
  next
    case 2
    then have "sdisk s' = persist_cursor (Some c) (slast_seq s) ((sdisk s)\<lparr>room := r\<rparr>)"
      using step c(1) by (auto simp: pump_step_def)
    moreover have "tmp_name c \<noteq> c" using o c(1) by (simp add: good_cursor_def good_file_def)
    ultimately show ?thesis using cursor_persisted [OF _ c(3), of c "(sdisk s)\<lparr>room := r\<rparr>" flag] by simp
  next
    case 3
    obtain d p where g: "publisher_gc (wall_ms clk) (window_secs (cretention pc)) (max_bytes (cretention pc))
        (sdisk s) (spublisher s) = (d, p)" by fastforce
    then have "sdisk s' = d\<lparr>room := r\<rparr>" using 3 step by (auto simp: pump_step_def publisher_gc_room)
    then show ?thesis using publisher_gc_same [OF pub c(2) g] same_cursor by simp
  next
    case 4
    then show ?thesis using step by (auto simp: pump_step_def)
  qed
qed

text \<open>Of a run that started at \<open>low\<close>: the pump's invariant, the stream, and a cursor on disk between \<open>low\<close> and
  the highest number relayed.\<close>

definition resumable :: "string option \<Rightarrow> pump_config \<Rightarrow> nat \<Rightarrow> bytes list \<Rightarrow> int option \<Rightarrow> int \<Rightarrow> pump_state \<Rightarrow> frame list \<Rightarrow> bool" where
  "resumable cfg pc limit old flag low s h \<longleftrightarrow>
     (\<exists>sent. pump_ok cfg pc limit s sent \<and> stream_of (spublisher s) sent = old @ map fraw h) \<and>
     (\<exists>c. ccursor_file pc = Some c \<and> foreign_file cfg c) \<and> slast_seq s < 2 ^ 63 \<and>
     low \<le> load_initial_cursor (sdisk s) (ccursor_file pc) flag \<and>
     load_initial_cursor (sdisk s) (ccursor_file pc) flag \<le> slast_seq s"

lemma high_water_up:
  assumes "\<And>f. f \<in> set fs \<Longrightarrow> numbers_fit f" "sorted_wrt (<) (low # seqs_of fs)" "low < 2 ^ 63"
  shows "low \<le> high_water low (seqs_of fs) \<and> high_water low (seqs_of fs) < 2 ^ 63"
proof (cases "seqs_of fs = []")
  case False
  then have last: "last (seqs_of fs) \<in> set (seqs_of fs)" by simp
  then have "low < last (seqs_of fs)" using assms(2) by simp
  moreover have "q < 2 ^ 63" if "q \<in> set (seqs_of fs)" for q
    using that assms(1) by (force simp: seqs_of_def List.map_filter_def numbers_fit_def)
  ultimately show ?thesis using last False by (simp add: high_water_def)
qed (use assms in simp)

interpretation resuming: frame_pump "pump_step cbor pc" Running Stopping "resumable cfg pc maxlen old flag low" "\<lambda>_ _. True"
    slast_seq "\<lambda>f. length (fraw f) \<le> maxlen \<and> numbers_fit f" for cbor pc cfg maxlen old flag low
proof (unfold_locales, goal_cases)
  case (1 s h ev clk s' st)
  then obtain sent c where s: "pump_ok cfg pc maxlen s sent" "stream_of (spublisher s) sent = old @ map fraw h"
    "ccursor_file pc = Some c" "foreign_file cfg c" "slast_seq s < 2 ^ 63"
    "low \<le> load_initial_cursor (sdisk s) (Some c) flag" "load_initial_cursor (sdisk s) (Some c) flag \<le> slast_seq s"
    by (auto simp: resumable_def)
  let ?fs = "relayed (slast_seq s) [(clk, ev)]"
  have small: "\<And>f. ev = Recv (Some f) \<Longrightarrow> length (fraw f) \<le> maxlen" using 1(2) by blast
  have "with_room None s = s" using s(1) unfolding pump_ok_def by (blast intro: with_room_None)
  then have "load_initial_cursor (sdisk s') (Some c) flag \<in> {load_initial_cursor (sdisk s) (Some c) flag, slast_seq s}"
    using pump_step_cursor [OF s(1,3,4,5) small, where r = None] 1(3) by metis
  then have cur: "low \<le> load_initial_cursor (sdisk s') (Some c) flag"
    "load_initial_cursor (sdisk s') (Some c) flag \<le> slast_seq s" using s(6,7) by auto
  have "numbers_fit f" if "f \<in> set ?fs" for f using relayed_messages [OF that] 1(2) by auto
  then have up: "slast_seq s \<le> high_water (slast_seq s) (seqs_of ?fs)" "high_water (slast_seq s) (seqs_of ?fs) < 2 ^ 63"
    using high_water_up [OF _ relayed_sorted s(5)] by blast+
  from pump_step_ok [OF s(1) small 1(3)] obtain sent' where
    "(\<forall>e. st \<noteq> Aborted e) \<and> pump_ok cfg pc maxlen s' sent' \<and>
        stream_of (spublisher s') sent' = stream_of (spublisher s) sent @ map fraw ?fs \<and>
        slast_seq s' = high_water (slast_seq s) (seqs_of ?fs) \<and>
        (st = Running \<or> ev = Recv None \<or> ev = ShutdownSignal) \<or>
      (\<exists>e. st = Aborted e)"
    unfolding pump_next_def by blast
  then show ?case using s(2,3,4) cur up
    by (cases st) (auto simp: resumable_def simp del: relayed.simps intro: exI [of _ sent'])
qed (use pump_step_status in blast)+

lemma cursor_in_range:
  assumes "pump_ok cfg pc limit s sent" "pump_loop cbor pc evs s = (s', st)" "st = Running \<or> st = Stopping"
    and "\<And>f. Recv (Some f) \<in> snd ` set evs \<Longrightarrow> length (fraw f) \<le> limit \<and> numbers_fit f"
    and "ccursor_file pc = Some c" "foreign_file cfg c" "slast_seq s < 2 ^ 63"
    and "slast_seq s = load_initial_cursor (sdisk s) (Some c) flag"
  shows "slast_seq s \<le> load_initial_cursor (sdisk s') (Some c) flag \<and> load_initial_cursor (sdisk s') (Some c) flag \<le> slast_seq s'"
proof -
  have "resumable cfg pc limit (stream_of (spublisher s) sent) flag (slast_seq s) s []"
    using assms(1,5-8) unfolding resumable_def by auto
  from resuming.run [OF this assms(4) assms(2) [unfolded pump_loop_event_loop]] assms(3)
  show ?thesis by (auto simp: resumable_def assms(5))
qed

text \<open>C10: in a run whose finished turns had all their writes taken, whenever the process dies, between two turns or at any byte of what a turn writes, the cursor the
  next run starts from lies between the one this run started with and the highest number relayed before
  that turn: no number is skipped that was not relayed.\<close>

theorem cursor_never_ahead:
  assumes "pump_ok cfg pc limit s sent" "pump_loop cbor pc evs s = (s', st)" "st = Running \<or> st = Stopping"
    and "\<forall>f. Recv (Some f) \<in> snd ` set evs \<longrightarrow> length (fraw f) \<le> limit \<and> numbers_fit f"
    and "ccursor_file pc = Some c" "foreign_file cfg c" "slast_seq s < 2 ^ 63"
    and "slast_seq s = load_initial_cursor (sdisk s) (Some c) flag"
    and "high = high_water (slast_seq s) (seqs_of (relayed (slast_seq s) evs))"
  shows "load_initial_cursor (sdisk s') (Some c) flag \<in> {slast_seq s..high} \<and>
    (\<forall>clk ev r. (\<forall>f. ev = Recv (Some f) \<longrightarrow> length (fraw f) \<le> limit) \<longrightarrow>
      load_initial_cursor (sdisk (fst (pump_step cbor pc clk ev (with_room r s')))) (Some c) flag \<in> {slast_seq s..high})"
proof -
  from pump_loop_ok [OF assms(1) _ assms(2)] assms(3,4) obtain sent' where ok: "pump_ok cfg pc limit s' sent'"
    and high: "slast_seq s' = high" unfolding assms(9) by auto
  have range: "slast_seq s \<le> load_initial_cursor (sdisk s') (Some c) flag" "load_initial_cursor (sdisk s') (Some c) flag \<le> high"
    using cursor_in_range [OF assms(1-3) _ assms(5-8)] assms(4) high by auto
  have "high < 2 ^ 63" unfolding assms(9) using high_water_up [OF _ relayed_sorted assms(7)] relayed_messages assms(4) by metis
  then have fits: "slast_seq s' < 2 ^ 63" using high by simp
  have "load_initial_cursor (sdisk (fst (pump_step cbor pc clk ev (with_room r s')))) (Some c) flag \<in> {slast_seq s..high}"
    if "\<forall>f. ev = Recv (Some f) \<longrightarrow> length (fraw f) \<le> limit" for clk ev r
  proof -
    have "load_initial_cursor (sdisk (fst (pump_step cbor pc clk ev (with_room r s')))) (Some c) flag \<in>
        {load_initial_cursor (sdisk s') (Some c) flag, slast_seq s'}"
      by (rule pump_step_cursor [OF ok assms(5,6) fits _ surjective_pairing]) (use that in blast)
    then show ?thesis using range high by auto
  qed
  then show ?thesis using range by auto
qed

theorem cursor_never_ahead_witness:
  "load_initial_cursor (sdisk (fst (pump_step (\<lambda>_. None) small_config tick CursorTick (with_room (Some 1) pump1)))) (Some ''cursor'') None \<in> {-1..9}"
proof -
  have f: "foreign_file None ''cursor''" "slast_seq pump0 = load_initial_cursor (sdisk pump0) (Some ''cursor'') None" by code_simp+
  have small: "\<forall>f. Recv (Some f) \<in> snd ` set arrivals \<longrightarrow> length (fraw f) \<le> 8 \<and> numbers_fit f"
    by (auto simp: arrivals_def msg_def numbers_fit_def)
  have nine: "9 = high_water (slast_seq pump0) (seqs_of (relayed (slast_seq pump0) arrivals))"
    by (simp add: pump0_low arrivals_relayed msg_def high_water_def)
  have "ccursor_file small_config = Some ''cursor''" "slast_seq pump0 < 2 ^ 63" by (simp_all add: small_config_def pump0_low)
  note c = cursor_never_ahead [OF pump0_ok arrivals_run _ small this(1) f(1) this(2) f(2) nine]
  have "\<forall>f. CursorTick = Recv (Some f) \<longrightarrow> length (fraw f) \<le> 8" by simp
  with c show ?thesis unfolding pump0_low by blast
qed

end
