(* ===== verification/Json.thy ===== *)
theory Json
  imports Frame Ordered_Map Metrics "HOL-Library.List_Lexorder" "HOL-Library.Char_ord"
begin

text \<open>
  Decoded frames as JSON (\<open>rust/crates/atmoq/src/json.rs\<close>). \<open>serde_json\<close> objects are sorted maps, a
  later entry under a key replacing an earlier one. Two library functions are parameters: the
  \<open>Debug\<close> text of a value, used for keys that are not text, and \<open>BASE32_NOPAD\<close>.
\<close>

section \<open>Values\<close>

datatype json =
    JNull
  | JBool bool
  | JInt int
  | JFloat u64
  | JString string
  | JArray "json list"
  | JObject "(string, json) omap"

text \<open>\<open>collect()\<close> into an object.\<close>

definition collect :: "(string \<times> json) list \<Rightarrow> (string, json) omap" where
  "collect es = fold (\<lambda>(k, v) m. om_insert k v m) es []"

text \<open>\<open>Number::from_f64\<close> refuses infinities and NaNs, whose exponent bits are all set.\<close>

definition finite_f64 :: "u64 \<Rightarrow> bool" where
  "finite_f64 f \<longleftrightarrow> drop_bit 52 f AND 0x7FF \<noteq> 0x7FF"

definition fits_i64 :: "int \<Rightarrow> bool" where
  "fits_i64 i \<longleftrightarrow> - (2 ^ 63) \<le> i \<and> i < 2 ^ 63"

section \<open>CID strings\<close>

definition to_lower :: "char \<Rightarrow> char" where
  "to_lower c = (let n = of_char c :: nat in if 65 \<le> n \<and> n \<le> 90 then char_of (n + 32) else c)"

definition strip_zero :: "bytes \<Rightarrow> bytes" where
  "strip_zero bs = (case bs of b # r \<Rightarrow> if b = 0 then r else bs | [] \<Rightarrow> [])"

definition cid_string :: "(bytes \<Rightarrow> string) \<Rightarrow> bytes \<Rightarrow> string" where
  "cid_string base32 bs = CHR ''b'' # map to_lower (base32 (strip_zero bs))"

section \<open>Rendering\<close>

fun cbor_to_json :: "(cbor_value \<Rightarrow> string) \<Rightarrow> (bytes \<Rightarrow> string) \<Rightarrow> cbor_value \<Rightarrow> json" where
  "cbor_to_json debug base32 Null = JNull"
| "cbor_to_json debug base32 (Bool b) = JBool b"
| "cbor_to_json debug base32 (Integer i) = (if fits_i64 i then JInt i else JString (dec_int i))"
| "cbor_to_json debug base32 (Float f) = (if finite_f64 f then JFloat f else JNull)"
| "cbor_to_json debug base32 (Text s) = JString s"
| "cbor_to_json debug base32 (Bytes b) = JObject [(''$bytesLength'', JInt (int (length b)))]"
| "cbor_to_json debug base32 (Array items) = JArray (map (cbor_to_json debug base32) items)"
| "cbor_to_json debug base32 (Map entries) =
     JObject (collect (map (\<lambda>(k, v).
       (case as_text k of Some s \<Rightarrow> s | None \<Rightarrow> debug k, cbor_to_json debug base32 v)) entries))"
| "cbor_to_json debug base32 (Tag t inner) =
     (if t = 42 then
        (case inner of
           Bytes b \<Rightarrow> JString (cid_string base32 b)
         | other \<Rightarrow> cbor_to_json debug base32 other)
      else cbor_to_json debug base32 inner)"

section \<open>Objects\<close>

lemma om_get_fold:
  "om_get (fold (\<lambda>(k, v) m. om_insert k v m) es m) k =
    (case map_of (rev es) k of None \<Rightarrow> om_get m k | Some v \<Rightarrow> Some v)"
  by (induction es arbitrary: m) (auto simp: map_add_def split: option.splits)

lemma om_ok_fold: "om_ok m \<Longrightarrow> om_ok (fold (\<lambda>(k, v) m. om_insert k v m) es m)"
  by (induction es arbitrary: m) auto

lemma set_fold: "set (fold (\<lambda>(k, v) m. om_insert k v m) es m) \<subseteq> set m \<union> set es"
proof (induction es arbitrary: m)
  case (Cons e es)
  have "set (om_insert k v m) \<subseteq> insert (k, v) (set m)" for k :: "'a::linorder" and v :: 'b and m
    by (induction m) auto
  then show ?case using Cons by (cases e) fastforce
qed simp

lemma collect_facts:
  "om_ok (collect es)" "om_get (collect es) k = map_of (rev es) k" "set (collect es) \<subseteq> set es"
  using set_fold [of es "[]"] by (simp_all add: collect_def om_get_fold om_ok_fold split: option.split)

text \<open>What the printer can rely on: keys strictly ascending, so unique, and only numbers of \<open>i64\<close> or finite ones.\<close>

fun json_ok :: "json \<Rightarrow> bool" where
  "json_ok (JInt i) = (- (2 ^ 63) \<le> i \<and> i < 2 ^ 63)"
| "json_ok (JFloat f) = finite_f64 f"
| "json_ok (JArray js) = (\<forall>j \<in> set js. json_ok j)"
| "json_ok (JObject m) = (om_ok m \<and> (\<forall>e \<in> set m. json_ok (snd e)))"
| "json_ok _ = True"

text \<open>Byte strings of a length the language allows, at most \<open>isize::MAX\<close>.\<close>

fun bytes_fit :: "cbor_value \<Rightarrow> bool" where
  "bytes_fit (Bytes b) \<longleftrightarrow> int (length b) < 2 ^ 63"
| "bytes_fit (Array items) \<longleftrightarrow> (\<forall>v \<in> set items. bytes_fit v)"
| "bytes_fit (Map entries) \<longleftrightarrow> (\<forall>e \<in> set entries. bytes_fit (snd e))"
| "bytes_fit (Tag t inner) \<longleftrightarrow> bytes_fit inner"
| "bytes_fit _ \<longleftrightarrow> True"

text \<open>C29: whatever value a frame carries, its rendering is JSON: every object in it has unique, sorted keys,
  every number in it fits \<open>i64\<close>, larger integers being shown as text, or is a finite float. The byte strings of
  the value are of a length that memory can hold, as the length is shown as a number.\<close>

theorem cbor_to_json_ok:
  assumes "bytes_fit v"
  shows "json_ok (cbor_to_json debug base32 v)"
  using assms
proof (induction debug base32 v rule: cbor_to_json.induct)
  case (8 debug base32 entries)
  then show ?case
    using collect_facts(3) by (fastforce simp: collect_facts(1))
next
  case (9 debug base32 t inner)
  then show ?case by (cases inner) auto
qed (auto simp: fits_i64_def om_ok_def)

theorem cbor_to_json_ok_witness:
  "json_ok (cbor_to_json (\<lambda>_. []) (\<lambda>_. []) (Map [(Text ''n'', Integer (2 ^ 63)), (Text ''b'', Bytes [1, 2])]))"
  by (rule cbor_to_json_ok) simp

text \<open>a printed event shows the fields of the decoded one: for a map with distinct text keys, as
  the validator demands, the object holds under each key the rendering of that field, and nothing else.\<close>

theorem json_fields:
  assumes "\<forall>e \<in> set es. as_text (fst e) \<noteq> None" "distinct (map fst es)"
  shows "\<exists>m. cbor_to_json debug base32 (Map es) = JObject m \<and>
    om_get m k = map_option (cbor_to_json debug base32) (field (Map es) k)"
proof -
  let ?f = "\<lambda>(k, v). (case as_text k of Some s \<Rightarrow> s | None \<Rightarrow> debug k, cbor_to_json debug base32 v)"
  have inj: "k1 = k2" if "as_text k1 = Some s" "as_text k2 = Some s" for k1 k2 :: cbor_value and s
    using that by (cases k1; cases k2) auto
  have "map_of (rev (map ?f es)) k = map_option (cbor_to_json debug base32) (field (Map es) k)"
    using assms
  proof (induction es)
    case (Cons e es)
    obtain kv v where e: "e = (kv, v)" by (cases e)
    obtain s where s: "as_text kv = Some s" using Cons.prems(1) by (auto simp: e)
    have IH: "map_of (rev (map ?f es)) k = map_option (cbor_to_json debug base32) (field (Map es) k)"
      using Cons by simp
    show ?case
    proof (cases "s = k")
      case True
      have "find (\<lambda>kv. as_text (fst kv) = Some k) es = None"
        using inj [OF s] Cons.prems(2) True by (force simp: find_None_iff e)
      then show ?thesis using IH True s by (simp add: field_def e map_add_def)
    next
      case False
      then show ?thesis using IH s by (simp add: field_def e map_add_def split: option.split)
    qed
  qed (simp add: field_def)
  then show ?thesis by (simp add: collect_facts(2))
qed

theorem json_fields_witness:
  "\<exists>m. cbor_to_json (\<lambda>_. []) (\<lambda>_. []) (Map [(Text ''seq'', Integer 7), (Text ''rev'', Text ''r'')]) = JObject m \<and>
    om_get m ''seq'' = Some (JInt 7)"
  using json_fields [of "[(Text ''seq'', Integer 7), (Text ''rev'', Text ''r'')]" "\<lambda>_. []" "\<lambda>_. []" "''seq''"]
  by (simp add: field_def fits_i64_def)

text \<open>What the source relies on of \<open>BASE32_NOPAD\<close>: distinct inputs have distinct texts, over upper-case
  letters and the digits 2 to 7.\<close>

definition base32_char :: "char \<Rightarrow> bool" where
  "base32_char c \<longleftrightarrow> (let n = of_char c :: nat in 65 \<le> n \<and> n \<le> 90 \<or> 50 \<le> n \<and> n \<le> 55)"

definition base32_like :: "(bytes \<Rightarrow> string) \<Rightarrow> bool" where
  "base32_like base32 \<longleftrightarrow> inj base32 \<and> (\<forall>bs. \<forall>c \<in> set (base32 bs). base32_char c)"

lemma to_lower_code:
  "base32_char c \<Longrightarrow> of_char (to_lower c) = (if 65 \<le> (of_char c :: nat) then of_char c + 32 else of_char c :: nat)"
  by (auto simp: to_lower_def base32_char_def Let_def)

lemma to_lower_inj: "inj_on to_lower {c. base32_char c}"
proof (rule inj_onI, unfold mem_Collect_eq)
  fix a b
  assume ab: "base32_char a" "base32_char b" "to_lower a = to_lower b"
  have "of_char (to_lower a) = (of_char (to_lower b) :: nat)" using ab(3) by simp
  then have "of_char a = (of_char b :: nat)"
    unfolding to_lower_code [OF ab(1)] to_lower_code [OF ab(2)] using ab(1,2)
    by (auto simp: base32_char_def Let_def split: if_splits)
  then show "a = b" by simp
qed

text \<open>CID links are told apart by their text: two links render the same exactly when they agree
  without the identity prefix, whether or not the prefix is there.\<close>

theorem cid_string_identifies:
  assumes "base32_like base32"
  shows "cid_string base32 a = cid_string base32 b \<longleftrightarrow> strip_zero a = strip_zero b"
proof
  assume "cid_string base32 a = cid_string base32 b"
  then have "map to_lower (base32 (strip_zero a)) = map to_lower (base32 (strip_zero b))"
    by (simp add: cid_string_def)
  moreover have "inj_on to_lower (set (base32 (strip_zero a)) \<union> set (base32 (strip_zero b)))"
    using assms by (intro inj_on_subset [OF to_lower_inj]) (auto simp: base32_like_def)
  ultimately have "base32 (strip_zero a) = base32 (strip_zero b)" by (simp add: inj_on_map_eq_map)
  then show "strip_zero a = strip_zero b" using assms by (simp add: base32_like_def inj_eq)
qed (simp add: cid_string_def)

text \<open>A text with one letter for each half of a byte.\<close>

definition nibbles :: "bytes \<Rightarrow> string" where
  "nibbles bs = concat (map (\<lambda>b. [char_of (65 + unat b div 16), char_of (65 + unat b mod 16)]) bs)"

lemma nibble_codes:
  "of_char (char_of (65 + unat (b :: u8) div 16) :: char) = 65 + unat b div 16"
  "of_char (char_of (65 + unat b mod 16) :: char) = 65 + unat b mod 16"
  using unat_u8_less [of b] by simp_all

lemma nibbles_inj: "nibbles a = nibbles b \<Longrightarrow> a = b"
proof (induction a arbitrary: b)
  case Nil
  then show ?case by (cases b) (simp_all add: nibbles_def)
next
  case (Cons x a)
  then obtain y b' where b: "b = y # b'" by (cases b) (auto simp: nibbles_def)
  have eq: "char_of (65 + unat x div 16) = (char_of (65 + unat y div 16) :: char)"
    "char_of (65 + unat x mod 16) = (char_of (65 + unat y mod 16) :: char)" "nibbles a = nibbles b'"
    using Cons.prems by (simp_all only: nibbles_def b list.map concat.simps append.simps list.inject)
  from eq(1,2) have "65 + unat x div 16 = 65 + unat y div 16" "65 + unat x mod 16 = 65 + unat y mod 16"
    by (metis nibble_codes(1), metis nibble_codes(2))
  then have "unat x = unat y" by (metis add_left_cancel div_mult_mod_eq)
  then show ?case using Cons.IH [OF eq(3)] by (simp add: b word_unat_eq_iff)
qed

lemma nibbles_like: "base32_like nibbles"
proof -
  have "base32_char c" if "c \<in> set (nibbles bs)" for c bs
  proof -
    from that obtain b :: u8 where "c = char_of (65 + unat b div 16) \<or> c = char_of (65 + unat b mod 16)"
      by (auto simp: nibbles_def)
    moreover have "unat b div 16 < 16" "unat b mod 16 < 16" using unat_u8_less [of b] by simp_all
    ultimately show ?thesis
      unfolding base32_char_def Let_def using nibble_codes [of b] by auto
  qed
  then show ?thesis by (auto simp: base32_like_def inj_def dest: nibbles_inj)
qed

theorem cid_string_identifies_witness:
  "cid_string nibbles [0, 1, 0x71] = cid_string nibbles [1, 0x71] \<and> cid_string nibbles [1] \<noteq> cid_string nibbles [2]"
  using cid_string_identifies [OF nibbles_like] by (simp add: strip_zero_def)

end
