(* ===== verification/Consumer.thy ===== *)
theory Consumer
  imports Json Car
begin

text \<open>
  The consumer side of the command line (\<open>firehose\<close> in \<open>rust/crates/atmoq/src/main.rs\<close>): which readers
  are started, the track reader that resubscribes over publisher restarts, and the printers of
  events and of record operations. What a subscription delivers is input, as far as it is read;
  \<open>accepts n\<close> tells whether the channel still takes an item after \<open>n\<close> have been sent. Printed lines
  are JSON values.
\<close>

section \<open>What is consumed\<close>

record firehose_args =
  relay_host :: "string option"
  fmoq_host :: string
  fbroadcast :: string
  ftrack :: string
  fcursor :: "int option"
  raw_output :: bool
  quiet :: bool
  limit :: nat
  idle_ms :: u64
  ops_output :: bool
  wanted_dids :: "string list"
  ietf07 :: bool

datatype firehose_error = TooManyDids nat | DidsNeedLite

datatype reader =
    MoqReader string string
  | Subscribe07 string string
  | Upstream string "int option"

definition firehose_readers :: "firehose_args \<Rightarrow> firehose_error + reader list" where
  "firehose_readers args =
     (if 500 < length (wanted_dids args) then Inl (TooManyDids (length (wanted_dids args)))
      else if wanted_dids args \<noteq> [] \<and> (relay_host args \<noteq> None \<or> ietf07 args) then Inl DidsNeedLite
      else
        Inr (case relay_host args of
               None \<Rightarrow>
                 if ietf07 args then [Subscribe07 (fbroadcast args) (ftrack args)]
                 else if wanted_dids args = [] then [MoqReader (fbroadcast args) (ftrack args)]
                 else map (MoqReader (fbroadcast args)) (wanted_dids args)
             | Some upstream \<Rightarrow> [Upstream upstream (fcursor args)]))"

section \<open>Reading a track\<close>

definition i64_min :: int where
  "i64_min = - (2 ^ 63)"

definition frame_seq :: "cbor_reader \<Rightarrow> bytes \<Rightarrow> int option" where
  "frame_seq cbor raw =
     (case decode cbor raw of
        Inl _ \<Rightarrow> None
      | Inr (_, payload) \<Rightarrow> map_option as_i64 (Option.bind (field payload ''seq'') as_integer))"

record reader_state =
  rlast :: int
  rsent :: "(u64 \<times> bytes) list"

definition reader_start :: reader_state where
  "reader_start = \<lparr>rlast = i64_min, rsent = []\<rparr>"

definition send_item :: "(nat \<Rightarrow> bool) \<Rightarrow> u64 \<Rightarrow> bytes \<Rightarrow> reader_state \<Rightarrow> reader_state \<times> bool" where
  "send_item accepts sequence data st =
     (if accepts (length (rsent st)) then (st\<lparr>rsent := rsent st @ [(sequence, data)]\<rparr>, True) else (st, False))"

definition reader_frame :: "cbor_reader \<Rightarrow> (nat \<Rightarrow> bool) \<Rightarrow> u64 \<Rightarrow> bytes \<Rightarrow> reader_state \<Rightarrow> reader_state \<times> bool" where
  "reader_frame cbor accepts sequence data st =
     (case frame_seq cbor data of
        None \<Rightarrow> send_item accepts sequence data st
      | Some s \<Rightarrow> if s \<le> rlast st then (st, True) else send_item accepts sequence data (st\<lparr>rlast := s\<rparr>))"

fun reader_group :: "cbor_reader \<Rightarrow> (nat \<Rightarrow> bool) \<Rightarrow> u64 \<Rightarrow> bytes list \<Rightarrow> reader_state \<Rightarrow> reader_state \<times> bool" where
  "reader_group cbor accepts sequence [] st = (st, True)"
| "reader_group cbor accepts sequence (data # frames) st =
     (case reader_frame cbor accepts sequence data st of
        (st, False) \<Rightarrow> (st, False)
      | (st, True) \<Rightarrow> reader_group cbor accepts sequence frames st)"

fun reader_groups :: "cbor_reader \<Rightarrow> (nat \<Rightarrow> bool) \<Rightarrow> (u64 \<times> bytes list) list \<Rightarrow> reader_state \<Rightarrow> reader_state \<times> bool" where
  "reader_groups cbor accepts [] st = (st, True)"
| "reader_groups cbor accepts ((sequence, frames) # groups) st =
     (case reader_group cbor accepts sequence frames st of
        (st, False) \<Rightarrow> (st, False)
      | (st, True) \<Rightarrow> reader_groups cbor accepts groups st)"

text \<open>One turn of the outer loop: the origin is closed, the subscription fails, or groups are read, each
  until it ends or fails, until the track ends or fails.\<close>

datatype subscription = OriginClosed | SubscribeFailed | Subscribed "(u64 \<times> bytes list) list"

fun moq_reader :: "cbor_reader \<Rightarrow> (nat \<Rightarrow> bool) \<Rightarrow> subscription list \<Rightarrow> reader_state \<Rightarrow> reader_state" where
  "moq_reader cbor accepts [] st = st"
| "moq_reader cbor accepts (OriginClosed # subs) st = st"
| "moq_reader cbor accepts (SubscribeFailed # subs) st = moq_reader cbor accepts subs st"
| "moq_reader cbor accepts (Subscribed groups # subs) st =
     (case reader_groups cbor accepts groups st of
        (st, False) \<Rightarrow> st
      | (st, True) \<Rightarrow> moq_reader cbor accepts subs st)"

section \<open>Printing record operations\<close>

datatype ops_error = MissingBlocks | BlocksFailed car_error | MissingOps

definition opt_text :: "string option \<Rightarrow> json" where
  "opt_text s = (case s of None \<Rightarrow> JNull | Some s \<Rightarrow> JString s)"

definition opt_int :: "int option \<Rightarrow> json" where
  "opt_int i = (case i of None \<Rightarrow> JNull | Some i \<Rightarrow> JInt i)"

definition op_cid :: "cbor_value \<Rightarrow> bytes option" where
  "op_cid op =
     map_option strip_zero
       (Option.bind (field op ''cid'') (\<lambda>v. case v of
          Tag t inner \<Rightarrow> if t = 42 then as_bytes inner else None
        | _ \<Rightarrow> None))"

definition op_record :: "cbor_reader \<Rightarrow> block_map \<Rightarrow> cbor_value \<Rightarrow> cbor_value option" where
  "op_record cbor blks op =
     (case Option.bind (op_cid op) blks of
        None \<Rightarrow> None
      | Some data \<Rightarrow> (case validate_exact data of Inl _ \<Rightarrow> None | Inr _ \<Rightarrow> cbor data))"

definition op_line :: "cbor_reader \<Rightarrow> (cbor_value \<Rightarrow> string) \<Rightarrow> (bytes \<Rightarrow> string) \<Rightarrow> block_map \<Rightarrow> cbor_value \<Rightarrow>
    cbor_value \<Rightarrow> json" where
  "op_line cbor debug base32 blks payload op =
     JObject (collect
       [(''action'', opt_text (Option.bind (field op ''action'') as_text)),
        (''path'', opt_text (Option.bind (field op ''path'') as_text)),
        (''cid'', opt_text (map_option (cid_string base32) (op_cid op))),
        (''record'', case op_record cbor blks op of None \<Rightarrow> JNull | Some v \<Rightarrow> cbor_to_json debug base32 v),
        (''seq'', opt_int (map_option as_i64 (Option.bind (field payload ''seq'') as_integer))),
        (''repo'', opt_text (Option.bind (field payload ''repo'') as_text)),
        (''rev'', opt_text (Option.bind (field payload ''rev'') as_text)),
        (''time'', opt_text (Option.bind (field payload ''time'') as_text))])"

definition print_ops :: "cbor_reader \<Rightarrow> (cbor_value \<Rightarrow> string) \<Rightarrow> (bytes \<Rightarrow> string) \<Rightarrow> cbor_value \<Rightarrow> bool \<Rightarrow>
    ops_error + json list \<times> nat" where
  "print_ops cbor debug base32 payload silent =
     (case Option.bind (field payload ''blocks'') as_bytes of
        None \<Rightarrow> Inl MissingBlocks
      | Some car \<Rightarrow>
          (case blocks car of
             Inl e \<Rightarrow> Inl (BlocksFailed e)
           | Inr blks \<Rightarrow>
               (case Option.bind (field payload ''ops'') as_array of
                  None \<Rightarrow> Inl MissingOps
                | Some ops \<Rightarrow>
                    Inr (if silent then [] else map (op_line cbor debug base32 blks payload) ops, length ops))))"

section \<open>Printing events\<close>

definition event_line :: "(cbor_value \<Rightarrow> string) \<Rightarrow> (bytes \<Rightarrow> string) \<Rightarrow> (bytes \<Rightarrow> string) \<Rightarrow> bool \<Rightarrow> u64 option \<Rightarrow>
    bytes \<Rightarrow> cbor_value \<Rightarrow> cbor_value \<Rightarrow> frame \<Rightarrow> json" where
  "event_line debug base32 base64 raw_out grp raw header payload f =
     (let line = collect [(''t'', opt_text (ft f)), (''seq'', opt_int (fseq f))];
          line = (case grp of None \<Rightarrow> line | Some g \<Rightarrow> om_insert ''group'' (JInt (uint g)) line) in
      JObject
        (if raw_out then om_insert ''raw'' (JString (base64 raw)) line
         else om_insert ''payload'' (cbor_to_json debug base32 payload)
           (om_insert ''header'' (cbor_to_json debug base32 header) line)))"

record printer =
  ecount :: nat
  elast :: int
  elines :: "json list"

definition print_start :: printer where
  "print_start = \<lparr>ecount = 0, elast = i64_min, elines = []\<rparr>"

text \<open>An item of the channel, its end, or \<open>idle_ms\<close> milliseconds without either.\<close>

datatype arrival = Arrived "u64 option" bytes | ChannelClosed | IdlePassed

definition print_frame :: "cbor_reader \<Rightarrow> (cbor_value \<Rightarrow> string) \<Rightarrow> (bytes \<Rightarrow> string) \<Rightarrow> (bytes \<Rightarrow> string) \<Rightarrow> firehose_args \<Rightarrow>
    u64 option \<Rightarrow> bytes \<Rightarrow> cbor_value \<Rightarrow> cbor_value \<Rightarrow> frame \<Rightarrow> printer \<Rightarrow> printer" where
  "print_frame cbor debug base32 base64 args grp raw header payload f st =
     (if ops_output args then
        if ft f = Some ''#commit'' then
          (case print_ops cbor debug base32 payload (quiet args) of
             Inl _ \<Rightarrow> st
           | Inr (lines, n) \<Rightarrow> st\<lparr>elines := elines st @ lines, ecount := ecount st + n\<rparr>)
        else st
      else
        st\<lparr>elines := elines st @
             (if quiet args then []
              else [event_line debug base32 base64 (raw_output args) grp raw header payload f]),
           ecount := ecount st + 1\<rparr>)"

text \<open>A single ordered stream is deduplicated here; per-account readers drop their own replays.\<close>

definition replayed :: "firehose_args \<Rightarrow> frame \<Rightarrow> printer \<Rightarrow> bool" where
  "replayed args f st \<longleftrightarrow>
     wanted_dids args = [] \<and> (case fseq f of None \<Rightarrow> False | Some s \<Rightarrow> s \<le> elast st)"

definition note_seq :: "firehose_args \<Rightarrow> frame \<Rightarrow> printer \<Rightarrow> printer" where
  "note_seq args f st =
     (if wanted_dids args = [] then (case fseq f of None \<Rightarrow> st | Some s \<Rightarrow> st\<lparr>elast := s\<rparr>) else st)"

definition print_step :: "cbor_reader \<Rightarrow> (cbor_value \<Rightarrow> string) \<Rightarrow> (bytes \<Rightarrow> string) \<Rightarrow> (bytes \<Rightarrow> string) \<Rightarrow> firehose_args \<Rightarrow>
    arrival \<Rightarrow> printer \<Rightarrow> printer \<times> bool" where
  "print_step cbor debug base32 base64 args a st =
     (case a of
        ChannelClosed \<Rightarrow> (st, False)
      | IdlePassed \<Rightarrow> (st, idle_ms args = 0)
      | Arrived grp raw \<Rightarrow>
          (case decode cbor raw of
             Inl _ \<Rightarrow> (st, True)
           | Inr (header, payload) \<Rightarrow>
               (case parse cbor raw of
                  Inl _ \<Rightarrow> (st, True)
                | Inr f \<Rightarrow>
                    if replayed args f st then (st, True)
                    else
                      let st = print_frame cbor debug base32 base64 args grp raw header payload f (note_seq args f st) in
                      (st, \<not> (0 < limit args \<and> limit args \<le> ecount st)))))"

fun print_events :: "cbor_reader \<Rightarrow> (cbor_value \<Rightarrow> string) \<Rightarrow> (bytes \<Rightarrow> string) \<Rightarrow> (bytes \<Rightarrow> string) \<Rightarrow> firehose_args \<Rightarrow>
    arrival list \<Rightarrow> printer \<Rightarrow> printer \<times> bool" where
  "print_events cbor debug base32 base64 args [] st = (st, True)"
| "print_events cbor debug base32 base64 args (a # as) st =
     (case print_step cbor debug base32 base64 args a st of
        (st, False) \<Rightarrow> (st, False)
      | (st, True) \<Rightarrow> print_events cbor debug base32 base64 args as st)"

end
