(* ===== verification/Consumer_Properties.thy ===== *)
theory Consumer_Properties
  imports Consumer
begin

text \<open>
  What the consumer promises: over reconnects and replays each numbered frame is delivered once and
  in order, nothing in between is lost, and the printers respect their limits.
\<close>

section \<open>The track reader\<close>

text \<open>The reader's effect with an open channel: the frames above the highest number seen, each once.\<close>

fun fresh :: "cbor_reader \<Rightarrow> int \<Rightarrow> bytes list \<Rightarrow> bytes list" where
  "fresh cbor low [] = []"
| "fresh cbor low (f # fs) =
     (case frame_seq cbor f of
        None \<Rightarrow> f # fresh cbor low fs
      | Some s \<Rightarrow> if s \<le> low then fresh cbor low fs else f # fresh cbor s fs)"

fun top :: "cbor_reader \<Rightarrow> int \<Rightarrow> bytes list \<Rightarrow> int" where
  "top cbor low [] = low"
| "top cbor low (f # fs) = top cbor (case frame_seq cbor f of None \<Rightarrow> low | Some s \<Rightarrow> max low s) fs"

lemma fresh_append: "fresh cbor low (xs @ ys) = fresh cbor low xs @ fresh cbor (top cbor low xs) ys"
  by (induction cbor low xs rule: fresh.induct) (auto split: option.split simp: max_def)

lemma top_append [simp]: "top cbor low (xs @ ys) = top cbor (top cbor low xs) ys"
  by (induction xs arbitrary: low) auto

text \<open>Taking in the frames \<open>fs\<close>.\<close>

definition took :: "cbor_reader \<Rightarrow> bytes list \<Rightarrow> reader_state \<Rightarrow> reader_state \<Rightarrow> bool" where
  "took cbor fs st st' \<longleftrightarrow>
     map snd (rsent st') = map snd (rsent st) @ fresh cbor (rlast st) fs \<and> rlast st' = top cbor (rlast st) fs"

lemma took_trans: "took cbor xs st st' \<Longrightarrow> took cbor ys st' st'' \<Longrightarrow> took cbor (xs @ ys) st st''"
  by (simp add: took_def fresh_append)

lemma took_Nil [simp]: "took cbor [] st st"
  by (simp add: took_def)

lemma reader_frame_took: "\<exists>st'. reader_frame cbor (\<lambda>_. True) q data st = (st', True) \<and> took cbor [data] st st'"
  by (auto simp: reader_frame_def send_item_def took_def max_def split: option.split)

lemma reader_group_took: "\<exists>st'. reader_group cbor (\<lambda>_. True) q fs st = (st', True) \<and> took cbor fs st st'"
proof (induction fs arbitrary: st)
  case (Cons f fs)
  obtain st1 where 1: "reader_frame cbor (\<lambda>_. True) q f st = (st1, True)" "took cbor [f] st st1"
    using reader_frame_took by blast
  from Cons.IH [of st1] obtain st2 where 2: "reader_group cbor (\<lambda>_. True) q fs st1 = (st2, True)" "took cbor fs st1 st2"
    by blast
  show ?case using 1 2 took_trans [OF 1(2) 2(2)] by simp
qed simp

lemma reader_groups_took:
  "\<exists>st'. reader_groups cbor (\<lambda>_. True) gs st = (st', True) \<and> took cbor (concat (map snd gs)) st st'"
proof (induction gs arbitrary: st)
  case (Cons g gs)
  obtain q fs where g: "g = (q, fs)" by (cases g)
  obtain st1 where 1: "reader_group cbor (\<lambda>_. True) q fs st = (st1, True)" "took cbor fs st st1"
    using reader_group_took by blast
  from Cons.IH [of st1] obtain st2 where
    2: "reader_groups cbor (\<lambda>_. True) gs st1 = (st2, True)" "took cbor (concat (map snd gs)) st1 st2" by blast
  show ?case using 1 2 took_trans [OF 1(2) 2(2)] by (simp add: g)
qed simp

fun frames_of :: "subscription \<Rightarrow> bytes list" where
  "frames_of (Subscribed gs) = concat (map snd gs)"
| "frames_of _ = []"

lemma moq_reader_took:
  "OriginClosed \<notin> set subs \<Longrightarrow> took cbor (concat (map frames_of subs)) st (moq_reader cbor (\<lambda>_. True) subs st)"
proof (induction subs arbitrary: st)
  case (Cons s subs)
  show ?case
  proof (cases s)
    case (Subscribed gs)
    obtain st1 where 1: "reader_groups cbor (\<lambda>_. True) gs st = (st1, True)" "took cbor (concat (map snd gs)) st st1"
      using reader_groups_took by blast
    show ?thesis using 1 took_trans [OF 1(2) Cons.IH [of st1]] Cons.prems by (simp add: Subscribed)
  qed (use Cons in simp_all)
qed simp

section \<open>Never twice\<close>

definition seqs_sent :: "cbor_reader \<Rightarrow> reader_state \<Rightarrow> int list" where
  "seqs_sent cbor st = List.map_filter (frame_seq cbor) (map snd (rsent st))"

definition reader_ok :: "cbor_reader \<Rightarrow> reader_state \<Rightarrow> bool" where
  "reader_ok cbor st \<longleftrightarrow> sorted_wrt (<) (seqs_sent cbor st) \<and> (\<forall>s \<in> set (seqs_sent cbor st). s \<le> rlast st)"

lemma reader_frame_ok: "reader_ok cbor st \<Longrightarrow> reader_ok cbor (fst (reader_frame cbor accepts q data st))"
  by (fastforce simp: reader_ok_def seqs_sent_def reader_frame_def send_item_def List.map_filter_def sorted_wrt_append
      split: option.splits)

lemma reader_group_ok: "reader_ok cbor st \<Longrightarrow> reader_ok cbor (fst (reader_group cbor accepts q fs st))"
proof (induction cbor accepts q fs st rule: reader_group.induct)
  case (2 cbor accepts q data fs st)
  obtain st1 b where 1: "reader_frame cbor accepts q data st = (st1, b)" by (cases "reader_frame cbor accepts q data st")
  then show ?case using 2 reader_frame_ok [of cbor st accepts q data] by (cases b) simp_all
qed simp

lemma reader_groups_ok: "reader_ok cbor st \<Longrightarrow> reader_ok cbor (fst (reader_groups cbor accepts gs st))"
proof (induction cbor accepts gs st rule: reader_groups.induct)
  case (2 cbor accepts q fs gs st)
  obtain st1 b where 1: "reader_group cbor accepts q fs st = (st1, b)" by (cases "reader_group cbor accepts q fs st")
  then show ?case using 2 reader_group_ok [of cbor st accepts q fs] by (cases b) simp_all
qed simp

text \<open>nothing is ever delivered twice or out of order: whatever the subscriptions replay, however
  they end, and whenever the receiver goes away, the numbers of the frames sent strictly increase.\<close>

theorem reader_never_repeats: "sorted_wrt (<) (seqs_sent cbor (moq_reader cbor accepts subs reader_start))"
proof -
  have "reader_ok cbor st \<Longrightarrow> reader_ok cbor (moq_reader cbor accepts subs st)" for st
  proof (induction cbor accepts subs st rule: moq_reader.induct)
    case (4 cbor accepts gs subs st)
    obtain st1 b where 1: "reader_groups cbor accepts gs st = (st1, b)" by (cases "reader_groups cbor accepts gs st")
    then show ?case using 4 reader_groups_ok [of cbor st accepts gs] by (cases b) simp_all
  qed simp_all
  then have "reader_ok cbor (moq_reader cbor accepts subs reader_start)"
    by (simp add: reader_ok_def seqs_sent_def reader_start_def List.map_filter_def)
  then show ?thesis by (simp add: reader_ok_def)
qed

section \<open>Exactly once\<close>

text \<open>A stream all of whose frames are numbered, upwards.\<close>

definition numbered :: "cbor_reader \<Rightarrow> bytes list \<Rightarrow> bool" where
  "numbered cbor xs \<longleftrightarrow> (\<forall>x \<in> set xs. \<exists>s. frame_seq cbor x = Some s \<and> i64_min < s) \<and>
     sorted_wrt (\<lambda>x y. the (frame_seq cbor x) < the (frame_seq cbor y)) xs"

text \<open>Each subscription reads a part of the stream that starts no later than where the parts before
  it have got to.\<close>

fun overlap :: "nat \<Rightarrow> (nat \<times> nat) list \<Rightarrow> bool" where
  "overlap hi [] = True"
| "overlap hi ((a, b) # r) = (a \<le> hi \<and> overlap (max hi b) r)"

fun reached :: "nat \<Rightarrow> (nat \<times> nat) list \<Rightarrow> nat" where
  "reached hi [] = hi"
| "reached hi ((a, b) # r) = reached (max hi b) r"

definition mark :: "cbor_reader \<Rightarrow> bytes list \<Rightarrow> nat \<Rightarrow> int" where
  "mark cbor xs k = (if k = 0 then i64_min else the (frame_seq cbor (xs ! (k - 1))))"

lemma numbered_nth:
  assumes "numbered cbor xs" "i < length xs"
  shows "frame_seq cbor (xs ! i) = Some (mark cbor xs (Suc i))" and "j \<le> i \<Longrightarrow> mark cbor xs j < mark cbor xs (Suc i)"
proof -
  have seq: "\<exists>s. frame_seq cbor x = Some s \<and> i64_min < s" if "x \<in> set xs" for x
    using assms(1) that by (auto simp: numbered_def)
  show *: "frame_seq cbor (xs ! i) = Some (mark cbor xs (Suc i))"
    using seq [OF nth_mem [OF assms(2)]] by (auto simp: mark_def)
  show "mark cbor xs j < mark cbor xs (Suc i)" if "j \<le> i"
  proof (cases j)
    case 0
    then show ?thesis using seq [OF nth_mem [OF assms(2)]] by (auto simp: mark_def)
  next
    case (Suc j')
    have "sorted_wrt (\<lambda>x y. the (frame_seq cbor x) < the (frame_seq cbor y)) xs"
      using assms(1) by (simp add: numbered_def)
    then show ?thesis using Suc that assms(2) by (simp add: mark_def sorted_wrt_iff_nth_less)
  qed
qed

lemma mark_mono: "numbered cbor xs \<Longrightarrow> k \<le> length xs \<Longrightarrow> j \<le> k \<Longrightarrow> mark cbor xs j \<le> mark cbor xs k"
  using numbered_nth(2) [of cbor xs "k - 1" j] by (cases k; cases "j = k") (auto intro: less_imp_le)

lemma fresh_slice:
  assumes "numbered cbor xs" "b \<le> length xs" "a \<le> hi" "hi \<le> length xs"
  shows "fresh cbor (mark cbor xs hi) (slice xs a b) = slice xs hi b \<and>
    top cbor (mark cbor xs hi) (slice xs a b) = mark cbor xs (max hi b)"
  using assms
proof (induction "b - a" arbitrary: a hi)
  case 0
  then have "b \<le> a" by simp
  then show ?case using 0 by (cases "hi = b") (simp_all add: slice_def max_def)
next
  case (Suc n)
  then have a: "a < b" "a < length xs" by simp_all
  then have s: "slice xs a b = xs ! a # slice xs (Suc a) b"
    by (simp add: slice_def Cons_nth_drop_Suc [symmetric] take_Cons' )
  note q = numbered_nth [OF Suc.prems(1) a(2)]
  show ?case
  proof (cases "a < hi")
    case True
    have "mark cbor xs (Suc a) \<le> mark cbor xs hi" using mark_mono [OF Suc.prems(1,4)] True by simp
    then show ?thesis using Suc.hyps(1) [of "Suc a" hi] Suc.hyps(2) Suc.prems True by (simp add: s q(1) max_def)
  next
    case False
    then have hi: "hi = a" using Suc.prems(3) by simp
    have "mark cbor xs a < mark cbor xs (Suc a)" by (rule q(2)) simp
    then show ?thesis using Suc.hyps(1) [of "Suc a" "Suc a"] Suc.hyps(2) Suc.prems a
      by (simp add: s q(1) hi max_def)
  qed
qed

lemma fresh_slices:
  assumes "numbered cbor xs" "overlap hi pts" "hi \<le> length xs" "\<forall>(a, b) \<in> set pts. b \<le> length xs"
  shows "fresh cbor (mark cbor xs hi) (concat (map (\<lambda>(a, b). slice xs a b) pts)) = slice xs hi (reached hi pts) \<and>
    hi \<le> reached hi pts \<and> reached hi pts \<le> length xs"
  using assms
proof (induction hi pts rule: overlap.induct)
  case (2 hi a b r)
  have f: "fresh cbor (mark cbor xs hi) (slice xs a b) = slice xs hi b"
    "top cbor (mark cbor xs hi) (slice xs a b) = mark cbor xs (max hi b)"
    using fresh_slice [OF "2.prems"(1), of b a hi] "2.prems" by simp_all
  have IH: "fresh cbor (mark cbor xs (max hi b)) (concat (map (\<lambda>(a, b). slice xs a b) r)) =
      slice xs (max hi b) (reached (max hi b) r)" "max hi b \<le> reached (max hi b) r" "reached (max hi b) r \<le> length xs"
    using "2.IH" "2.prems" by simp_all
  have "slice xs hi b @ slice xs (max hi b) k = slice xs hi k" if "max hi b \<le> k" for k
  proof (cases "hi \<le> b")
    case True
    then have "slice xs hi k = take (b - hi + (k - b)) (drop hi xs)" using that by (simp add: slice_def)
    also have "\<dots> = slice xs hi b @ slice xs b k" unfolding take_add using True by (simp add: slice_def)
    finally show ?thesis using True by (simp add: max_def)
  qed (simp add: slice_def max_def)
  then show ?case using IH by (simp add: fresh_append f)
qed (simp add: slice_def)

lemma moq_reader_slices:
  assumes "numbered cbor xs" "OriginClosed \<notin> set subs" "overlap 0 parts"
    and "map frames_of subs = map (\<lambda>(a, b). slice xs a b) parts" "\<forall>(a, b) \<in> set parts. b \<le> length xs"
  shows "map snd (rsent (moq_reader cbor (\<lambda>_. True) subs reader_start)) = take (reached 0 parts) xs"
proof -
  have "mark cbor xs 0 = rlast reader_start" by (simp add: mark_def reader_start_def)
  then show ?thesis
    using moq_reader_took [OF assms(2), of cbor reader_start] fresh_slices [OF assms(1,3) _ assms(5)]
    by (simp add: took_def assms(4) reader_start_def slice_def)
qed

text \<open>C15: exactly once over reconnects: if the track is a stream of frames with increasing numbers and
  every subscription reads a part of it that leaves no gap to what was read before, replaying as
  much as it likes, the reader sends each frame up to the furthest point reached once, in order.\<close>

theorem reader_exactly_once:
  assumes "numbered cbor xs" "OriginClosed \<notin> set subs" "overlap 0 parts"
    and "map frames_of subs = map (\<lambda>(a, b). slice xs a b) parts" "\<forall>(a, b) \<in> set parts. b \<le> length xs"
  shows "map snd (rsent (moq_reader cbor (\<lambda>_. True) subs reader_start)) = take (reached 0 parts) xs"
  by (rule moq_reader_slices [OF assms])

text \<open>A reader of frames \<open>A0 n\<close> whose payload is the number \<open>n\<close>, taken for the sequence.\<close>

definition seq_cbor :: cbor_reader where
  "seq_cbor bs =
     Some (Map [(Text ''op'', Integer 1), (Text ''t'', Text ''#info''), (Text ''seq'', Integer (uint (hd bs)))])"

lemma seq_cbor_seq: "frame_seq seq_cbor [0xA0, 5] = Some 5" "frame_seq seq_cbor [0xA0, 6] = Some 6"
  "frame_seq seq_cbor [0xA0, 7] = Some 7"
proof -
  let ?m = "\<lambda>n. Map [(Text ''op'', Integer 1), (Text ''t'', Text ''#info''), (Text ''seq'', Integer n)]"
  have "decode seq_cbor [0xA0, 5] = Inr (?m 160, ?m 5)" "decode seq_cbor [0xA0, 6] = Inr (?m 160, ?m 6)"
    "decode seq_cbor [0xA0, 7] = Inr (?m 160, ?m 7)" by code_simp+
  then show "frame_seq seq_cbor [0xA0, 5] = Some 5" "frame_seq seq_cbor [0xA0, 6] = Some 6"
    "frame_seq seq_cbor [0xA0, 7] = Some 7" by (simp_all add: frame_seq_def field_def)
qed

definition three :: "bytes list" where
  "three = [[0xA0, 5], [0xA0, 6], [0xA0, 7]]"

lemma three_numbered: "numbered seq_cbor three"
  by (simp add: numbered_def three_def seq_cbor_seq i64_min_def)

theorem reader_exactly_once_witness:
  "map snd (rsent (moq_reader seq_cbor (\<lambda>_. True)
     [Subscribed [(1, [[0xA0, 5], [0xA0, 6]])], SubscribeFailed, Subscribed [(1, [[0xA0, 5], [0xA0, 6]]), (2, [[0xA0, 7]])]]
     reader_start)) = three"
  using reader_exactly_once [OF three_numbered, of
      "[Subscribed [(1, [[0xA0, 5], [0xA0, 6]])], SubscribeFailed, Subscribed [(1, [[0xA0, 5], [0xA0, 6]]), (2, [[0xA0, 7]])]]"
      "[(0, 2), (0, 0), (0, 3)]"]
  by (simp add: three_def slice_def)

section \<open>Printing\<close>

lemma note_seq_same [simp]: "ecount (note_seq args f st) = ecount st" "elines (note_seq args f st) = elines st"
  by (simp_all add: note_seq_def split: option.split)

lemma print_step_count:
  assumes "print_step cbor debug base32 base64 args a st = (st', b)" "\<not> ops_output args" "0 < limit args"
    and "ecount st < limit args" "length (elines st) = (if quiet args then 0 else ecount st)"
  shows "ecount st' \<le> limit args \<and> (b \<longrightarrow> ecount st' < limit args) \<and>
    length (elines st') = (if quiet args then 0 else ecount st')"
  using assms
  by (auto simp: print_step_def print_frame_def Let_def split: arrival.splits sum.splits if_splits)

text \<open>the limit on events is exact: never more than \<open>limit\<close> events are counted, one line is
  printed for each of them unless \<open>quiet\<close>, and as soon as the limit is reached printing ends.\<close>

theorem print_events_limit:
  assumes "print_events cbor debug base32 base64 args as print_start = (st, b)" "\<not> ops_output args" "0 < limit args"
  shows "ecount st \<le> limit args \<and> (b \<longrightarrow> ecount st < limit args) \<and>
    length (elines st) = (if quiet args then 0 else ecount st)"
proof -
  have "ecount st \<le> limit args \<and> (b \<longrightarrow> ecount st < limit args) \<and> length (elines st) = (if quiet args then 0 else ecount st)"
    if "print_events cbor debug base32 base64 args as st0 = (st, b)" "ecount st0 < limit args"
      "length (elines st0) = (if quiet args then 0 else ecount st0)" for st0
    using that
  proof (induction as arbitrary: st0)
    case (Cons a as)
    obtain st1 b1 where 1: "print_step cbor debug base32 base64 args a st0 = (st1, b1)"
      by (cases "print_step cbor debug base32 base64 args a st0")
    note c = print_step_count [OF 1 assms(2,3) Cons.prems(2,3)]
    show ?case
    proof (cases b1)
      case True
      then show ?thesis using c Cons.IH [of st1] Cons.prems(1) 1 by simp
    next
      case False
      then show ?thesis using c Cons.prems(1) 1 by simp
    qed
  qed simp
  from this [OF assms(1)] show ?thesis using assms(3) by (simp add: print_start_def)
qed

text \<open>C27: an operation only ever shows a record that is in the commit's blocks under the operation's
  own CID and that is valid DRISL; everything else shows as null.\<close>

theorem op_record_valid:
  assumes "print_ops cbor debug base32 payload False = Inr (lines, n)" "i < n"
  shows "\<exists>car blks ops m. Option.bind (field payload ''blocks'') as_bytes = Some car \<and> blocks car = Inr blks \<and>
    Option.bind (field payload ''ops'') as_array = Some ops \<and> length ops = n \<and> lines ! i = JObject m \<and>
    (om_get m ''record'' = Some JNull \<or>
      (\<exists>cid data v. op_cid (ops ! i) = Some cid \<and> blks cid = Some data \<and> validate_exact data = Inr () \<and>
        cbor data = Some v \<and> om_get m ''record'' = Some (cbor_to_json debug base32 v)))"
proof -
  from assms(1) obtain car blks ops where c: "Option.bind (field payload ''blocks'') as_bytes = Some car"
    "blocks car = Inr blks" "Option.bind (field payload ''ops'') as_array = Some ops" "n = length ops"
    "lines = map (op_line cbor debug base32 blks payload) ops"
    by (auto simp: print_ops_def split: option.splits sum.splits)
  have "\<exists>m. lines ! i = JObject m \<and> om_get m ''record'' =
      Some (case op_record cbor blks (ops ! i) of None \<Rightarrow> JNull | Some v \<Rightarrow> cbor_to_json debug base32 v)"
    using assms(2) by (simp add: c(4,5) op_line_def collect_facts(2))
  moreover have "\<exists>cid data. op_cid (ops ! i) = Some cid \<and> blks cid = Some data \<and> validate_exact data = Inr () \<and> cbor data = Some v"
    if "op_record cbor blks (ops ! i) = Some v" for v
    using that by (auto simp: op_record_def bind_eq_Some_conv split: option.splits sum.splits)
  ultimately show ?thesis using c by (cases "op_record cbor blks (ops ! i)") fastforce+
qed

definition plain_args :: firehose_args where
  "plain_args = \<lparr>relay_host = None, fmoq_host = ''https://m'', fbroadcast = ''b'', ftrack = ''t'', fcursor = None, raw_output = True,
     quiet = False, limit = 2, idle_ms = 0, ops_output = False, wanted_dids = [], ietf07 = False\<rparr>"

definition three_arrivals :: "arrival list" where
  "three_arrivals = map (Arrived (Some 1)) three"

theorem print_events_limit_witness:
  "case print_events seq_cbor (\<lambda>_. []) nibbles nibbles plain_args three_arrivals print_start of
     (st, _) \<Rightarrow> ecount st \<le> 2 \<and> length (elines st) = ecount st"
proof -
  obtain st b where r: "print_events seq_cbor (\<lambda>_. []) nibbles nibbles plain_args three_arrivals print_start = (st, b)"
    by (metis surj_pair)
  from print_events_limit [OF r] have "ecount st \<le> 2 \<and> length (elines st) = ecount st" by (simp add: plain_args_def)
  then show ?thesis unfolding r by simp
qed

text \<open>A commit without blocks of its own: an empty archive and one operation.\<close>

definition bare_commit :: cbor_value where
  "bare_commit = Map [(Text ''blocks'', Bytes [0]), (Text ''ops'', Array [Map [(Text ''action'', Text ''delete'')]])]"

theorem op_record_valid_witness:
  "case print_ops (\<lambda>_. None) (\<lambda>_. []) nibbles bare_commit False of
     Inr ([JObject m], n) \<Rightarrow> om_get m ''record'' = Some JNull | _ \<Rightarrow> False"
proof -
  let ?r = "print_ops (\<lambda>_. None) (\<lambda>_. []) nibbles bare_commit False"
  have "case ?r of Inr ([_], n) \<Rightarrow> n = 1 | _ \<Rightarrow> False" by code_simp
  then obtain j where r: "?r = Inr ([j], 1)" by (auto split: sum.splits prod.splits list.splits)
  from op_record_valid [OF r, of 0] obtain m where "j = JObject m" "om_get m ''record'' = Some JNull" by auto
  then show ?thesis unfolding r by simp
qed

end
