(* ===== verification/End_To_End.thy ===== *)
theory End_To_End
  imports Pump_Properties Consumer_Properties
begin

text \<open>
  Upstream to consumer: the frames the pump publishes, read back by the track reader of the
  consumer through any number of subscriptions and shown by its printer.
\<close>

lemma parse_frame_seq: "parse cbor raw = Inr f \<Longrightarrow> fraw f = raw \<and> fseq f = frame_seq cbor raw"
  by (auto simp: parse_def frame_seq_def Let_def split: option.splits if_splits)

lemma frame_seq_range: "frame_seq cbor raw = Some s \<Longrightarrow> i64_min \<le> s"
  using as_i64_range by (auto simp: frame_seq_def i64_min_def split: sum.splits)

text \<open>Upstream also sends messages without a number. They pass the filter, and no reader can tell a replay
  of one from a new one.\<close>

definition has_number :: "cbor_reader \<Rightarrow> bytes \<Rightarrow> bool" where
  "has_number cbor raw \<longleftrightarrow> frame_seq cbor raw \<noteq> None"

lemma relayed_numbered:
  assumes "sorted_wrt (<) (low # seqs_of fs)" "i64_min \<le> low" "\<And>f. f \<in> set fs \<Longrightarrow> parse cbor (fraw f) = Inr f"
  shows "numbered cbor (filter (has_number cbor) (map fraw fs))"
  using assms
proof (induction fs arbitrary: low)
  case (Cons f fs)
  have f: "frame_seq cbor (fraw f) = fseq f" using parse_frame_seq [of cbor "fraw f" f] Cons.prems(3) [of f] by simp
  show ?case
  proof (cases "fseq f")
    case None
    then show ?thesis using Cons f by (auto simp: has_number_def)
  next
    case (Some q)
    have sorted: "sorted_wrt (<) (q # seqs_of fs)" "low < q" using Cons.prems(1) Some by auto
    then have IH: "numbered cbor (filter (has_number cbor) (map fraw fs))" using Cons.IH [of q] Cons.prems by auto
    have "q < the (frame_seq cbor (fraw g))" if mem: "g \<in> set fs" "has_number cbor (fraw g)" for g
    proof -
      have g: "frame_seq cbor (fraw g) = fseq g" using parse_frame_seq [of cbor "fraw g" g] Cons.prems(3) [of g] mem(1) by simp
      then obtain k where k: "fseq g = Some k" using mem(2) by (auto simp: has_number_def)
      then have "k \<in> set (seqs_of fs)" using mem(1) by (induction fs) (auto split: option.split)
      then show ?thesis using sorted(1) k g by auto
    qed
    moreover have "has_number cbor (fraw f)" using f Some by (simp add: has_number_def)
    ultimately show ?thesis using IH f Some sorted(2) Cons.prems(2) by (auto simp: numbered_def)
  qed
qed (simp add: numbered_def)

section \<open>Parts of a stream with unnumbered frames\<close>

lemma fresh_kinds:
  "filter (has_number cbor) (fresh cbor low xs) = fresh cbor low (filter (has_number cbor) xs)"
  "filter (Not \<circ> has_number cbor) (fresh cbor low xs) = filter (Not \<circ> has_number cbor) xs"
  "fresh cbor low (fresh cbor low xs) = fresh cbor low xs"
  by (induction cbor low xs rule: fresh.induct) (auto simp: has_number_def split: option.splits)

text \<open>Where the first \<open>i\<close> frames end among those of a kind.\<close>

definition rank :: "('a \<Rightarrow> bool) \<Rightarrow> 'a list \<Rightarrow> nat \<Rightarrow> nat" where
  "rank P xs i = length (filter P (take i xs))"

lemma rank_mono: "i \<le> j \<Longrightarrow> rank P xs i \<le> rank P xs j"
proof -
  assume "i \<le> j"
  then have "take j xs = take i xs @ drop i (take j xs)" by (metis append_take_drop_id min.absorb1 take_take)
  then show ?thesis unfolding rank_def by (metis filter_append le_add1 length_append)
qed

lemma rank_max: "rank P xs (max i j) = max (rank P xs i) (rank P xs j)"
  by (cases "i \<le> j") (use rank_mono [of i j P xs] rank_mono [of j i P xs] in \<open>simp_all add: max_def\<close>)

lemma take_rank: "take (rank P xs i) (filter P xs) = filter P (take i xs)"
proof -
  have "filter P xs = filter P (take i xs) @ filter P (drop i xs)" by (metis append_take_drop_id filter_append)
  then show ?thesis by (simp add: rank_def)
qed

lemma slice_rank: "filter P (slice xs a b) = slice (filter P xs) (rank P xs a) (rank P xs b)"
proof (cases "a \<le> b")
  case True
  have "slice xs a b = drop a (take b xs)" by (simp add: slice_def drop_take)
  moreover have "filter P (take b xs) = filter P (take a xs) @ filter P (drop a (take b xs))"
    using True by (metis append_take_drop_id filter_append min.absorb1 take_take)
  then have "filter P (drop a (take b xs)) = drop (rank P xs a) (filter P (take b xs))" by (simp add: rank_def)
  ultimately show ?thesis by (simp add: slice_def drop_take flip: take_rank)
next
  case False
  then show ?thesis using rank_mono [of b a P xs] by (simp add: slice_def)
qed

definition ranks :: "('a \<Rightarrow> bool) \<Rightarrow> 'a list \<Rightarrow> (nat \<times> nat) list \<Rightarrow> (nat \<times> nat) list" where
  "ranks P xs = map (\<lambda>(a, b). (rank P xs a, rank P xs b))"

lemma overlap_ranks: "overlap hi parts \<Longrightarrow> overlap (rank P xs hi) (ranks P xs parts)"
  by (induction hi parts rule: overlap.induct) (auto simp: ranks_def rank_max intro: rank_mono)

lemma reached_ranks: "reached (rank P xs hi) (ranks P xs parts) = rank P xs (reached hi parts)"
  by (induction hi parts rule: reached.induct) (simp_all add: ranks_def flip: rank_max)

text \<open>What a reader makes of parts of a stream that leave no gap: the numbered frames each once, the others as
  often as it comes across them.\<close>

definition once :: "cbor_reader \<Rightarrow> bytes list \<Rightarrow> (nat \<times> nat) list \<Rightarrow> bytes list \<Rightarrow> bool" where
  "once cbor xs parts out \<longleftrightarrow>
     filter (has_number cbor) out = filter (has_number cbor) (take (reached 0 parts) xs) \<and>
     filter (Not \<circ> has_number cbor) out = concat (map (\<lambda>(a, b). filter (Not \<circ> has_number cbor) (slice xs a b)) parts)"

lemma fresh_once:
  assumes "numbered cbor (filter (has_number cbor) xs)" "overlap 0 parts" "\<forall>(a, b) \<in> set parts. b \<le> length xs"
  shows "once cbor xs parts (fresh cbor i64_min (concat (map (\<lambda>(a, b). slice xs a b) parts)))"
proof -
  let ?P = "has_number cbor" and ?ys = "filter (has_number cbor) xs"
  let ?parts = "ranks ?P xs parts"
  have zero: "rank ?P xs 0 = 0" by (simp add: rank_def)
  have "rank ?P xs b \<le> length ?ys" for b
    using rank_mono [of b "max b (length xs)" ?P xs] by (simp add: rank_def)
  then have "\<forall>(a, b) \<in> set ?parts. b \<le> length ?ys" by (auto simp: ranks_def)
  moreover have "overlap 0 ?parts" using overlap_ranks [OF assms(2), of ?P xs] by (simp add: zero)
  ultimately have "fresh cbor i64_min (concat (map (\<lambda>(a, b). slice ?ys a b) ?parts)) = slice ?ys 0 (reached 0 ?parts)"
    using fresh_slices [OF assms(1), of 0 ?parts] by (simp add: mark_def)
  moreover have "reached 0 ?parts = rank ?P xs (reached 0 parts)" using reached_ranks [of ?P xs 0 parts] by (simp add: zero)
  moreover have "filter ?P (concat (map (\<lambda>(a, b). slice xs a b) parts)) = concat (map (\<lambda>(a, b). slice ?ys a b) ?parts)"
    by (simp add: filter_concat ranks_def comp_def split_def slice_rank)
  moreover have "filter (Not \<circ> ?P) (concat (map (\<lambda>(a, b). slice xs a b) parts)) =
      concat (map (\<lambda>(a, b). filter (Not \<circ> ?P) (slice xs a b)) parts)"
    by (simp add: filter_concat comp_def split_def)
  ultimately show ?thesis by (simp add: once_def fresh_kinds slice_def take_rank)
qed

text \<open>If all frames are numbered, that is the stream itself.\<close>

lemma once_all:
  assumes "\<forall>x \<in> set xs. has_number cbor x" "once cbor xs parts out"
  shows "out = take (reached 0 parts) xs"
proof -
  have "filter (Not \<circ> has_number cbor) (slice xs a b) = []" for a b
    using assms(1) by (auto simp: filter_empty_conv slice_def dest!: in_set_takeD in_set_dropD)
  then have "filter (Not \<circ> has_number cbor) out = []" using assms(2) by (simp add: once_def case_prod_beta')
  then have "filter (has_number cbor) out = out" by (auto simp: filter_empty_conv intro: filter_True)
  moreover have "filter (has_number cbor) (take (reached 0 parts) xs) = take (reached 0 parts) xs"
    using assms(1) by (auto intro: filter_True dest: in_set_takeD)
  ultimately show ?thesis using assms(2) by (simp add: once_def)
qed

section \<open>The printer\<close>

definition arriving :: "(u64 \<times> bytes) list \<Rightarrow> arrival list" where
  "arriving = map (\<lambda>(g, raw). Arrived (Some g) raw)"

definition shown :: "json \<Rightarrow> json option" where
  "shown line = (case line of JObject m \<Rightarrow> om_get m ''raw'' | _ \<Rightarrow> None)"

text \<open>Options under which every event is shown with its raw frame.\<close>

definition raw_events :: "firehose_args \<Rightarrow> bool" where
  "raw_events args \<longleftrightarrow> raw_output args \<and> \<not> ops_output args \<and> \<not> quiet args \<and> limit args = 0 \<and> wanted_dids args = []"

lemma parse_decodes: "parse cbor raw = Inr f \<Longrightarrow> \<exists>header payload. decode cbor raw = Inr (header, payload)"
  by (auto simp: parse_def split: sum.splits)

lemma print_step_raw:
  assumes "raw_events args" "parse cbor raw = Inr f"
  shows "\<exists>st'. print_step cbor debug base32 base64 args (Arrived g raw) st = (st', True) \<and>
    map shown (elines st') = map shown (elines st) @ map (Some \<circ> JString \<circ> base64) (fresh cbor (elast st) [raw]) \<and>
    elast st' = top cbor (elast st) [raw]"
proof -
  obtain header payload where "decode cbor raw = Inr (header, payload)" using parse_decodes [OF assms(2)] by blast
  moreover have "frame_seq cbor raw = fseq f" using parse_frame_seq [OF assms(2)] by simp
  moreover have "shown (event_line debug base32 base64 True g raw header payload f) = Some (JString (base64 raw))" for header payload
    by (simp add: shown_def event_line_def Let_def)
  ultimately show ?thesis using assms
    by (auto simp: print_step_def print_frame_def replayed_def note_seq_def raw_events_def max_def split: option.split)
qed

lemma print_events_raw:
  assumes "raw_events args" "\<forall>raw \<in> snd ` set items. \<exists>f. parse cbor raw = Inr f"
  shows "\<exists>st'. print_events cbor debug base32 base64 args (arriving items) st = (st', True) \<and>
    map shown (elines st') = map shown (elines st) @ map (Some \<circ> JString \<circ> base64) (fresh cbor (elast st) (map snd items))"
  using assms(2)
proof (induction items arbitrary: st)
  case (Cons item items)
  obtain g raw where item: "item = (g, raw)" by (cases item)
  then obtain f where "parse cbor raw = Inr f" using Cons.prems by auto
  from print_step_raw [OF assms(1) this] obtain st1 where
    1: "print_step cbor debug base32 base64 args (Arrived (Some g) raw) st = (st1, True)"
      "map shown (elines st1) = map shown (elines st) @ map (Some \<circ> JString \<circ> base64) (fresh cbor (elast st) [raw])"
      "elast st1 = top cbor (elast st) [raw]" by blast
  from Cons.IH [of st1] Cons.prems obtain st2 where
    "print_events cbor debug base32 base64 args (arriving items) st1 = (st2, True)"
    "map shown (elines st2) = map shown (elines st1) @ map (Some \<circ> JString \<circ> base64) (fresh cbor (elast st1) (map snd items))"
    by auto
  then show ?case using 1 fresh_append [of cbor "elast st" "[raw]" "map snd items"] by (simp add: arriving_def item)
qed (simp add: arriving_def)

lemma parse_fits: "parse cbor raw = Inr f \<Longrightarrow> numbers_fit f"
proof -
  assume "parse cbor raw = Inr f"
  then have f: "fseq f = frame_seq cbor raw" using parse_frame_seq by simp
  have "frame_seq cbor raw = Some q \<Longrightarrow> q < 2 ^ 63" for q
    using as_i64_range by (auto simp: frame_seq_def split: sum.splits)
  then show ?thesis by (simp add: numbers_fit_def f split: option.split)
qed

section \<open>End to end\<close>

text \<open>A consumer of raw events on a track: its reader and its printer.\<close>

definition printed :: "cbor_reader \<Rightarrow> (cbor_value \<Rightarrow> string) \<Rightarrow> (bytes \<Rightarrow> string) \<Rightarrow> (bytes \<Rightarrow> string) \<Rightarrow> firehose_args \<Rightarrow>
    subscription list \<Rightarrow> json option list" where
  "printed cbor debug base32 base64 args subs =
     map shown (elines (fst (print_events cbor debug base32 base64 args
       (arriving (rsent (moq_reader cbor (\<lambda>_. True) subs reader_start))) print_start)))"

lemma printed_parts:
  assumes "numbered cbor (filter (has_number cbor) xs)" "\<And>raw. raw \<in> set xs \<Longrightarrow> \<exists>f. parse cbor raw = Inr f" "raw_events args"
    and "OriginClosed \<notin> set subs" "overlap 0 parts"
    and "map frames_of subs = map (\<lambda>(a, b). slice xs a b) parts" "\<forall>(a, b) \<in> set parts. b \<le> length xs"
  shows "\<exists>out. printed cbor debug base32 base64 args subs = map (Some \<circ> JString \<circ> base64) out \<and> once cbor xs parts out"
proof -
  let ?r = "moq_reader cbor (\<lambda>_. True) subs reader_start" and ?read = "concat (map (\<lambda>(a, b). slice xs a b) parts)"
  have sent: "map snd (rsent ?r) = fresh cbor i64_min ?read"
    using moq_reader_took [OF assms(4), of cbor reader_start] by (simp add: took_def assms(6) reader_start_def)
  have "set (fresh cbor low ys) \<subseteq> set ys" for low ys by (induction cbor low ys rule: fresh.induct) (auto split: option.split)
  moreover have "set ?read \<subseteq> set xs" by (auto simp: slice_def dest!: in_set_takeD in_set_dropD)
  ultimately have "set (map snd (rsent ?r)) \<subseteq> set xs" unfolding sent by blast
  then have "\<forall>raw \<in> snd ` set (rsent ?r). \<exists>f. parse cbor raw = Inr f" using assms(2) by auto
  from print_events_raw [OF assms(3) this, of debug base32 base64 print_start]
  have "printed cbor debug base32 base64 args subs = map (Some \<circ> JString \<circ> base64) (fresh cbor i64_min ?read)"
    unfolding printed_def sent by (auto simp: print_start_def fresh_kinds(3))
  then show ?thesis using fresh_once [OF assms(1,5,7)] by blast
qed

text \<open>C2: end to end, exactly once, in a run whose writes the disk takes: the frames of the messages that ingest parsed and that pass the filter are
  what the run adds to the published stream, and a consumer of raw events that reads it in subscriptions
  without gaps, with any replay over reconnects, prints every numbered frame up to the furthest point read
  exactly once, byte for byte and in order. A frame without a number is printed each time it is read.\<close>

theorem end_to_end_once:
  assumes "pump_ok cfg pc maxlen s sent" "\<forall>f. Recv (Some f) \<in> snd ` set evs \<longrightarrow> length (fraw f) \<le> maxlen"
    and "pump_loop cbor pc evs s = (s', st)" "st = Running \<or> st = Stopping" "i64_min \<le> slast_seq s"
    and "\<forall>f. Recv (Some f) \<in> snd ` set evs \<longrightarrow> parse cbor (fraw f) = Inr f" "raw_events args"
    and "xs = map fraw (relayed (slast_seq s) evs)"
  shows "(\<exists>sent'. relay_run cfg (sdisk s') (Some (spublisher s')) sent' \<and>
      stream_of (spublisher s') sent' = stream_of (spublisher s) sent @ xs) \<and>
    (\<forall>subs parts. OriginClosed \<notin> set subs \<and> overlap 0 parts \<and>
       map frames_of subs = map (\<lambda>(a, b). slice xs a b) parts \<and> (\<forall>(a, b) \<in> set parts. b \<le> length xs) \<longrightarrow>
       (\<exists>out. printed cbor debug base32 base64 args subs = map (Some \<circ> JString \<circ> base64) out \<and> once cbor xs parts out))"
proof -
  have "\<not> (\<exists>e. st = Aborted e)" using assms(4) by auto
  moreover note pump_loop_ok [OF assms(1) _ assms(3)] assms(2)
  ultimately have "\<exists>sent'. relay_run cfg (sdisk s') (Some (spublisher s')) sent' \<and>
      stream_of (spublisher s') sent' = stream_of (spublisher s) sent @ xs"
    by (auto simp: assms(8))
  moreover have parsed: "parse cbor (fraw f) = Inr f" if "f \<in> set (relayed (slast_seq s) evs)" for f
    using relayed_messages that assms(6) by blast
  have num: "numbered cbor (filter (has_number cbor) xs)"
    unfolding assms(8) by (rule relayed_numbered [OF relayed_sorted assms(5) parsed])
  have "\<exists>f. parse cbor raw = Inr f" if "raw \<in> set xs" for raw using that parsed by (auto simp: assms(8))
  note printed_parts [OF num this assms(7)]
  ultimately show ?thesis by blast
qed

definition three_received :: "(clock \<times> pump_event) list" where
  "three_received = map (\<lambda>q. (tick, Recv (Some \<lparr>fop = 1, ft = Some ''#info'', fseq = Some q, fraw = [0xA0, word_of_int q]\<rparr>)))
     [5, 6, 7]"

lemma three_parse:
  "parse seq_cbor [0xA0, 5] = Inr \<lparr>fop = 1, ft = Some ''#info'', fseq = Some 5, fraw = [0xA0, 5]\<rparr>"
  "parse seq_cbor [0xA0, 6] = Inr \<lparr>fop = 1, ft = Some ''#info'', fseq = Some 6, fraw = [0xA0, 6]\<rparr>"
  "parse seq_cbor [0xA0, 7] = Inr \<lparr>fop = 1, ft = Some ''#info'', fseq = Some 7, fraw = [0xA0, 7]\<rparr>"
proof -
  let ?m = "\<lambda>n. Map [(Text ''op'', Integer 1), (Text ''t'', Text ''#info''), (Text ''seq'', Integer n)]"
  have "decode seq_cbor [0xA0, 5] = Inr (?m 160, ?m 5)" "decode seq_cbor [0xA0, 6] = Inr (?m 160, ?m 6)"
    "decode seq_cbor [0xA0, 7] = Inr (?m 160, ?m 7)" by code_simp+
  then show "parse seq_cbor [0xA0, 5] = Inr \<lparr>fop = 1, ft = Some ''#info'', fseq = Some 5, fraw = [0xA0, 5]\<rparr>"
    "parse seq_cbor [0xA0, 6] = Inr \<lparr>fop = 1, ft = Some ''#info'', fseq = Some 6, fraw = [0xA0, 6]\<rparr>"
    "parse seq_cbor [0xA0, 7] = Inr \<lparr>fop = 1, ft = Some ''#info'', fseq = Some 7, fraw = [0xA0, 7]\<rparr>"
    by (simp_all add: parse_def field_def)
qed

definition raw_args :: firehose_args where
  "raw_args = \<lparr>relay_host = None, fmoq_host = [], fbroadcast = [], ftrack = [], fcursor = None, raw_output = True,
     quiet = False, limit = 0, idle_ms = 0, ops_output = False, wanted_dids = [], ietf07 = True\<rparr>"

lemma raw_args_raw: "raw_events raw_args"
  by (simp add: raw_events_def raw_args_def)

lemma three_has_number: "\<forall>x \<in> set three. has_number seq_cbor x"
  by (simp add: three_def has_number_def seq_cbor_seq)

theorem end_to_end_once_witness:
  "printed seq_cbor (\<lambda>_. []) to_text to_text raw_args
     [Subscribed [(0, [[0xA0, 5]])], Subscribed [(0, [[0xA0, 5], [0xA0, 6]]), (1, [[0xA0, 7]])]] =
   map (Some \<circ> JString \<circ> to_text) three"
proof -
  let ?r = "pump_loop seq_cbor small_config three_received pump0"
  let ?subs = "[Subscribed [(0, [[0xA0, 5]])], Subscribed [(0, [[0xA0, 5], [0xA0, 6]]), (1, [[0xA0, 7]])]]"
  have "snd ?r = Running" by code_simp
  then have r: "?r = (fst ?r, Running)" by (simp add: prod_eq_iff)
  have small: "\<forall>f. Recv (Some f) \<in> snd ` set three_received \<longrightarrow> length (fraw f) \<le> 8"
    by (auto simp: three_received_def)
  have parsed: "\<forall>f. Recv (Some f) \<in> snd ` set three_received \<longrightarrow> parse seq_cbor (fraw f) = Inr f"
    by (auto simp: three_received_def three_parse)
  have low: "i64_min \<le> slast_seq pump0" by (simp add: pump0_low i64_min_def)
  have xs: "three = map fraw (relayed (slast_seq pump0) three_received)"
    by (simp add: three_received_def three_def pump0_low)
  have "map frames_of ?subs = map (\<lambda>(a, b). slice three a b) [(0, 1), (0, 3)]" by (simp add: three_def slice_def)
  then obtain out where out: "printed seq_cbor (\<lambda>_. []) to_text to_text raw_args ?subs = map (Some \<circ> JString \<circ> to_text) out"
    and once: "once seq_cbor three [(0, 1), (0, 3)] out"
    using end_to_end_once [OF pump0_ok small r _ low parsed raw_args_raw xs, THEN conjunct2, rule_format,
        of ?subs "[(0, 1), (0, 3)]" "\<lambda>_. []" to_text to_text] by (auto simp: three_def)
  have "out = three" using once_all [OF three_has_number once] by (simp add: three_def)
  then show ?thesis using out by simp
qed

end
