(* ===== verification/Torn_Turn.thy ===== *)
theory Torn_Turn
  imports Cursor_File
begin

text \<open>
  A turn of the main loop cut off: the process dies at any byte of what the turn writes. Its writes get as
  far as the room that is left, \<open>room\<close>; afterwards the directory is as they left it. A turn that would begin
  a new segment file is left out, as in \<open>relay_run\<close>.
\<close>

section \<open>The turn\<close>

definition left_behind :: "pump_state \<times> pump_status \<Rightarrow> disk" where
  "left_behind r = (sdisk (fst r))\<lparr>room := None\<rparr>"

definition new_segment :: "publisher \<Rightarrow> bool" where
  "new_segment p \<longleftrightarrow> (\<exists>st. pstore p = Some st \<and> rotate_due st \<and> segments st \<noteq> [])"

lemma torn_cursor:
  assumes "relay_run cfg d u sent" "good_cursor cfg pc" "ccursor_file pc = Some c"
  shows "relay_run cfg ((persist_cursor (Some c) n (d\<lparr>room := Some k\<rparr>))\<lparr>room := None\<rparr>) u sent"
proof -
  have c: "\<not> is_segment_file c" "seq_name cfg \<noteq> tmp_name c" "seq_name cfg \<noteq> c"
    using assms(2,3) by (auto simp: good_cursor_def good_file_def)
  obtain d' ok where w: "write_state_file c (dec_int n @ newline) (d\<lparr>room := Some k\<rparr>) = (d', ok)" by fastforce
  have d: "d\<lparr>room := None\<rparr> = d" using relay_run_room [OF assms(1)] by (simp add: room_None)
  have "elsewhere d d'" "map_of (files d') (seq_name cfg) = map_of (files d) (seq_name cfg) \<and> granted d' = granted d"
    using write_state_file_outcome(3) [OF w c(1)] write_state_file_others [OF w c(3,2)] by simp_all
  then have "relay_run cfg (d'\<lparr>room := None\<rparr>) u sent"
    by (intro relay_run.other_file [OF assms(1)]) (simp_all add: load_group_seq_def read_to_string_def)
  then show ?thesis using assms(1) w d by (simp add: persist_cursor_def)
qed

text \<open>What is left is a directory of a relay that is down, with the frame of the turn published or not; of the
  cursor there is the old one or the number last relayed before the turn.\<close>

lemma torn_turn:
  assumes ok: "pump_ok cfg pc limit s sent" and c: "ccursor_file pc = Some c" "foreign_file cfg c" "slast_seq s < 2 ^ 63"
    and small: "\<And>f. ev = Recv (Some f) \<Longrightarrow> length (fraw f) \<le> limit" and old: "\<not> new_segment (spublisher s)"
  shows "\<exists>sent1. relay_run cfg (left_behind (pump_step cbor pc clk ev (with_room (Some k) s))) None sent1 \<and>
      (\<forall>q. sent1 q \<noteq> [] \<longrightarrow> q \<le> hseq (pgroup (spublisher s))) \<and>
      stream_of (spublisher s) sent1 = stream_of (spublisher s) sent @ map fraw (relayed (slast_seq s) [(clk, ev)])"
    and "load_initial_cursor (left_behind (pump_step cbor pc clk ev (with_room (Some k) s))) (Some c) flag \<in>
      {load_initial_cursor (sdisk s) (Some c) flag, slast_seq s}"
proof -
  note o = ok [unfolded pump_ok_def]
  let ?p = "spublisher s" and ?d = "sdisk s" and ?d1 = "left_behind (pump_step cbor pc clk ev (with_room (Some k) s))"
  have run: "relay_run cfg ?d (Some ?p) sent" using o by blast
  have pub: "pub_ok (seq_name cfg) ?d ?p sent" using relay_up [OF run] by blast
  note room = pub_room [OF pub]
  have top: "\<forall>q. sent q \<noteq> [] \<longrightarrow> q \<le> hseq (pgroup ?p)" using pub by (simp add: pub_ok_def)
  have calm: "\<exists>sent1. relay_run cfg ?d1 None sent1 \<and> (\<forall>q. sent1 q \<noteq> [] \<longrightarrow> q \<le> hseq (pgroup ?p)) \<and>
      stream_of ?p sent1 = stream_of ?p sent @ map fraw (relayed (slast_seq s) [(clk, ev)])"
    if "relay_run cfg ?d1 (Some p') sent" "relayed (slast_seq s) [(clk, ev)] = []" for p'
    using that top relay_run.kill by (intro exI [of _ sent]) auto
  consider f where "ev = Recv (Some f)" | "ev = CursorTick" | "ev = GcTick" | "ev = Recv None \<or> ev = ShutdownSignal"
    by (metis pump_event.exhaust option.exhaust)
  then show "\<exists>sent1. relay_run cfg ?d1 None sent1 \<and> (\<forall>q. sent1 q \<noteq> [] \<longrightarrow> q \<le> hseq (pgroup ?p)) \<and>
      stream_of ?p sent1 = stream_of ?p sent @ map fraw (relayed (slast_seq s) [(clk, ev)])"
  proof cases
    case 1
    have "rec_ok True (q, ms, pframes ?p @ [fraw f])" for q ms by (rule fits_rec) (use o small [OF 1] in auto)
    then have rec: "\<forall>q ms. rec_ok True (q, ms, pframes ?p @ [fraw f])" by blast
    obtain s1 st where step: "pump_step cbor pc clk (Recv (Some f)) (with_room (Some k) s) = (s1, st)" by fastforce
    have d1: "?d1 = (sdisk s1)\<lparr>room := None\<rparr>" by (simp add: left_behind_def 1 step)
    show ?thesis
    proof (cases "relayed (slast_seq s) [(clk, ev)] = []")
      case True
      then have "sdisk s1 = (sdisk s)\<lparr>room := Some k\<rparr>" using recv_turn [OF step] 1 by auto
      then show ?thesis using calm [OF _ True] run room d1 by simp
    next
      case False
      then obtain p res where f: "relayed (slast_seq s) [(clk, ev)] = [f]"
        "publish (fraw f) (cgroup_size pc) (wall_ms clk) (instant clk) (?d\<lparr>room := Some k\<rparr>) ?p = ((sdisk s1, p), res)"
        using recv_turn [OF step] 1 by auto
      have "relay_run cfg ?d1 None (published ?p (fraw f) sent)"
        unfolding d1 by (rule relay_run.write_crash [OF run rec f(2)]) (use old in \<open>auto simp: new_segment_def\<close>)
      moreover have "\<forall>q. published ?p (fraw f) sent q \<noteq> [] \<longrightarrow> q \<le> hseq (pgroup ?p)" using top by (simp add: published_def)
      ultimately show ?thesis using stream_published [of ?p "fraw f" sent] f(1) by (auto simp: stream_of_def)
    qed
  next
    case 2
    then have "?d1 = (persist_cursor (Some c) (slast_seq s) (?d\<lparr>room := Some k\<rparr>))\<lparr>room := None\<rparr>"
      by (simp add: left_behind_def pump_step_def c(1))
    then have "relay_run cfg ?d1 (Some ?p) sent" using torn_cursor [OF run _ c(1)] o by simp
    then show ?thesis using calm 2 by simp
  next
    case 3
    obtain d p where g: "publisher_gc (wall_ms clk) (window_secs (cretention pc)) (max_bytes (cretention pc)) ?d ?p = (d, p)"
      by fastforce
    have up: "relay_run cfg d (Some p) sent" by (rule relay_run.collect [OF run g])
    then have "?d1 = d" using 3 g relay_run_room [OF up]
      by (simp add: left_behind_def pump_step_def publisher_gc_room room_None)
    then show ?thesis using calm up 3 by simp
  next
    case 4
    then have "?d1 = ?d" using room by (auto simp: left_behind_def pump_step_def)
    then show ?thesis using calm run 4 by auto
  qed
  obtain s1 st where step: "pump_step cbor pc clk ev (with_room (Some k) s) = (s1, st)" by fastforce
  show "load_initial_cursor ?d1 (Some c) flag \<in> {load_initial_cursor ?d (Some c) flag, slast_seq s}"
    using pump_step_cursor [OF ok c small step] by (simp add: left_behind_def step)
qed

end
