(* ===== verification/Dialect07.thy ===== *)
theory Dialect07
  imports Prelude
begin

text \<open>
  The draft-07 dialect (\<open>rust/crates/atmoq/src/dialect07.rs\<close>): a publisher that writes groups of
  frames into a session, the wrapper that rebuilds the session whenever it dies, and the
  subscriber's loop. The session layer is not part of the repository: whether it connects, survives
  and accepts a group or a frame is input, one \<open>attempt07\<close> per turn of a loop. A session is seen as
  the groups written into it, each with its id.
\<close>

section \<open>One session\<close>

record publisher07 =
  wgroups :: "(u64 \<times> bytes list) list"
  wcurrent :: bool
  wgroup_id :: u64
  wcount :: nat

definition publish07 :: "u64 \<Rightarrow> publisher07" where
  "publish07 group_base = \<lparr>wgroups = [], wcurrent = False, wgroup_id = group_base, wcount = 0\<rparr>"

definition append_to_last :: "bytes \<Rightarrow> (u64 \<times> bytes list) list \<Rightarrow> (u64 \<times> bytes list) list" where
  "append_to_last data gs = butlast gs @ [(fst (last gs), snd (last gs) @ [data])]"

definition write07 :: "bool \<Rightarrow> bool \<Rightarrow> bytes \<Rightarrow> nat \<Rightarrow> publisher07 \<Rightarrow> publisher07 \<times> bool" where
  "write07 creates writes data group_size p =
     (let rotate = (\<not> wcurrent p \<or> group_size \<le> wcount p);
          p = (if rotate \<and> creates
               then p\<lparr>wgroups := wgroups p @ [(wgroup_id p, [])], wcurrent := True,
                       wgroup_id := wgroup_id p + 1, wcount := 0\<rparr>
               else p) in
      if rotate \<and> \<not> creates then (p, False)
      else if \<not> writes then (p, False)
      else (p\<lparr>wgroups := append_to_last data (wgroups p), wcount := wcount p + 1\<rparr>, True))"

section \<open>Reconnecting\<close>

text \<open>\<open>found_dead\<close>: the session is dead when the turn starts; \<open>connects\<close>: the clock reading of a new
  connection, if one succeeds; \<open>rejected\<close>: it dies within the probation.\<close>

record attempt07 =
  found_dead :: bool
  connects :: "u64 option"
  rejected :: bool
  creates :: bool
  writes :: bool

record resilient =
  rinner :: "publisher07 option"
  rclosed :: "publisher07 list"
  rslept :: nat

definition resilient_new :: resilient where
  "resilient_new = \<lparr>rinner = None, rclosed = [], rslept = 0\<rparr>"

definition close_inner :: "resilient \<Rightarrow> resilient" where
  "close_inner r =
     r\<lparr>rinner := None, rclosed := rclosed r @ (case rinner r of None \<Rightarrow> [] | Some p \<Rightarrow> [p])\<rparr>"

text \<open>A turn first makes sure that there is a session; without one it starts over after a pause.\<close>

definition ensure_session :: "attempt07 \<Rightarrow> resilient \<Rightarrow> resilient" where
  "ensure_session a r =
     (if rinner r \<noteq> None \<and> \<not> found_dead a then r
      else
        let r = (close_inner r)\<lparr>rslept := rslept r + (if rinner r \<noteq> None then 1000 else 0)\<rparr> in
        case connects a of
          None \<Rightarrow> r\<lparr>rslept := rslept r + 2000\<rparr>
        | Some now_ms \<Rightarrow>
            if rejected a then r\<lparr>rslept := rslept r + 500 + 2000\<rparr>
            else r\<lparr>rinner := Some (publish07 now_ms), rslept := rslept r + 500\<rparr>)"

definition resilient_step :: "attempt07 \<Rightarrow> bytes \<Rightarrow> nat \<Rightarrow> resilient \<Rightarrow> resilient \<times> bool" where
  "resilient_step a data group_size r =
     (let r = ensure_session a r in
      case rinner r of
        None \<Rightarrow> (r, False)
      | Some p \<Rightarrow>
          (case write07 (creates a) (writes a) data group_size p of
             (p, True) \<Rightarrow> (r\<lparr>rinner := Some p\<rparr>, True)
           | (p, False) \<Rightarrow> (close_inner (r\<lparr>rinner := Some p\<rparr>), False)))"

fun resilient_write :: "attempt07 list \<Rightarrow> bytes \<Rightarrow> nat \<Rightarrow> resilient \<Rightarrow> resilient \<times> bool" where
  "resilient_write [] data group_size r = (r, False)"
| "resilient_write (a # as) data group_size r =
     (case resilient_step a data group_size r of
        (r, True) \<Rightarrow> (r, True)
      | (r, False) \<Rightarrow> resilient_write as data group_size r)"

section \<open>Subscribing\<close>

text \<open>What a subscription yields: the objects of each subgroup as far as they are read, until the track
  ends or fails. Datagrams are refused.\<close>

datatype track_mode = Subgroups "bytes list list" | StreamMode "bytes list list" | Datagrams

fun send_objects :: "(nat \<Rightarrow> bool) \<Rightarrow> u64 \<Rightarrow> bytes list \<Rightarrow> (u64 \<times> bytes) list \<Rightarrow> (u64 \<times> bytes) list \<times> bool" where
  "send_objects accepts g [] sent = (sent, True)"
| "send_objects accepts g (ob # obs) sent =
     (if accepts (length sent) then send_objects accepts g obs (sent @ [(g, ob)]) else (sent, False))"

fun send_subgroups :: "(nat \<Rightarrow> bool) \<Rightarrow> u64 \<Rightarrow> bytes list list \<Rightarrow> (u64 \<times> bytes) list \<Rightarrow> (u64 \<times> bytes) list \<times> bool" where
  "send_subgroups accepts g [] sent = (sent, True)"
| "send_subgroups accepts g (obs # subgroups) sent =
     (case send_objects accepts g obs sent of
        (sent, False) \<Rightarrow> (sent, False)
      | (sent, True) \<Rightarrow> send_subgroups accepts (g + 1) subgroups sent)"

definition subscribe07 :: "(nat \<Rightarrow> bool) \<Rightarrow> track_mode option \<Rightarrow> (u64 \<times> bytes) list \<Rightarrow> (u64 \<times> bytes) list" where
  "subscribe07 accepts mode sent =
     (case mode of
        Some (Subgroups subgroups) \<Rightarrow> fst (send_subgroups accepts 0 subgroups sent)
      | Some (StreamMode subgroups) \<Rightarrow> fst (send_subgroups accepts 0 subgroups sent)
      | _ \<Rightarrow> sent)"

text \<open>The reconnect loop: what each subscription got, how long it lasted, and whether the receiver is
  gone by then. It yields the pauses, in seconds.\<close>

definition backoff07 :: "nat \<Rightarrow> nat \<Rightarrow> nat \<times> nat" where
  "backoff07 elapsed backoff =
     (let backoff = (if elapsed > 60 * 1000 then 1 else backoff) in (backoff, min (backoff * 2) 30))"

fun subscribe_loop :: "(nat \<Rightarrow> bool) \<Rightarrow> nat \<Rightarrow> (track_mode option \<times> nat \<times> bool) list \<Rightarrow> (u64 \<times> bytes) list \<Rightarrow>
    (u64 \<times> bytes) list \<times> nat list" where
  "subscribe_loop accepts backoff [] sent = (sent, [])"
| "subscribe_loop accepts backoff ((mode, elapsed, gone) # subs) sent =
     (let sent = subscribe07 accepts mode sent in
      if gone then (sent, [])
      else
        let (pause, backoff) = backoff07 elapsed backoff;
            (sent, pauses) = subscribe_loop accepts backoff subs sent in
        (sent, pause # pauses))"

section \<open>Writing into a session\<close>

text \<open>What a session holds: \<open>fs\<close> are the frames accepted, in order, cut into groups of consecutive ids
  that are full, except the last.\<close>

definition session_ok :: "nat \<Rightarrow> u64 \<Rightarrow> bytes list \<Rightarrow> publisher07 \<Rightarrow> bool" where
  "session_ok group_size base fs p \<longleftrightarrow>
     concat (map snd (wgroups p)) = fs \<and>
     map fst (wgroups p) = map (\<lambda>i. base + word_of_nat i) [0..<length (wgroups p)] \<and>
     wgroup_id p = base + word_of_nat (length (wgroups p)) \<and>
     wcurrent p = (wgroups p \<noteq> []) \<and>
     (wgroups p \<noteq> [] \<longrightarrow> wcount p = length (snd (last (wgroups p)))) \<and>
     (\<forall>g \<in> set (wgroups p). length (snd g) \<le> max 1 group_size) \<and>
     (\<forall>g \<in> set (butlast (wgroups p)). group_size \<le> length (snd g))"

lemma session_ok_new: "session_ok group_size base [] (publish07 base)"
  by (simp add: session_ok_def publish07_def)

lemma append_to_last_facts:
  assumes "gs \<noteq> []"
  shows "concat (map snd (append_to_last data gs)) = concat (map snd gs) @ [data]"
    "map fst (append_to_last data gs) = map fst gs" "length (append_to_last data gs) = length gs"
    "last (append_to_last data gs) = (fst (last gs), snd (last gs) @ [data])"
    "butlast (append_to_last data gs) = butlast gs" "append_to_last data gs \<noteq> []"
proof -
  have gs: "gs = butlast gs @ [last gs]" using assms by simp
  show "concat (map snd (append_to_last data gs)) = concat (map snd gs) @ [data]"
    by (subst (2) gs) (simp add: append_to_last_def del: append_butlast_last_id)
  show "map fst (append_to_last data gs) = map fst gs"
    by (subst (2) gs) (simp add: append_to_last_def del: append_butlast_last_id)
  show "length (append_to_last data gs) = length gs" using assms by (simp add: append_to_last_def)
qed (simp_all add: append_to_last_def)

lemma session_ok_append:
  assumes "session_ok group_size base fs p" "wgroups p \<noteq> []" "wcount p < max 1 group_size"
  shows "session_ok group_size base (fs @ [data])
    (p\<lparr>wgroups := append_to_last data (wgroups p), wcount := wcount p + 1\<rparr>)"
proof -
  note a = append_to_last_facts [OF assms(2)]
  have "set (append_to_last data (wgroups p)) = set (butlast (wgroups p)) \<union> {(fst (last (wgroups p)), snd (last (wgroups p)) @ [data])}"
    by (simp add: append_to_last_def)
  moreover have "\<forall>g \<in> set (butlast (wgroups p)). length (snd g) \<le> max 1 group_size"
    using assms(1) by (auto simp: session_ok_def dest: in_set_butlastD)
  ultimately show ?thesis using assms by (auto simp: session_ok_def a)
qed

lemma session_ok_rotate:
  assumes "session_ok group_size base fs p" "\<not> wcurrent p \<or> group_size \<le> wcount p"
  shows "session_ok group_size base fs
    (p\<lparr>wgroups := wgroups p @ [(wgroup_id p, [])], wcurrent := True, wgroup_id := wgroup_id p + 1, wcount := 0\<rparr>)"
proof -
  have "group_size \<le> length (snd g)" if "g \<in> set (wgroups p)" for g
  proof -
    have ne: "wgroups p \<noteq> []" using that by auto
    then have "set (wgroups p) = insert (last (wgroups p)) (set (butlast (wgroups p)))"
      by (metis append_butlast_last_id list.simps(15) rotate1.simps(2) set_rotate1)
    then show ?thesis using that assms ne by (auto simp: session_ok_def)
  qed
  then show ?thesis using assms(1) by (auto simp: session_ok_def)
qed

lemma write07_ok:
  assumes "session_ok group_size base fs p" "write07 cr wr data group_size p = (p', ok)"
  shows "session_ok group_size base (if ok then fs @ [data] else fs) p'"
proof (cases "\<not> wcurrent p \<or> group_size \<le> wcount p")
  case True
  let ?p = "p\<lparr>wgroups := wgroups p @ [(wgroup_id p, [])], wcurrent := True, wgroup_id := wgroup_id p + 1, wcount := 0\<rparr>"
  note rot = session_ok_rotate [OF assms(1) True]
  then have "session_ok group_size base (fs @ [data]) (?p\<lparr>wgroups := append_to_last data (wgroups ?p), wcount := wcount ?p + 1\<rparr>)"
    by (rule session_ok_append) simp_all
  then show ?thesis using assms rot True by (auto simp: write07_def Let_def split: if_splits)
next
  case False
  then have "wgroups p \<noteq> []" using assms(1) by (simp add: session_ok_def)
  from session_ok_append [OF assms(1) this] False
  show ?thesis using assms by (auto simp: write07_def Let_def split: if_splits)
qed

section \<open>The reconnecting publisher\<close>

definition session_frames :: "publisher07 \<Rightarrow> bytes list" where
  "session_frames p = concat (map snd (wgroups p))"

definition accepted :: "resilient \<Rightarrow> bytes list" where
  "accepted r = concat (map session_frames (rclosed r @ (case rinner r of None \<Rightarrow> [] | Some p \<Rightarrow> [p])))"

definition sessions_ok :: "nat \<Rightarrow> resilient \<Rightarrow> bool" where
  "sessions_ok group_size r \<longleftrightarrow>
     (\<forall>p \<in> set (rclosed r) \<union> set_option (rinner r). \<exists>base fs. session_ok group_size base fs p)"

lemma close_inner_facts [simp]:
  "accepted (close_inner r) = accepted r" "sessions_ok group_size (close_inner r) = sessions_ok group_size r"
  "rinner (close_inner r) = None" "rslept (close_inner r) = rslept r"
  by (auto simp: accepted_def sessions_ok_def close_inner_def split: option.splits)

lemma rslept_update [simp]:
  "accepted (r\<lparr>rslept := n\<rparr>) = accepted r" "sessions_ok group_size (r\<lparr>rslept := n\<rparr>) = sessions_ok group_size r"
  by (simp_all add: accepted_def sessions_ok_def)

lemma ensure_session_ok:
  assumes "sessions_ok group_size r"
  shows "sessions_ok group_size (ensure_session a r) \<and> accepted (ensure_session a r) = accepted r"
proof -
  have new: "sessions_ok group_size (r\<lparr>rinner := Some (publish07 b), rslept := n\<rparr>) \<and>
      accepted (r\<lparr>rinner := Some (publish07 b), rslept := n\<rparr>) = accepted r"
    if "sessions_ok group_size r" "rinner r = None" for r b n
  proof -
    have "session_frames (publish07 b) = []" by (simp add: session_frames_def publish07_def)
    then show ?thesis using that session_ok_new [of group_size b] by (auto simp: sessions_ok_def accepted_def)
  qed
  have "sessions_ok group_size (close_inner r)" using assms by simp
  from new [OF this] show ?thesis using assms
    by (auto simp: ensure_session_def Let_def split: option.split)
qed

lemma resilient_step_ok:
  assumes "sessions_ok group_size r" "resilient_step a data group_size r = (r', ok)"
  shows "sessions_ok group_size r' \<and> accepted r' = accepted r @ (if ok then [data] else [])"
proof -
  let ?r = "ensure_session a r"
  note e = ensure_session_ok [OF assms(1), of a]
  show ?thesis
  proof (cases "rinner ?r")
    case None
    then show ?thesis using e assms(2) by (simp add: resilient_step_def Let_def)
  next
    case (Some p)
    obtain p' b where w: "write07 (creates a) (writes a) data group_size p = (p', b)"
      by (cases "write07 (creates a) (writes a) data group_size p")
    from e Some obtain base fs where "session_ok group_size base fs p" by (auto simp: sessions_ok_def)
    from this write07_ok [OF this w] have p': "session_frames p' = session_frames p @ (if b then [data] else [])"
      "\<exists>base fs. session_ok group_size base fs p'"
      by (auto simp: session_ok_def session_frames_def)
    then have "sessions_ok group_size (?r\<lparr>rinner := Some p'\<rparr>) \<and>
        accepted (?r\<lparr>rinner := Some p'\<rparr>) = accepted r @ (if b then [data] else [])"
      using e Some by (auto simp: sessions_ok_def accepted_def)
    then show ?thesis using assms(2) Some w
      by (cases b) (auto simp: resilient_step_def Let_def)
  qed
qed

lemma resilient_write_ok:
  assumes "sessions_ok group_size r" "resilient_write as data group_size r = (r', ok)"
  shows "accepted r' = accepted r @ (if ok then [data] else []) \<and> sessions_ok group_size r'"
  using assms
proof (induction as arbitrary: r)
  case (Cons a as)
  obtain r1 b where 1: "resilient_step a data group_size r = (r1, b)" by (cases "resilient_step a data group_size r")
  note s = resilient_step_ok [OF Cons.prems(1) 1]
  show ?case
  proof (cases b)
    case True
    then show ?thesis using s 1 Cons.prems(2) by simp
  next
    case False
    then show ?thesis using s 1 Cons.IH [of r1] Cons.prems(2) by simp
  qed
qed simp

text \<open>every frame goes into exactly one session, in order: the loop returns with the frame behind
  all accepted before it, or has not accepted it at all; within each session the groups have
  consecutive ids and are full except the last.\<close>

theorem resilient_write_once:
  assumes "sessions_ok group_size r" "resilient_write as data group_size r = (r', ok)"
  shows "accepted r' = accepted r @ (if ok then [data] else []) \<and> sessions_ok group_size r'"
  by (rule resilient_write_ok [OF assms])

definition flaky :: "attempt07 list" where
  "flaky =
     [\<lparr>found_dead = False, connects = None, rejected = False, creates = True, writes = True\<rparr>,
      \<lparr>found_dead = False, connects = Some 1000, rejected = True, creates = True, writes = True\<rparr>,
      \<lparr>found_dead = False, connects = Some 4000, rejected = False, creates = True, writes = True\<rparr>]"

theorem resilient_write_once_witness:
  "accepted (fst (resilient_write flaky [7] 2 resilient_new)) = [[7]]"
proof -
  have "snd (resilient_write flaky [7] 2 resilient_new) = True" by code_simp
  then obtain r where r: "resilient_write flaky [7] 2 resilient_new = (r, True)" by (metis prod.collapse)
  have "sessions_ok 2 resilient_new" by (simp add: sessions_ok_def resilient_new_def)
  from resilient_write_once [OF this r] show ?thesis unfolding r by (simp add: accepted_def resilient_new_def)
qed

lemma failed_step: "resilient_step a data group_size r = (r', False) \<Longrightarrow>
  rinner r' = None \<and> (rinner r = None \<longrightarrow> rslept r + 500 \<le> rslept r') \<and> rslept r \<le> rslept r'"
  by (auto simp: resilient_step_def ensure_session_def Let_def split: option.splits prod.splits if_splits bool.splits)

lemma good_step:
  assumes "connects a \<noteq> None" "\<not> rejected a" "creates a" "writes a"
  shows "snd (resilient_step a data group_size r)"
proof -
  have "rinner (ensure_session a r) \<noteq> None"
    using assms(1,2) by (auto simp: ensure_session_def Let_def)
  then show ?thesis using assms(3,4) by (auto simp: resilient_step_def write07_def Let_def split: option.splits)
qed

lemma waiting_writes:
  "resilient_write as data group_size r = (r', False) \<Longrightarrow> rinner r = None \<Longrightarrow> rslept r + 500 * length as \<le> rslept r'"
proof (induction as arbitrary: r)
  case (Cons a as)
  obtain r1 b where 1: "resilient_step a data group_size r = (r1, b)" by (cases "resilient_step a data group_size r")
  then have b: "\<not> b" using Cons.prems(1) by (cases b) simp_all
  then have "resilient_write as data group_size r1 = (r', False)" using Cons.prems(1) 1 by simp
  moreover have "rinner r1 = None" "rslept r + 500 \<le> rslept r1"
    using failed_step [of a data group_size r r1] 1 b Cons.prems(2) by simp_all
  ultimately show ?case using Cons.IH [of r1] by simp
qed simp

text \<open>C24: the loop ends and does not spin: it returns as soon as one turn finds the session layer
  working, and as long as it does not, every turn but the first waits at least half a second.\<close>

theorem resilient_write_returns:
  assumes "resilient_write as data group_size r = (r', ok)"
  shows "((\<exists>a \<in> set as. connects a \<noteq> None \<and> \<not> rejected a \<and> creates a \<and> writes a) \<longrightarrow> ok) \<and>
    (\<not> ok \<longrightarrow> rslept r + 500 * length as \<le> rslept r' + 500)"
  using assms
proof (cases as)
  case (Cons a as')
  obtain r1 b where 1: "resilient_step a data group_size r = (r1, b)" by (cases "resilient_step a data group_size r")
  have "ok" if "\<exists>a \<in> set as. connects a \<noteq> None \<and> \<not> rejected a \<and> creates a \<and> writes a"
    using assms that
  proof (induction as arbitrary: r)
    case (Cons a as)
    then show ?case using good_step [of a data group_size r]
      by (cases "resilient_step a data group_size r"; cases "snd (resilient_step a data group_size r)") auto
  qed simp
  moreover have "rslept r + 500 * length as \<le> rslept r' + 500" if "\<not> ok"
  proof -
    have b: "\<not> b" using assms that 1 Cons by (cases b) simp_all
    then have "resilient_write as' data group_size r1 = (r', False)" using assms that 1 Cons by simp
    then show ?thesis using waiting_writes [of as' data group_size r1] failed_step [of a data group_size r r1] 1 b Cons by simp
  qed
  ultimately show ?thesis by blast
qed simp

theorem resilient_write_returns_witness:
  "snd (resilient_write flaky [7] 2 resilient_new) \<and>
    1000 \<le> rslept (fst (resilient_write (replicate 3 (hd flaky)) [7] 2 resilient_new)) + 500"
proof -
  obtain r ok where r: "resilient_write flaky [7] 2 resilient_new = (r, ok)" by fastforce
  from resilient_write_returns [OF r] have ok: "ok" by (simp add: flaky_def)
  obtain r' ok' where r': "resilient_write (replicate 3 (hd flaky)) [7] 2 resilient_new = (r', ok')" by fastforce
  have "snd (resilient_write (replicate 3 (hd flaky)) [7] 2 resilient_new) = False" by code_simp
  then have "\<not> ok'" unfolding r' by simp
  with resilient_write_returns [OF r'] have "1000 \<le> rslept r' + 500" by (simp add: resilient_new_def)
  then show ?thesis using ok unfolding r r' by simp
qed

text \<open>group ids are unique across sessions when no session makes more than one group per
  millisecond: as long as the clock has passed the last id of the earlier session.\<close>

theorem group_ids_unique:
  assumes "session_ok group_size b1 fs1 p1" "session_ok group_size b2 fs2 p2"
    and "unat b1 + length (wgroups p1) \<le> unat b2" "unat b2 + length (wgroups p2) < 2 ^ 64"
  shows "distinct (map fst (wgroups p1 @ wgroups p2))"
proof -
  have ids: "unat i = unat b + k" if "map fst gs = map (\<lambda>i. b + word_of_nat i) [0..<length gs]"
    "unat b + length gs < 2 ^ 64" "k < length gs" "i = map fst gs ! k" for b :: u64 and gs :: "(u64 \<times> bytes list) list" and k i
    using that by (simp add: unat_word_ariths unat_of_nat)
  note i1 = ids [of "wgroups p1" b1] and i2 = ids [of "wgroups p2" b2]
  have m: "map fst (wgroups p1) = map (\<lambda>i. b1 + word_of_nat i) [0..<length (wgroups p1)]"
    "map fst (wgroups p2) = map (\<lambda>i. b2 + word_of_nat i) [0..<length (wgroups p2)]"
    using assms(1,2) by (simp_all add: session_ok_def)
  have l1: "unat b1 + length (wgroups p1) < 2 ^ 64" using assms(3,4) by simp
  have "distinct (map fst (wgroups p1))" "distinct (map fst (wgroups p2))"
    using i1 [OF m(1) l1] i2 [OF m(2) assms(4)]
    by (metis add_left_cancel distinct_conv_nth length_map)+
  moreover have "x \<noteq> y" if x: "x \<in> fst ` set (wgroups p1)" and y: "y \<in> fst ` set (wgroups p2)" for x y
  proof -
    from x obtain j where "j < length (wgroups p1)" "x = map fst (wgroups p1) ! j" by (auto simp: in_set_conv_nth)
    moreover from y obtain k where "k < length (wgroups p2)" "y = map fst (wgroups p2) ! k" by (auto simp: in_set_conv_nth)
    ultimately have "unat x < unat y" using i1 [OF m(1) l1] i2 [OF m(2) assms(4)] assms(3) by fastforce
    then show ?thesis by auto
  qed
  ultimately show ?thesis by (auto simp: disjoint_iff)
qed

theorem group_ids_unique_witness:
  "distinct (map fst (wgroups (fst (write07 True True [1] 1 (publish07 1000))) @
    wgroups (fst (write07 True True [2] 1 (publish07 1001)))))"
proof -
  let ?w = "\<lambda>b d. write07 True True [d] 1 (publish07 b)"
  have ok: "session_ok 1 b [[d]] (fst (?w b d))" "length (wgroups (fst (?w b d))) = 1" for b d
  proof -
    have w: "?w b d = (fst (?w b d), True)" by (simp add: write07_def publish07_def Let_def)
    show "session_ok 1 b [[d]] (fst (?w b d))" using write07_ok [OF session_ok_new w] by simp
    show "length (wgroups (fst (?w b d))) = 1" by (simp add: write07_def publish07_def Let_def append_to_last_def)
  qed
  show ?thesis by (rule group_ids_unique [OF ok(1) ok(1)]; unfold ok(2); simp)
qed

end
