(* ===== verification/Pump07.thy ===== *)
theory Pump07
  imports Event_Loop Dialect07 State_Lemmas
begin

text \<open>
  The pump over the draft-07 dialect: the \<open>Ietf07\<close> arms of \<open>FramePublisher\<close> and of the relay command in
  \<open>rust/crates/atmoq/src/main.rs\<close>. There is no store and no router; frames go to the reconnecting
  publisher of \<open>Dialect07\<close>, whose write waits until a session takes the frame. A turn carries the
  attempts that write makes; when they end without success, the pump is still in the write.
\<close>

section \<open>The loop\<close>

record pump07_state =
  tdisk :: disk
  tpublisher :: resilient
  tlast_seq :: int
  ttotal :: u64
  tdropped :: u64
  tmetrics :: metrics

record turn07 =
  turn_clock :: clock
  tries :: "attempt07 list"

datatype pump07_status = Running07 | Stopping07 | Writing07

definition relay_frame07 :: "pump_config \<Rightarrow> turn07 \<Rightarrow> frame \<Rightarrow> pump07_state \<Rightarrow> pump07_state \<times> pump07_status" where
  "relay_frame07 cfg t f s =
     (case resilient_write (tries t) (fraw f) (cgroup_size cfg) (tpublisher s) of
        (r, False) \<Rightarrow> (s\<lparr>tpublisher := r\<rparr>, Writing07)
      | (r, True) \<Rightarrow>
          (s\<lparr>tpublisher := r, tmetrics := record_frame (wall_ms (turn_clock t)) (fseq f) (tmetrics s),
             ttotal := ttotal s + 1\<rparr>, Running07))"

definition pump07_frame :: "pump_config \<Rightarrow> turn07 \<Rightarrow> frame \<Rightarrow> pump07_state \<Rightarrow> pump07_state \<times> pump07_status" where
  "pump07_frame cfg t f s =
     (if fop f = - 1 then
        (s\<lparr>tmetrics := (tmetrics s)\<lparr>m_upstream_error_frames_total := m_upstream_error_frames_total (tmetrics s) + 1\<rparr>\<rparr>,
         Running07)
      else case fseq f of
        None \<Rightarrow> relay_frame07 cfg t f s
      | Some seq \<Rightarrow>
          if seq \<le> tlast_seq s then
            (s\<lparr>tdropped := tdropped s + 1,
               tmetrics := (tmetrics s)\<lparr>m_frames_dropped_below_cursor_total :=
                 m_frames_dropped_below_cursor_total (tmetrics s) + 1\<rparr>\<rparr>, Running07)
          else relay_frame07 cfg t f (s\<lparr>tdropped := 0, tlast_seq := seq\<rparr>))"

definition pump07_step :: "pump_config \<Rightarrow> turn07 \<Rightarrow> pump_event \<Rightarrow> pump07_state \<Rightarrow> pump07_state \<times> pump07_status" where
  "pump07_step cfg t ev s =
     (case ev of
        Recv None \<Rightarrow> (s, Stopping07)
      | Recv (Some f) \<Rightarrow> pump07_frame cfg t f s
      | CursorTick \<Rightarrow> (s\<lparr>tdisk := persist_cursor (ccursor_file cfg) (tlast_seq s) (tdisk s)\<rparr>, Running07)
      | GcTick \<Rightarrow> (s, Running07)
      | ShutdownSignal \<Rightarrow> (s, Stopping07))"

definition pump07_loop :: "pump_config \<Rightarrow> (turn07 \<times> pump_event) list \<Rightarrow> pump07_state \<Rightarrow> pump07_state \<times> pump07_status" where
  "pump07_loop cfg = event_loop (pump07_step cfg) Running07"

definition pump07_end :: "pump_config \<Rightarrow> pump07_state \<Rightarrow> disk" where
  "pump07_end cfg s = persist_cursor (ccursor_file cfg) (tlast_seq s) (tdisk s)"

definition pump07_start :: "pump_config \<Rightarrow> int option \<Rightarrow> disk \<Rightarrow> pump07_state" where
  "pump07_start cfg cursor d =
     \<lparr>tdisk = d, tpublisher = resilient_new, tlast_seq = load_initial_cursor d (ccursor_file cfg) cursor,
      ttotal = 0, tdropped = 0, tmetrics = metrics_default\<rparr>"

section \<open>The pump as a client of the reconnecting publisher\<close>

text \<open>The cursor a run started on the present directory would resume from.\<close>

definition resume_from :: "pump_config \<Rightarrow> int option \<Rightarrow> pump07_state \<Rightarrow> int" where
  "resume_from cfg cursor s = load_initial_cursor (tdisk s) (ccursor_file cfg) cursor"

text \<open>Of the frames \<open>h\<close> handed over, all are accepted behind those of earlier runs, or all but the one being
  written, which the cursor on disk has not passed.\<close>

definition pump07_ok :: "pump_config \<Rightarrow> int option \<Rightarrow> pump07_state \<Rightarrow> frame list \<Rightarrow> bool" where
  "pump07_ok cfg cursor s h \<longleftrightarrow>
     sessions_ok (cgroup_size cfg) (tpublisher s) \<and> accepted (tpublisher s) = map fraw h \<and>
     tlast_seq s < 2 ^ 63 \<and> resume_from cfg cursor s \<le> tlast_seq s \<and>
     (case ccursor_file cfg of None \<Rightarrow> True | Some c \<Rightarrow> tmp_name c \<noteq> c)"

definition pump07_writing :: "pump_config \<Rightarrow> int option \<Rightarrow> pump07_state \<Rightarrow> frame list \<Rightarrow> bool" where
  "pump07_writing cfg cursor s h \<longleftrightarrow>
     h \<noteq> [] \<and> sessions_ok (cgroup_size cfg) (tpublisher s) \<and> accepted (tpublisher s) = map fraw (butlast h) \<and>
     (\<forall>q. fseq (last h) = Some q \<longrightarrow> resume_from cfg cursor s < q)"

lemma relay_frame07_ok:
  assumes "pump07_ok cfg cursor s h" "relay_frame07 cfg t f (s\<lparr>tdropped := n, tlast_seq := m\<rparr>) = (s', st)"
    and "numbers_fit f" "m = high_water (tlast_seq s) (seqs_of [f])" "\<forall>q. fseq f = Some q \<longrightarrow> tlast_seq s < q"
  shows "tlast_seq s' = m \<and>
    (st = Running07 \<and> pump07_ok cfg cursor s' (h @ [f]) \<or> st = Writing07 \<and> pump07_writing cfg cursor s' (h @ [f]))"
proof -
  obtain r b where w: "resilient_write (tries t) (fraw f) (cgroup_size cfg) (tpublisher s) = (r, b)"
    by (cases "resilient_write (tries t) (fraw f) (cgroup_size cfg) (tpublisher s)")
  from resilient_write_ok [OF _ w] assms(1)
  have "accepted r = map fraw h @ (if b then [fraw f] else []) \<and> sessions_ok (cgroup_size cfg) r"
    by (auto simp: pump07_ok_def)
  then show ?thesis using assms w
    by (cases b) (auto simp: relay_frame07_def pump07_ok_def pump07_writing_def resume_from_def numbers_fit_def
        split: option.splits)
qed

lemma pump07_turn:
  assumes "pump07_ok cfg cursor s h" "\<And>f. ev = Recv (Some f) \<Longrightarrow> numbers_fit f" "pump07_step cfg t ev s = (s', st)"
  shows "(st = Running07 \<or> st = Stopping07) \<and> pump07_ok cfg cursor s' (h @ relayed (tlast_seq s) [(t, ev)]) \<and>
      tlast_seq s' = high_water (tlast_seq s) (seqs_of (relayed (tlast_seq s) [(t, ev)])) \<or>
    st = Writing07 \<and> pump07_writing cfg cursor s' (h @ relayed (tlast_seq s) [(t, ev)])"
proof -
  have same: ?thesis if "relayed (tlast_seq s) [(t, ev)] = []" "tpublisher s' = tpublisher s" "tlast_seq s' = tlast_seq s"
    "st \<noteq> Writing07" "resume_from cfg cursor s' \<le> tlast_seq s"
    using assms(1) that by (cases st) (auto simp: pump07_ok_def)
  have low: "resume_from cfg cursor s \<le> tlast_seq s" using assms(1) by (simp add: pump07_ok_def)
  show ?thesis
  proof (cases "\<exists>f. ev = Recv (Some f)")
    case True
    then obtain f where f: "ev = Recv (Some f)" by blast
    then have pf: "pump07_frame cfg t f s = (s', st)" using assms(3) by (simp add: pump07_step_def)
    note relay = relay_frame07_ok [OF assms(1) _ assms(2) [OF f], of t]
    consider "fop f = - 1" | "fop f \<noteq> - 1" "fseq f = None" | q where "fop f \<noteq> - 1" "fseq f = Some q" "q \<le> tlast_seq s"
      | q where "fop f \<noteq> - 1" "fseq f = Some q" "\<not> q \<le> tlast_seq s" by (cases "fseq f") auto
    then show ?thesis
    proof cases
      case 2
      have "s\<lparr>tdropped := tdropped s, tlast_seq := tlast_seq s\<rparr> = s" by simp
      then show ?thesis using relay [where n = "tdropped s" and m = "tlast_seq s"] pf 2 f by (simp add: pump07_frame_def) blast
    next
      case 4
      then show ?thesis using relay [where n = 0] pf f by (simp add: pump07_frame_def) blast
    qed (use same low pf f in \<open>auto simp: pump07_frame_def resume_from_def\<close>)
  next
    case False
    have "resume_from cfg cursor (s\<lparr>tdisk := persist_cursor (ccursor_file cfg) (tlast_seq s) (tdisk s)\<rparr>) \<le> tlast_seq s"
      using low assms(1) cursor_persisted [of _ "tlast_seq s" "tdisk s" cursor]
      by (cases "ccursor_file cfg") (fastforce simp: resume_from_def pump07_ok_def persist_cursor_def)+
    then show ?thesis using assms(3) low False
      by (intro same) (auto simp: pump07_step_def split: pump_event.splits option.splits)
  qed
qed

lemma pump07_status:
  "pump07_step cfg t ev s = (s', Running07) \<Longrightarrow> ev \<noteq> Recv None \<and> ev \<noteq> ShutdownSignal"
  "pump07_step cfg t ev s = (s', Stopping07) \<Longrightarrow> ev = Recv None \<or> ev = ShutdownSignal"
  by (auto simp: pump07_step_def pump07_frame_def relay_frame07_def
      split: pump_event.splits option.splits prod.splits bool.splits if_splits)

interpretation draft07: frame_pump "pump07_step cfg" Running07 Stopping07 "pump07_ok cfg cursor"
    "pump07_writing cfg cursor" tlast_seq numbers_fit for cfg cursor
proof (unfold_locales, goal_cases)
  case (1 s h ev c s' st)
  from pump07_turn [OF this] show ?case by auto
qed (use pump07_status in blast)+

section \<open>Nothing is lost\<close>

lemma accepted_new [simp]: "accepted resilient_new = []" "sessions_ok n resilient_new"
  by (simp_all add: accepted_def sessions_ok_def resilient_new_def)

lemma draft07_run:
  assumes "pump07_loop cfg evs (pump07_start cfg cursor d) = (s, st)"
    and "\<forall>f. Recv (Some f) \<in> snd ` set evs \<longrightarrow> numbers_fit f"
    and "load_initial_cursor d (ccursor_file cfg) cursor < 2 ^ 63"
    and "ccursor_file cfg = Some c" "tmp_name c \<noteq> c"
  shows "\<exists>done rest fs. evs = done @ rest \<and> (st \<noteq> Writing07 \<longrightarrow> rest = []) \<and>
    fs = relayed (load_initial_cursor d (ccursor_file cfg) cursor) done \<and>
    accepted (tpublisher s) = map fraw (if st = Writing07 then butlast fs else fs) \<and>
    (\<forall>f \<in> set fs. \<forall>q. fseq f = Some q \<and> q \<le> tlast_seq (pump07_start cfg cursor (tdisk s)) \<longrightarrow>
      fraw f \<in> set (accepted (tpublisher s)))"
proof -
  let ?low = "load_initial_cursor d (ccursor_file cfg) cursor"
  have start: "tlast_seq (pump07_start cfg cursor d) = ?low" "tlast_seq (pump07_start cfg cursor (tdisk s)) = resume_from cfg cursor s"
    by (simp_all add: pump07_start_def resume_from_def)
  have "pump07_ok cfg cursor (pump07_start cfg cursor d) []"
    using assms(3-5) by (simp add: pump07_ok_def pump07_start_def resume_from_def)
  from draft07.run [OF this _ assms(1) [unfolded pump07_loop_def]] assms(2) consider
      (going) "st \<noteq> Writing07" "pump07_ok cfg cursor s (relayed ?low evs)"
    | (writing) "done" rest where "st = Writing07" "evs = done @ rest" "pump07_writing cfg cursor s (relayed ?low done)"
    by (cases st) (auto simp: start)
  then show ?thesis
  proof cases
    case going
    then show ?thesis
      by (intro exI [of _ evs] exI [of _ "[] :: (turn07 \<times> pump_event) list"] exI [of _ "relayed ?low evs"])
        (auto simp: pump07_ok_def)
  next
    case writing
    let ?fs = "relayed ?low done"
    have "?fs = butlast ?fs @ [last ?fs]" using writing(3) by (simp add: pump07_writing_def)
    then have "f \<in> set (butlast ?fs) \<or> f = last ?fs" if "f \<in> set ?fs" for f
      using that by (metis Un_iff empty_iff insert_iff list.set(1) list.simps(15) set_append)
    then show ?thesis using writing unfolding start(2)
      by (intro exI [of _ "done"] exI [of _ rest] exI [of _ ?fs]) (fastforce simp: pump07_writing_def)
  qed
qed

text \<open>C19: over draft-07 nothing is lost and nothing repeated within a run: the sessions have accepted the
  frames that pass the filter, in order, each once, all of them unless the pump is still writing the last.
  Whenever the process dies, inside a write included, the cursor the next run resumes from has passed
  only frames that were accepted.\<close>

theorem draft07_relays:
  assumes "pump07_loop cfg evs (pump07_start cfg cursor d) = (s, st)"
    and "\<forall>f. Recv (Some f) \<in> snd ` set evs \<longrightarrow> numbers_fit f"
    and "load_initial_cursor d (ccursor_file cfg) cursor < 2 ^ 63"
    and "ccursor_file cfg = Some c" "tmp_name c \<noteq> c"
  shows "\<exists>done rest fs. evs = done @ rest \<and> (st \<noteq> Writing07 \<longrightarrow> rest = []) \<and>
    fs = relayed (load_initial_cursor d (ccursor_file cfg) cursor) done \<and>
    accepted (tpublisher s) = map fraw (if st = Writing07 then butlast fs else fs) \<and>
    (\<forall>f \<in> set fs. \<forall>q. fseq f = Some q \<and> q \<le> tlast_seq (pump07_start cfg cursor (tdisk s)) \<longrightarrow>
      fraw f \<in> set (accepted (tpublisher s)))"
  by (rule draft07_run [OF assms])

text \<open>The signal to stop is only looked for between frames: as long as no session takes the frame, no later
  event is seen, the signal included.\<close>

lemma draft07_ignores_shutdown:
  assumes "fop f \<noteq> - 1" "\<forall>q. fseq f = Some q \<longrightarrow> tlast_seq s < q"
    and "\<not> snd (resilient_write (tries t) (fraw f) (cgroup_size cfg) (tpublisher s))"
  shows "snd (pump07_loop cfg ((t, Recv (Some f)) # rest) s) = Writing07"
  using assms
  by (auto simp: pump07_loop_def pump07_step_def pump07_frame_def relay_frame07_def split: option.split prod.splits bool.splits)

definition config07 :: pump_config where
  "config07 = \<lparr>cgroup_size = 2, cretention = \<lparr>window_secs = 0, max_bytes = 0\<rparr>, ccursor_file = Some ''cursor''\<rparr>"

definition disk07 :: disk where
  "disk07 = \<lparr>files = [], room = None, granted = True\<rparr>"

definition frame07 :: "int \<Rightarrow> bytes \<Rightarrow> frame" where
  "frame07 q raw = \<lparr>fop = 1, ft = None, fseq = Some q, fraw = raw\<rparr>"

text \<open>A frame is written, the cursor persisted, and the next write still fails when the process dies.\<close>

definition events07 :: "(turn07 \<times> pump_event) list" where
  "events07 =
     (let clk = \<lparr>wall_ms = 9, instant = 9\<rparr> in
      [(\<lparr>turn_clock = clk, tries = flaky\<rparr>, Recv (Some (frame07 5 [1]))),
       (\<lparr>turn_clock = clk, tries = []\<rparr>, CursorTick),
       (\<lparr>turn_clock = clk, tries = [(hd flaky)\<lparr>found_dead := True\<rparr>]\<rparr>, Recv (Some (frame07 6 [2])))])"

theorem draft07_relays_witness:
  "\<exists>s done rest fs. pump07_loop config07 events07 (pump07_start config07 None disk07) = (s, Writing07) \<and>
     events07 = done @ rest \<and> fs = relayed (- 1) done \<and> accepted (tpublisher s) = map fraw (butlast fs) \<and>
     tlast_seq (pump07_start config07 None (tdisk s)) = 5"
proof -
  let ?r = "pump07_loop config07 events07 (pump07_start config07 None disk07)"
  have "snd ?r = Writing07" by code_simp
  then have r: "?r = (fst ?r, Writing07)" by (metis prod.collapse)
  have five: "tlast_seq (pump07_start config07 None (tdisk (fst ?r))) = 5" by code_simp
  have small: "\<forall>f. Recv (Some f) \<in> snd ` set events07 \<longrightarrow> numbers_fit f"
    by (auto simp: events07_def Let_def numbers_fit_def frame07_def)
  have "load_initial_cursor disk07 (ccursor_file config07) None = - 1" "ccursor_file config07 = Some ''cursor''"
    "tmp_name ''cursor'' \<noteq> ''cursor''" by code_simp+
  with draft07_relays [OF r small] r five show ?thesis by fastforce
qed

end
