(* ===== verification/Web.thy ===== *)
theory Web
  imports State_Lemmas Metrics
begin

text \<open>
  The HTTP frontends (\<open>rust/crates/atmoq/src/web.rs\<close>): reading one request head, the redirect, the
  landing page, and the admin routes with the health check. Text is bytes, one character each. What
  a connection delivers is a list of reads, \<open>None\<close> for a timeout or an error and the empty read for
  its end. The build's version, the one-decimal rendering of seconds (\<open>f64\<close>) and the heap dump are
  parameters. Sockets and TLS are left out.
\<close>

section \<open>Reading a request\<close>

text \<open>\<open>String::from_utf8_lossy\<close>: each maximal prefix of a character that is not completed becomes
  U+FFFD.\<close>

definition replacement :: bytes where
  "replacement = [0xEF, 0xBF, 0xBD]"

text \<open>How many bytes a lead byte asks for, how many of them follow, and the first character: complete of
  so many bytes, or so many bytes to replace.\<close>

definition needed :: "u8 \<Rightarrow> nat" where
  "needed b =
     (if in_range 0xC2 0xDF b then 1 else if in_range 0xE0 0xEF b then 2 else if in_range 0xF0 0xF4 b then 3 else 0)"

definition follow :: "u8 \<Rightarrow> bytes \<Rightarrow> nat" where
  "follow b bs =
     (case bs of
        [] \<Rightarrow> 0
      | c # r \<Rightarrow>
          if 0 < needed b \<and> second_ok b c
          then Suc (length (takeWhile cont_byte (take (needed b - 1) r))) else 0)"

definition first_char :: "u8 \<Rightarrow> bytes \<Rightarrow> nat + nat" where
  "first_char b bs =
     (if b < 0x80 then Inr 1
      else if 0 < needed b \<and> follow b bs = needed b then Inr (Suc (needed b))
      else Inl (Suc (follow b bs)))"

function lossy :: "bytes \<Rightarrow> bytes" where
  "lossy [] = []"
| "lossy (b # bs) =
     (case first_char b bs of
        Inr n \<Rightarrow> take n (b # bs) @ lossy (drop n (b # bs))
      | Inl n \<Rightarrow> replacement @ lossy (drop n (b # bs)))"
  by pat_completeness auto
termination
  by (relation "measure length") (auto simp: first_char_def split: if_splits)

text \<open>The buffer holds 4096 bytes; reading stops at an empty line or when it is full.\<close>

definition BUFFER :: nat where
  "BUFFER = 4096"

fun has_blank_line :: "bytes \<Rightarrow> bool" where
  "has_blank_line [] = False"
| "has_blank_line (b # bs) = (take 4 (b # bs) = [13, 10, 13, 10] \<or> has_blank_line bs)"

fun read_head :: "bytes option list \<Rightarrow> bytes \<Rightarrow> bytes option" where
  "read_head [] buf = None"
| "read_head (None # reads) buf = None"
| "read_head (Some chunk # reads) buf =
     (if chunk = [] then None
      else
        let buf = buf @ take (BUFFER - length buf) chunk in
        if has_blank_line buf \<or> length buf = BUFFER then Some buf else read_head reads buf)"

text \<open>\<open>str::lines\<close>: split at newlines, without a final empty line and without a carriage return at the
  end of a line.\<close>

definition strip_cr :: "bytes \<Rightarrow> bytes" where
  "strip_cr l = (if l \<noteq> [] \<and> last l = 13 then butlast l else l)"

fun split_lines :: "bytes \<Rightarrow> bytes \<Rightarrow> bytes list" where
  "split_lines acc [] = (if acc = [] then [] else [acc])"
| "split_lines acc (b # bs) = (if b = 10 then strip_cr acc # split_lines [] bs else split_lines (acc @ [b]) bs)"

text \<open>\<open>str::split_whitespace\<close>: the first word and the rest.\<close>

fun until_space :: "bytes \<Rightarrow> bytes \<times> bytes" where
  "until_space [] = ([], [])"
| "until_space (b # bs) =
     (if \<exists>p \<in> set white_space. is_prefix p (b # bs) then ([], b # bs)
      else (case until_space bs of (w, r) \<Rightarrow> (b # w, r)))"

definition next_word :: "bytes \<Rightarrow> (bytes \<times> bytes) option" where
  "next_word bs = (let s = strip white_space bs in if s = [] then None else Some (until_space s))"

text \<open>\<open>str::split_once(':')\<close>, and \<open>eq_ignore_ascii_case\<close>.\<close>

definition split_colon :: "bytes \<Rightarrow> (bytes \<times> bytes) option" where
  "split_colon l =
     (case dropWhile (\<lambda>b. b \<noteq> 58) l of [] \<Rightarrow> None | _ # v \<Rightarrow> Some (takeWhile (\<lambda>b. b \<noteq> 58) l, v))"

definition ascii_lower :: "u8 \<Rightarrow> u8" where
  "ascii_lower b = (if 65 \<le> b \<and> b \<le> 90 then b + 32 else b)"

fun host_header :: "bytes list \<Rightarrow> bytes option" where
  "host_header [] = None"
| "host_header (l # ls) =
     (case split_colon l of
        Some (k, v) \<Rightarrow> if map ascii_lower k = of_text ''host'' then Some (trim v) else host_header ls
      | None \<Rightarrow> host_header ls)"

definition parse_head :: "bytes \<Rightarrow> (string \<times> string option) option" where
  "parse_head buf =
     (case split_lines [] (lossy buf) of
        [] \<Rightarrow> None
      | request_line # headers \<Rightarrow>
          (case next_word request_line of
             None \<Rightarrow> None
           | Some (_, rest) \<Rightarrow>
               Some (case next_word rest of None \<Rightarrow> ''/'' | Some (path, _) \<Rightarrow> to_text path,
                     map_option to_text (host_header headers))))"

definition read_request :: "bytes option list \<Rightarrow> (string \<times> string option) option" where
  "read_request reads = Option.bind (read_head reads []) parse_head"

section \<open>Responses\<close>

definition crlf :: string where
  "crlf = [CHR 0x0D, CHR 0x0A]"

definition response :: "string \<Rightarrow> string \<Rightarrow> string \<Rightarrow> string" where
  "response status content_type body =
     ''HTTP/1.1 '' @ status @ crlf @ ''Content-Type: '' @ content_type @ crlf @
     ''Content-Length: '' @ dec (length body) @ crlf @ ''Connection: close'' @ crlf @ crlf @ body"

definition before_char :: "char \<Rightarrow> string \<Rightarrow> string" where
  "before_char c s = takeWhile (\<lambda>x. x \<noteq> c) s"

definition redirect_response :: "string \<Rightarrow> bytes option list \<Rightarrow> string option" where
  "redirect_response fallback reads =
     map_option (\<lambda>(path, host).
       let host = before_char CHR '':'' (case host of None \<Rightarrow> fallback | Some h \<Rightarrow> h) in
       ''HTTP/1.1 301 Moved Permanently'' @ crlf @ ''Location: https://'' @ host @ path @ crlf @
       ''Content-Length: 0'' @ crlf @ ''Connection: close'' @ crlf @ crlf) (read_request reads)"

text \<open>The banner, with its backslashes and quotes written as \<open>@\<close> and \<open>~\<close>.\<close>

definition glyph :: "char \<Rightarrow> char" where
  "glyph c = (if c = CHR ''@'' then CHR 0x5C else if c = CHR ''~'' then CHR 0x27 else c)"

definition BANNER :: string where
  "BANNER = concat (map (\<lambda>l. map glyph l @ newline)
     [''        _'',
      ''   __ _| |_ _ __ ___   ___   __ _'',
      ''  / _` | __| ~_ ` _ @ / _ @ / _` |'',
      '' | (_| | |_| | | | | | (_) | (_| |'',
      ''  @__,_|@__|_| |_| |_|@___/ @__, |'',
      ''                               |_|''])"

definition landing_page :: "string \<Rightarrow> string \<Rightarrow> string \<Rightarrow> string \<Rightarrow> string" where
  "landing_page version host broadcast track =
     BANNER @ newline @ concat (map (\<lambda>l. l @ newline)
       [''This is an atproto [https://atproto.com] relay,'',
        map glyph ''running the ~atmoq~ codebase [https://github.com/streamplace/atmoq] v'' @ version @ '','',
        ''serving the firehose over MoQ [https://moq.dev].'',
        '''',
        ''The firehose MoQ broadcast is at:'',
        '''',
        ''url:       https://'' @ host,
        ''broadcast: '' @ broadcast,
        ''track:     '' @ track,
        '''',
        ''Consume it with:'',
        '''',
        ''cargo install atmoq'',
        ''atmoq firehose --moq-host https://'' @ host])"

definition landing_response :: "string \<Rightarrow> bytes option list \<Rightarrow> string option" where
  "landing_response page reads =
     map_option (\<lambda>_. response ''200 OK'' ''text/plain; charset=utf-8'' page) (read_request reads)"

section \<open>The admin routes\<close>

definition HEALTH_STALE_AFTER :: nat where
  "HEALTH_STALE_AFTER = 60000"

definition plain_text :: string where
  "plain_text = ''text/plain; charset=utf-8''"

definition health :: "(u64 \<Rightarrow> string) \<Rightarrow> u64 \<Rightarrow> metrics \<Rightarrow> string \<times> string" where
  "health seconds now_ms m =
     (case frame_age_ms now_ms m of
        None \<Rightarrow> (''200 OK'', ''ok: starting, no frames relayed yet'' @ newline)
      | Some age \<Rightarrow>
          if HEALTH_STALE_AFTER < unat age then
            (''503 Service Unavailable'',
             ''unhealthy: no frame relayed for '' @ seconds age @ ''s (threshold '' @
             dec (HEALTH_STALE_AFTER div 1000) @ ''s)'' @ newline)
          else
            (''200 OK'', ''ok: last frame '' @ seconds age @ ''s ago, '' @ dec (unat (subscribers_live m)) @
             '' subscribers'' @ newline))"

definition admin_route :: "(u64 \<Rightarrow> string) \<Rightarrow> outside \<Rightarrow> (string + string) \<Rightarrow> u64 \<Rightarrow> string \<Rightarrow> metrics \<Rightarrow>
    string \<times> string \<times> string" where
  "admin_route seconds out heap now_ms path m =
     (if path = ''/metrics'' then
        (''200 OK'', ''text/plain; version=0.0.4; charset=utf-8'', encode out now_ms m)
      else if path = ''/healthz'' then
        (case health seconds now_ms m of (status, body) \<Rightarrow> (status, plain_text, body))
      else if path = ''/debug/heap'' then
        (case heap of
           Inr profile \<Rightarrow> (''200 OK'', plain_text, profile)
         | Inl e \<Rightarrow> (''501 Not Implemented'', plain_text, e @ newline))
      else
        (''404 Not Found'', plain_text,
         ''not found'' @ newline @ newline @ ''available: /metrics /healthz /debug/heap'' @ newline))"

definition admin_response :: "(u64 \<Rightarrow> string) \<Rightarrow> outside \<Rightarrow> (string + string) \<Rightarrow> u64 \<Rightarrow> metrics \<Rightarrow> bytes option list \<Rightarrow>
    string option" where
  "admin_response seconds out heap now_ms m reads =
     map_option (\<lambda>(path, _).
       case admin_route seconds out heap now_ms (before_char CHR ''?'' path) m of
         (status, content_type, body) \<Rightarrow> response status content_type body) (read_request reads)"

end
