(* ===== verification/Relay_Start.thy ===== *)
theory Relay_Start
  imports Pump_Properties Pump07 Web
begin

text \<open>
  The commands \<open>relay\<close> and \<open>serve\<close> (\<open>rust/crates/atmoq/src/main.rs\<close>) up to their main loop: the track,
  the publisher, the router and the cursor are set up from the arguments and handed to the pump; the
  listeners are started beside it; subscriber sessions are counted. Parsing a socket address is the
  standard library's and a parameter.
\<close>

section \<open>Setting up\<close>

text \<open>The arguments the two commands share, those each has of its own, and the defaults. The
  configuration of the MoQ client and server is \<open>moq-native\<close>'s; of the server only the certificate and
  key files are used here. The store directory is the directory value the model runs on.\<close>

record start_args =
  a_relay_host :: string
  a_broadcast :: string
  a_track :: string
  a_group_size :: nat
  a_replay_window_secs :: u64
  a_cursor :: "int option"
  a_cursor_file :: "string option"
  a_group_seq_file :: "string option"
  a_group_store_dir :: string
  a_backfill_window_secs :: u64
  a_max_did_tracks :: nat
  a_max_store_bytes :: u64
  a_metrics_bind :: string

record relay_args = start_args +
  a_moq_host :: string
  a_ietf07 :: bool

record serve_args = start_args +
  a_host :: string
  a_web_bind :: string
  a_web_tls_bind :: string

definition start_defaults :: start_args where
  "start_defaults =
     \<lparr>a_relay_host = ''wss://bsky.network'', a_broadcast = ''atproto'', a_track = ''atproto'',
      a_group_size = 64, a_replay_window_secs = 60, a_cursor = None, a_cursor_file = None,
      a_group_seq_file = None, a_group_store_dir = ''data/atmoq/store'', a_backfill_window_secs = 259200,
      a_max_did_tracks = 10000, a_max_store_bytes = 0, a_metrics_bind = ''127.0.0.1:9464''\<rparr>"

definition relay_defaults :: "string \<Rightarrow> relay_args" where
  "relay_defaults moq_host = start_args.extend start_defaults \<lparr>a_moq_host = moq_host, a_ietf07 = False\<rparr>"

definition serve_defaults :: serve_args where
  "serve_defaults =
     start_args.extend start_defaults \<lparr>a_host = ''localhost'', a_web_bind = ''[::]:80'', a_web_tls_bind = ''[::]:443''\<rparr>"

definition config_of :: "'x start_args_scheme \<Rightarrow> pump_config" where
  "config_of a =
     \<lparr>cgroup_size = a_group_size a,
      cretention = \<lparr>window_secs = a_backfill_window_secs a, max_bytes = a_max_store_bytes a\<rparr>,
      ccursor_file = a_cursor_file a\<rparr>"

definition start_relay :: "u64 \<Rightarrow> (u64 \<Rightarrow> nat) \<Rightarrow> nat \<Rightarrow> 'x start_args_scheme \<Rightarrow> disk \<Rightarrow> disk \<times> (relay_error + pump_state)" where
  "start_relay now_ms reload_now now a d =
     (case apply_replay_window (a_replay_window_secs a) track_new of
        Inl e \<Rightarrow> (d, Inl (Moq e))
      | Inr tr \<Rightarrow>
          (case build_lite_publisher now_ms reload_now now tr (a_group_seq_file a) (a_replay_window_secs a)
                  metrics_default d of
             (d, Inl e) \<Rightarrow> (d, Inl e)
           | (d, Inr p) \<Rightarrow>
               (d, Inr (pump_start (config_of a) (a_cursor a) d p
                     (Some (spawn_router (a_group_size a) (a_replay_window_secs a) (a_max_did_tracks a)))))))"

text \<open>Over draft-07 there is no track, no store and no router; nothing is read but the cursor.\<close>

definition start_relay07 :: "'x start_args_scheme \<Rightarrow> disk \<Rightarrow> pump07_state" where
  "start_relay07 a d = pump07_start (config_of a) (a_cursor a) d"

datatype relaying = Relaying pump_state | Relaying07 pump07_state

definition relay_command :: "u64 \<Rightarrow> (u64 \<Rightarrow> nat) \<Rightarrow> nat \<Rightarrow> relay_args \<Rightarrow> disk \<Rightarrow> disk \<times> (relay_error + relaying)" where
  "relay_command now_ms reload_now now a d =
     (if a_ietf07 a then (d, Inr (Relaying07 (start_relay07 a d)))
      else case start_relay now_ms reload_now now a d of
        (d, Inl e) \<Rightarrow> (d, Inl e)
      | (d, Inr s) \<Rightarrow> (d, Inr (Relaying s)))"

section \<open>Listeners\<close>

definition admin_listener :: "(string \<Rightarrow> 'addr option) \<Rightarrow> string \<Rightarrow> 'addr option" where
  "admin_listener parse_addr bind = (if bind = '''' then None else parse_addr bind)"

text \<open>The redirect's address with the host it falls back to, and the landing page's address, its
  certificate, key and page.\<close>

definition web_listeners :: "(string \<Rightarrow> 'addr option) \<Rightarrow> string list \<Rightarrow> string list \<Rightarrow> string \<Rightarrow> serve_args \<Rightarrow>
    ('addr \<times> string) option \<times> ('addr \<times> string \<times> string \<times> string) option" where
  "web_listeners parse_addr certs keys version a =
     (map_option (\<lambda>addr. (addr, a_host a)) (parse_addr (a_web_bind a)),
      case parse_addr (a_web_tls_bind a) of
        None \<Rightarrow> None
      | Some addr \<Rightarrow>
          (case (certs, keys) of
             (cert # _, key # _) \<Rightarrow>
               Some (addr, cert, key, landing_page version (a_host a) (a_broadcast a) (a_track a))
           | _ \<Rightarrow> None))"

section \<open>Subscriber sessions\<close>

datatype session_event = SessionAccepted | SessionEnded | SessionRejected

definition session_step :: "session_event \<Rightarrow> metrics \<Rightarrow> metrics" where
  "session_step ev m =
     (case ev of
        SessionAccepted \<Rightarrow> m\<lparr>m_subscribers_connected_total := m_subscribers_connected_total m + 1\<rparr>
      | SessionEnded \<Rightarrow> m\<lparr>m_subscribers_disconnected_total := m_subscribers_disconnected_total m + 1\<rparr>
      | SessionRejected \<Rightarrow> m\<lparr>m_subscribers_rejected_total := m_subscribers_rejected_total m + 1\<rparr>)"

text \<open>The sessions open after a run of events: a session ends once, after it was accepted.\<close>

fun open_sessions :: "nat \<Rightarrow> session_event list \<Rightarrow> nat option" where
  "open_sessions n [] = Some n"
| "open_sessions n (SessionAccepted # evs) = open_sessions (Suc n) evs"
| "open_sessions n (SessionEnded # evs) = (case n of 0 \<Rightarrow> None | Suc k \<Rightarrow> open_sessions k evs)"
| "open_sessions n (SessionRejected # evs) = open_sessions n evs"

section \<open>What they promise\<close>

lemma build_empty:
  "build_lite_publisher now_ms rnow now tr cfg w m d = (d', Inr p) \<Longrightarrow> pcount p = 0 \<and> pframes p = []"
  by (auto simp: build_lite_publisher_def Let_def split: prod.splits sum.splits)

lemma start_relay_run:
  assumes "relay_run cfg d None sent" "load_group_seq d (default_seq_file cfg) \<noteq> Some (-1)"
    and "a_group_seq_file a = cfg" "good_cursor cfg (config_of a)" "(4 + maxlen) * max 1 (a_group_size a) < 2 ^ 32"
    and "start_relay now_ms reload_now now a d = (d', res)"
  shows "\<exists>s. res = Inr s \<and> sdisk s = d' \<and> pump_ok cfg (config_of a) maxlen s sent \<and>
    slast_seq s = load_initial_cursor d' (a_cursor_file a) (a_cursor a) \<and>
    (\<forall>q. sent q \<noteq> [] \<longrightarrow> q < hseq (pgroup (spublisher s)))"
proof -
  obtain tr :: "store_source track" where w: "apply_replay_window (a_replay_window_secs a) track_new = Inr tr"
    by (cases "apply_replay_window (a_replay_window_secs a) (track_new :: store_source track)")
      (auto simp: apply_replay_window_def set_max_group_age_def track_modify_def track_new_def split: if_splits)
  have seq: "load_group_seq d (Some (seq_name cfg)) \<noteq> Some (-1)" using assms(2) by simp
  from build_ok [OF relay_down [OF assms(1), THEN conjunct2] relay_down [OF assms(1), THEN conjunct1] refl seq w,
      of now_ms reload_now now "a_replay_window_secs a" metrics_default] obtain d2 p where
    b: "build_lite_publisher now_ms reload_now now tr cfg (a_replay_window_secs a) metrics_default d =
      (persist_group_seq (Some (seq_name cfg)) (hseq (pgroup p)) d2, Inr p)"
    and fresh: "\<And>q. sent q \<noteq> [] \<Longrightarrow> q < hseq (pgroup p)" by metis
  note run = relay_run.boot [OF assms(1,2) w b]
  have "pcount p = 0 \<and> pframes p = []" by (rule build_empty [OF b])
  then show ?thesis using assms(3-6) w b run fresh
    by (auto simp: start_relay_def pump_start_def pump_ok_def group_fits_def config_of_def)
qed

text \<open>C13: a start brings up a relay: from whatever is left on disk by lives that had all their writes taken
  while they were up and ended by a stop, a kill or inside a write (not the first one to a new segment file
  behind older ones), as long as the group numbers are not used up, the cursor file is none of the store's
  and the frames of a group fit the store's 32-bit counts, the command reaches the main loop in a state in
  which everything proved of the pump holds, with a group number above all used and the persisted cursor.\<close>

theorem start_relay_ok:
  assumes "relay_run cfg d None sent" "load_group_seq d (default_seq_file cfg) \<noteq> Some (-1)"
    and "a_group_seq_file a = cfg" "good_cursor cfg (config_of a)" "(4 + maxlen) * max 1 (a_group_size a) < 2 ^ 32"
    and "start_relay now_ms reload_now now a d = (d', res)"
  shows "\<exists>s. res = Inr s \<and> sdisk s = d' \<and> pump_ok cfg (config_of a) maxlen s sent \<and>
    slast_seq s = load_initial_cursor d' (a_cursor_file a) (a_cursor a) \<and>
    (\<forall>q. sent q \<noteq> [] \<longrightarrow> q < hseq (pgroup (spublisher s)))"
  by (rule start_relay_run [OF assms])

text \<open>With either dialect the command resumes from the persisted cursor, and draft-07 leaves the directory
  as it is.\<close>

lemma relay_resumes:
  assumes "relay_command now_ms reload_now now a d = (d', Inr r)"
  shows "(case r of Relaying s \<Rightarrow> slast_seq s | Relaying07 s \<Rightarrow> tlast_seq s) =
    load_initial_cursor d' (a_cursor_file a) (a_cursor a)" and "a_ietf07 a \<Longrightarrow> d' = d"
  using assms
  by (auto simp: relay_command_def start_relay_def start_relay07_def pump_start_def pump07_start_def config_of_def
      split: if_splits sum.splits prod.splits)

text \<open>The command with its defaults, on what the second sample run left behind.\<close>

definition default_args :: relay_args where
  "default_args = (relay_defaults ''https://moq'')\<lparr>a_cursor_file := Some ''cursor'', a_cursor := Some 41\<rparr>"

theorem start_relay_ok_witness:
  "case snd (start_relay 2000 (\<lambda>_. 9) 9 default_args (fst relay2)) of
     Inr s \<Rightarrow> 0 < hseq (pgroup (spublisher s)) | Inl _ \<Rightarrow> False"
proof -
  have k: "relay_run None (fst relay2) None sent2" by (rule relay_run.kill [OF relay2_run])
  have l: "load_group_seq (fst relay2) (default_seq_file None) \<noteq> Some (-1)" by code_simp
  have "good_file ''cursor'' \<and> tmp_name ''cursor'' \<noteq> ''group_seq''" by code_simp
  then have c: "a_group_seq_file default_args = None" "good_cursor None (config_of default_args)"
    "(4 + 0x1000000) * max 1 (a_group_size default_args) < (2 :: nat) ^ 32"
    by (simp_all add: default_args_def relay_defaults_def start_defaults_def start_args.extend_def
        config_of_def good_cursor_def seq_name_def)
  from start_relay_ok [OF k l c surjective_pairing, of 2000 "\<lambda>_. 9" 9] obtain s where
    "snd (start_relay 2000 (\<lambda>_. 9) 9 default_args (fst relay2)) = Inr s"
    "\<forall>q. sent2 q \<noteq> [] \<longrightarrow> q < hseq (pgroup (spublisher s))" by blast
  then show ?thesis by (simp add: sent2_def)
qed

text \<open>the gauge of live subscribers is exact: accepted less ended sessions, whatever the order in
  which sessions come, go and are rejected.\<close>

theorem subscribers_live_exact:
  assumes "open_sessions 0 evs = Some n" "length evs < 2 ^ 64"
  shows "unat (subscribers_live (fold session_step evs metrics_default)) = n"
proof -
  have "unat (m_subscribers_connected_total (fold session_step evs m)) =
      unat (m_subscribers_disconnected_total (fold session_step evs m)) + n"
    if "open_sessions k evs = Some n" "unat (m_subscribers_connected_total m) = unat (m_subscribers_disconnected_total m) + k"
      "unat (m_subscribers_connected_total m) + length evs < 2 ^ 64" for m k
    using that
  proof (induction k evs arbitrary: m rule: open_sessions.induct)
    case (2 k evs)
    have "unat (m_subscribers_connected_total m + 1) = Suc (unat (m_subscribers_connected_total m))"
      using "2.prems"(3) by (simp add: unat_word_ariths)
    then show ?case using 2 by (simp add: session_step_def)
  next
    case (3 k evs)
    then obtain j where k: "k = Suc j" by (cases k) auto
    have "unat (m_subscribers_disconnected_total m + 1) = Suc (unat (m_subscribers_disconnected_total m))"
      using "3.prems"(2,3) k by (simp add: unat_word_ariths)
    then show ?case using 3 k by (simp add: session_step_def)
  qed (simp_all add: session_step_def)
  from this [of 0 metrics_default] show ?thesis
    using assms by (simp add: subscribers_live_def unat_sat_sub metrics_default_def)
qed

theorem subscribers_live_exact_witness:
  "unat (subscribers_live (fold session_step
     [SessionAccepted, SessionRejected, SessionAccepted, SessionEnded] metrics_default)) = 1"
  by (rule subscribers_live_exact) simp_all

end
