(* ===== verification/Upstream.thy ===== *)
theory Upstream
  imports End_To_End
begin

text \<open>
  Upstream as a run sees it: a list of messages, all of them numbered, that a subscription takes up behind a
  cursor, and what a run relays of them. A cursor between two runs cuts that list.
\<close>

section \<open>Messages behind a cursor\<close>

text \<open>All that upstream has: numbered messages in order. Asked to resume from a cursor it sends those above it,
  as far as it gets.\<close>

definition upstream_ok :: "cbor_reader \<Rightarrow> nat \<Rightarrow> frame list \<Rightarrow> bool" where
  "upstream_ok cbor maxlen us \<longleftrightarrow> sorted_wrt (<) (seqs_of us) \<and>
     (\<forall>f \<in> set us. parse cbor (fraw f) = Inr f \<and> fseq f \<noteq> None \<and> numbers_fit f \<and> fop f \<noteq> - 1 \<and> length (fraw f) \<le> maxlen)"

definition number :: "frame \<Rightarrow> int" where
  "number f = (case fseq f of Some q \<Rightarrow> q | None \<Rightarrow> 0)"

definition above :: "int \<Rightarrow> frame list \<Rightarrow> frame list" where
  "above low us = filter (\<lambda>f. low < number f) us"

definition fed :: "int \<Rightarrow> frame list \<Rightarrow> ('c \<times> pump_event) list \<Rightarrow> nat \<Rightarrow> bool" where
  "fed low us evs n \<longleftrightarrow> received evs = take n (above low us) \<and>
     (\<forall>ev \<in> snd ` set evs. ev \<noteq> Recv None \<and> ev \<noteq> ShutdownSignal)"

text \<open>How many of the frames a cursor has passed.\<close>

definition passed :: "int \<Rightarrow> frame list \<Rightarrow> nat" where
  "passed cursor fs = length (takeWhile (\<lambda>f. number f \<le> cursor) fs)"

lemma seqs_numbers: "\<forall>f \<in> set fs. fseq f \<noteq> None \<Longrightarrow> seqs_of fs = map number fs"
  by (induction fs) (auto simp: number_def split: option.split)

lemma received_mem: "Recv (Some f) \<in> snd ` set evs \<longleftrightarrow> f \<in> set (received evs)"
  by (induction evs) (auto simp: received_def List.map_filter_simps split: pump_event.splits option.splits)

lemma above_facts:
  assumes "upstream_ok cbor maxlen us"
  shows "f \<in> set (above low us) \<Longrightarrow> low < number f \<and> parse cbor (fraw f) = Inr f \<and> fseq f \<noteq> None \<and> numbers_fit f \<and>
      fop f \<noteq> - 1 \<and> length (fraw f) \<le> maxlen"
    and "sorted_wrt (<) (low # map number (above low us))"
proof -
  show "f \<in> set (above low us) \<Longrightarrow> low < number f \<and> parse cbor (fraw f) = Inr f \<and> fseq f \<noteq> None \<and> numbers_fit f \<and>
      fop f \<noteq> - 1 \<and> length (fraw f) \<le> maxlen"
    using assms by (auto simp: above_def upstream_ok_def)
  have "sorted_wrt (<) (map number us)" using assms seqs_numbers [of us] by (auto simp: upstream_ok_def)
  then have "sorted_wrt (<) (map number (above low us))" by (simp add: above_def sorted_wrt_map sorted_wrt_filter)
  then show "sorted_wrt (<) (low # map number (above low us))" by (auto simp: above_def)
qed

lemma take_sorted: "sorted_wrt P (x # xs) \<Longrightarrow> sorted_wrt P (x # take n xs)"
  by (auto simp: sorted_wrt_take dest: in_set_takeD)

lemma above_numbered:
  assumes "upstream_ok cbor maxlen us" "i64_min \<le> low"
  shows "numbered cbor (filter (has_number cbor) (map fraw (above low us)))"
    and "\<forall>x \<in> set (map fraw (above low us)). has_number cbor x"
    and "raw \<in> set (map fraw (above low us)) \<Longrightarrow> \<exists>f. parse cbor raw = Inr f"
proof -
  note a = above_facts [OF assms(1), where low = low]
  have "sorted_wrt (<) (low # seqs_of (above low us))" using a seqs_numbers [of "above low us"] by auto
  from relayed_numbered [OF this assms(2)] a(1) show "numbered cbor (filter (has_number cbor) (map fraw (above low us)))" by blast
  have "has_number cbor (fraw f)" if "f \<in> set (above low us)" for f
    using a(1) [OF that] parse_frame_seq [of cbor "fraw f" f] by (simp add: has_number_def)
  then show "\<forall>x \<in> set (map fraw (above low us)). has_number cbor x" by simp
  show "raw \<in> set (map fraw (above low us)) \<Longrightarrow> \<exists>f. parse cbor raw = Inr f" using a(1) by auto
qed

text \<open>What a run relays that is fed by upstream.\<close>

lemma fed_relayed:
  assumes "upstream_ok cbor maxlen us" "fed low us evs n"
  shows "relayed low evs = take n (above low us)"
    and "Recv (Some f) \<in> snd ` set evs \<Longrightarrow> length (fraw f) \<le> maxlen \<and> numbers_fit f"
proof -
  note a = above_facts [OF assms(1), where low = low]
  have rec: "received evs = take n (above low us)" using assms(2) by (simp add: fed_def)
  have mem: "f \<in> set (above low us)" if "Recv (Some f) \<in> snd ` set evs" for f
    using that unfolding received_mem rec by (rule in_set_takeD)
  then show "Recv (Some f) \<in> snd ` set evs \<Longrightarrow> length (fraw f) \<le> maxlen \<and> numbers_fit f" using a(1) by blast
  have "\<forall>f \<in> set (take n (above low us)). fseq f \<noteq> None" using a(1) by (blast dest: in_set_takeD)
  then have "seqs_of (take n (above low us)) = map number (take n (above low us))" by (rule seqs_numbers)
  then have "sorted_wrt (<) (low # seqs_of (received evs))"
    using take_sorted [OF a(2), of n] by (simp add: rec take_map)
  then show "relayed low evs = take n (above low us)"
    unfolding rec [symmetric] using assms(2) mem a(1) by (intro relayed_all) (auto simp: fed_def)
qed

text \<open>A cursor at or above \<open>low\<close> cuts the frames above \<open>low\<close>; it has not passed a frame with a higher number.\<close>

lemma above_cut:
  assumes "upstream_ok cbor maxlen us" "low \<le> cursor"
  shows "above cursor us = drop (passed cursor (above low us)) (above low us)"
proof -
  have "filter (\<lambda>f. cursor < number f) fs = dropWhile (\<lambda>f. number f \<le> cursor) fs" if "sorted_wrt (<) (map number fs)" for fs
    using that
  proof (induction fs)
    case (Cons f fs)
    then have "cursor < number f \<Longrightarrow> filter (\<lambda>f. cursor < number f) fs = fs" by (intro filter_True) fastforce
    then show ?case using Cons by auto
  qed simp
  moreover have "sorted_wrt (<) (map number (above low us))" using above_facts(2) [OF assms(1), where low = low] by simp
  moreover have "above cursor us = filter (\<lambda>f. cursor < number f) (above low us)"
    using assms(2) by (auto simp: above_def intro!: filter_cong)
  ultimately show ?thesis by (simp add: passed_def dropWhile_eq_drop)
qed

lemma passed_le:
  assumes "n < length fs \<Longrightarrow> cursor < number (fs ! n)"
  shows "passed cursor fs \<le> n"
proof (rule ccontr)
  assume "\<not> passed cursor fs \<le> n"
  then have n: "n < length (takeWhile (\<lambda>f. number f \<le> cursor) fs)" by (simp add: passed_def)
  then have "n < length fs" using length_takeWhile_le [of "\<lambda>f. number f \<le> cursor" fs] by simp
  moreover have "number (fs ! n) \<le> cursor" using nth_mem [OF n] takeWhile_nth [OF n] set_takeWhileD by fastforce
  ultimately show False using assms by simp
qed

lemma passed_high_water:
  assumes "upstream_ok cbor maxlen us" "cursor \<le> high_water low (map number (take n (above low us)))"
  shows "passed cursor (above low us) \<le> n"
proof (rule passed_le)
  let ?fs = "above low us"
  have sorted: "sorted_wrt (<) (map number ?fs)" "\<And>f. f \<in> set ?fs \<Longrightarrow> low < number f"
    using above_facts [OF assms(1), where low = low] by auto
  assume len: "n < length ?fs"
  have "high_water low (map number (take n ?fs)) < number (?fs ! n)"
  proof (cases n)
    case 0
    then show ?thesis using sorted(2) [of "?fs ! n"] len by simp
  next
    case (Suc m)
    then have "last (take n ?fs) = ?fs ! m" using len by (simp add: take_Suc_conv_app_nth)
    moreover have "number (?fs ! m) < number (?fs ! n)"
      using sorted_wrt_nth_less [OF sorted(1), of m n] Suc len by simp
    moreover have "?fs \<noteq> []" using len by auto
    ultimately show ?thesis using Suc len by (simp add: high_water_def last_map)
  qed
  then show "cursor < number (?fs ! n)" using assms(2) by simp
qed

lemma fed_prefix:
  assumes "fed low us (evs @ rest) n"
  shows "\<exists>j \<le> n. fed low us evs j"
proof -
  have "received evs @ received rest = take n (above low us)"
    using assms by (simp add: fed_def received_def List.map_filter_def)
  then have "received evs = take (min n (length (received evs))) (above low us)"
    by (metis append_eq_conv_conj min.commute take_take)
  then show ?thesis using assms by (intro exI [of _ "min n (length (received evs))"]) (simp add: fed_def)
qed

lemma relayed_append:
  assumes "\<forall>ev \<in> snd ` set evs. ev \<noteq> Recv None \<and> ev \<noteq> ShutdownSignal"
  shows "relayed low (evs @ es) = relayed low evs @ relayed (high_water low (seqs_of (relayed low evs))) es"
  using assms
proof (induction evs arbitrary: low)
  case (Cons e evs)
  obtain c ev where e: "e = (c, ev)" by (cases e)
  have ev: "ev \<noteq> Recv None" "ev \<noteq> ShutdownSignal" using Cons.prems by (simp_all add: e)
  show ?case using Cons.IH Cons.prems
    by (simp add: e relayed_Cons [OF ev, of low c "evs @ es"] relayed_Cons [OF ev, of low c evs] high_water_append
        del: relayed.simps)
qed simp

text \<open>An upstream of three frames.\<close>

definition info :: "int \<Rightarrow> frame" where
  "info q = \<lparr>fop = 1, ft = Some ''#info'', fseq = Some q, fraw = [0xA0, word_of_int q]\<rparr>"

definition upstream3 :: "frame list" where
  "upstream3 = [info 5, info 6, info 7]"

lemma upstream3_ok: "upstream_ok seq_cbor 8 upstream3"
  by (simp add: upstream_ok_def upstream3_def info_def three_parse numbers_fit_def)

lemma upstream3_raw: "map fraw upstream3 = three"
  by (simp add: upstream3_def info_def three_def)

end
