(* ===== verification/Restart.thy ===== *)
theory Restart
  imports Torn_Turn Relay_Start Upstream
begin

text \<open>
  End to end over a death: the relay dies inside a turn, at any byte of what that turn writes, is started
  again on what it left behind, and upstream takes up behind the cursor it asks for. A consumer that reads
  both lives without a gap delivers every frame once.
\<close>

section \<open>Two lives\<close>

lemma start_same:
  assumes "relay_run cfg d None sent" "foreign_file cfg c" "a_group_seq_file a = cfg"
    and "start_relay now_ms rnow now a d = (d', Inr s)"
  shows "same_at c d d'"
proof -
  from relay_down [OF assms(1)] obtain fs b where fs: "on_disk d fs b" by (auto simp: down_ok_def)
  from assms(4) obtain tr p where
    "build_lite_publisher now_ms rnow now tr cfg (a_replay_window_secs a) metrics_default d = (d', Inr p)"
    by (auto simp: start_relay_def assms(3) split: sum.splits prod.splits)
  from boot_same [OF fs assms(2) this] show ?thesis .
qed

text \<open>Reading all groups in order does not depend on where the numbers end, if nothing lies beyond.\<close>

lemma stream_to_all:
  assumes "\<And>q. sent q \<noteq> [] \<Longrightarrow> unat q < n" "n \<le> m" "m \<le> 2 ^ 64"
  shows "stream_to m sent = stream_to n sent"
proof -
  have "sent (word_of_nat i) = []" if "i \<in> set [n..<m]" for i
  proof (rule ccontr)
    assume "sent (word_of_nat i) \<noteq> []"
    moreover have "unat (word_of_nat i :: u64) = i" using that assms(3) by (simp add: unat_of_nat)
    ultimately show False using assms(1) [of "word_of_nat i"] that by simp
  qed
  then have "concat (map (\<lambda>i. sent (word_of_nat i)) [n..<m]) = []" by simp
  moreover have "[0..<m] = [0..<n] @ [n..<m]" using assms(2) upt_add_eq_append [of 0 n "m - n"] by simp
  ultimately show ?thesis by (simp add: stream_to_def)
qed

lemma stream_of_later:
  assumes "\<forall>q. sent q \<noteq> [] \<longrightarrow> q \<le> hseq (pgroup p)" "\<forall>q. sent q \<noteq> [] \<longrightarrow> q \<le> hseq (pgroup p')"
  shows "stream_of p' sent = stream_of p sent"
proof -
  have "stream_to (max (Suc (unat (hseq (pgroup p)))) (Suc (unat (hseq (pgroup p'))))) sent = stream_to (Suc (unat (hseq (pgroup r)))) sent"
    if "\<forall>q. sent q \<noteq> [] \<longrightarrow> q \<le> hseq (pgroup r)" "r \<in> {p, p'}" for r
    by (rule stream_to_all) (use that unat_u64_less [of "hseq (pgroup p)"] unat_u64_less [of "hseq (pgroup p')"] in
        \<open>auto simp: word_le_nat_alt le_imp_less_Suc\<close>)
  from this [of p] this [of p'] show ?thesis using assms by (simp add: stream_of_def)
qed

text \<open>What a life on the directory of a dead one starts from.\<close>

lemma second_life:
  assumes "relay_run cfg d1 None sent1" "load_group_seq d1 (default_seq_file cfg) \<noteq> Some (-1)"
    and "good_cursor cfg pc" "(4 + maxlen) * max 1 (cgroup_size pc) < 2 ^ 32" "ccursor_file pc = Some c" "foreign_file cfg c"
    and "config_of a = pc" "a_group_seq_file a = cfg" "a_cursor a = flag"
    and "start_relay now_ms rnow now a d1 = (d2, Inr s2)"
  shows "pump_ok cfg pc maxlen s2 sent1" and "slast_seq s2 = load_initial_cursor d1 (Some c) flag"
    and "\<forall>q. sent1 q \<noteq> [] \<longrightarrow> q \<le> hseq (pgroup (spublisher s2))"
proof -
  have pc: "good_cursor cfg (config_of a)" "(4 + maxlen) * max 1 (a_group_size a) < 2 ^ 32" "a_cursor_file a = Some c"
    using assms(3-5,7) by (auto simp: config_of_def)
  from start_relay_run [OF assms(1,2,8) pc(1,2) assms(10)] have s2: "pump_ok cfg pc maxlen s2 sent1"
    "slast_seq s2 = load_initial_cursor d2 (Some c) flag" "\<forall>q. sent1 q \<noteq> [] \<longrightarrow> q < hseq (pgroup (spublisher s2))"
    using assms(7,9) pc(3) by auto
  show "pump_ok cfg pc maxlen s2 sent1" "\<forall>q. sent1 q \<noteq> [] \<longrightarrow> q \<le> hseq (pgroup (spublisher s2))"
    using s2(1,3) by auto
  show "slast_seq s2 = load_initial_cursor d1 (Some c) flag"
    unfolding s2(2) by (rule same_cursor [OF start_same [OF assms(1,6,8,10)]])
qed

text \<open>What a life fed by upstream leaves when it dies in its last turn.\<close>

lemma first_life:
  assumes ok: "pump_ok cfg pc maxlen s sent" and up: "upstream_ok cbor maxlen us"
    and loop: "pump_loop cbor pc evs s = (s', Running)" and fed: "fed (slast_seq s) us (evs @ [(clk, ev)]) n"
    and c: "ccursor_file pc = Some c" "foreign_file cfg c" "slast_seq s < 2 ^ 63"
    and low: "slast_seq s = load_initial_cursor (sdisk s) (Some c) flag" and old: "\<not> new_segment (spublisher s')"
    and d1: "d1 = left_behind (pump_step cbor pc clk ev (with_room (Some bytes) s'))" and fs: "fs = above (slast_seq s) us"
  shows "\<exists>sent1. relay_run cfg d1 None sent1 \<and> (\<forall>q. sent1 q \<noteq> [] \<longrightarrow> q \<le> hseq (pgroup (spublisher s'))) \<and>
      stream_of (spublisher s') sent1 = stream_of (spublisher s) sent @ map fraw (take n fs)"
    and "slast_seq s \<le> load_initial_cursor d1 (Some c) flag"
    and "passed (load_initial_cursor d1 (Some c) flag) fs \<le> n"
proof -
  from fed_prefix [OF fed] obtain j where j: "j \<le> n" "fed (slast_seq s) us evs j" by blast
  note rel = fed_relayed [OF up, where low = "slast_seq s", folded fs]
  have fits: "length (fraw f) \<le> maxlen \<and> numbers_fit f" if "Recv (Some f) \<in> snd ` set (evs @ [(clk, ev)])" for f
    by (rule rel(2) [OF fed that])
  then have fits1: "\<And>f. Recv (Some f) \<in> snd ` set evs \<Longrightarrow> length (fraw f) \<le> maxlen \<and> numbers_fit f"
    and fits2: "\<And>f. ev = Recv (Some f) \<Longrightarrow> length (fraw f) \<le> maxlen" by auto
  from pump_loop_ok [OF ok _ loop] fits1 obtain sent' where ok': "pump_ok cfg pc maxlen s' sent'"
    and stream: "stream_of (spublisher s') sent' = stream_of (spublisher s) sent @ map fraw (relayed (slast_seq s) evs)"
    and high: "slast_seq s' = high_water (slast_seq s) (seqs_of (relayed (slast_seq s) evs))" by auto
  have range: "slast_seq s \<le> load_initial_cursor (sdisk s') (Some c) flag" "load_initial_cursor (sdisk s') (Some c) flag \<le> slast_seq s'"
    using cursor_in_range [OF ok loop _ fits1 c low] by auto
  have numbers: "seqs_of (take j fs) = map number (take j fs)"
    using above_facts(1) [OF up] unfolding fs by (intro seqs_numbers) (blast dest: in_set_takeD)
  have "slast_seq s' < 2 ^ 63"
    using high high_water_up [OF _ relayed_sorted c(3)] relayed_messages fits1 by metis
  note torn = torn_turn [where ev = ev and cbor = cbor and clk = clk and k = bytes, OF ok' c(1,2) this fits2 old, folded d1]
  have "relayed (slast_seq s) (evs @ [(clk, ev)]) = relayed (slast_seq s) evs @ relayed (slast_seq s') [(clk, ev)]"
    unfolding high using j(2) by (intro relayed_append) (auto simp: fed_def)
  then have "relayed (slast_seq s) evs @ relayed (slast_seq s') [(clk, ev)] = take n fs" using rel(1) [OF fed] by simp
  then have both: "map fraw (take n fs) = map fraw (relayed (slast_seq s) evs) @ map fraw (relayed (slast_seq s') [(clk, ev)])"
    by (simp only: map_append [symmetric])
  obtain sent1 where t: "relay_run cfg d1 None sent1" "\<forall>q. sent1 q \<noteq> [] \<longrightarrow> q \<le> hseq (pgroup (spublisher s'))"
    "stream_of (spublisher s') sent1 = stream_of (spublisher s') sent' @ map fraw (relayed (slast_seq s') [(clk, ev)])"
    using torn(1) by blast
  have "stream_of (spublisher s') sent1 = stream_of (spublisher s) sent @ map fraw (take n fs)"
    by (simp only: t(3) both stream append_assoc)
  then show "\<exists>sent1. relay_run cfg d1 None sent1 \<and> (\<forall>q. sent1 q \<noteq> [] \<longrightarrow> q \<le> hseq (pgroup (spublisher s'))) \<and>
      stream_of (spublisher s') sent1 = stream_of (spublisher s) sent @ map fraw (take n fs)" using t(1,2) by blast
  have cursor: "load_initial_cursor d1 (Some c) flag \<in> {load_initial_cursor (sdisk s') (Some c) flag, slast_seq s'}"
    by (rule torn(2))
  then show "slast_seq s \<le> load_initial_cursor d1 (Some c) flag" using range by auto
  have "load_initial_cursor d1 (Some c) flag \<le> high_water (slast_seq s) (map number (take j fs))"
    using cursor range(2) high unfolding rel(1) [OF j(2)] numbers by auto
  then show "passed (load_initial_cursor d1 (Some c) flag) fs \<le> n"
    using passed_high_water [OF up, of _ "slast_seq s" j, folded fs] j(1) by fastforce
qed

text \<open>C1: end to end over a death, exactly once: a relay whose group numbers are not used up dies inside a turn, at any
  byte of what that turn writes, as long as that is not the first write to a new segment file, and is
  started on what is left; the disk takes all other writes. Upstream numbers all its messages and resumes
  behind the cursor found on disk. Then the second life publishes, behind what the first one did, the frames
  of upstream from there on: the two overlap and leave no gap; and a consumer of raw events that reads parts
  of what they published, leaving no gap itself, prints every frame it reaches once, in order and
  unchanged.\<close>

theorem end_to_end_over_death:
  assumes "pump_ok cfg pc maxlen s sent" "upstream_ok cbor maxlen us"
    and "pump_loop cbor pc evs s = (s', Running)" "fed (slast_seq s) us (evs @ [(clk, ev)]) n"
    and "ccursor_file pc = Some c" "foreign_file cfg c" "slast_seq s < 2 ^ 63"
    and "slast_seq s = load_initial_cursor (sdisk s) (Some c) flag" "\<not> new_segment (spublisher s')"
    and "d1 = left_behind (pump_step cbor pc clk ev (with_room (Some bytes) s'))" "fs = above (slast_seq s) us"
    and "load_group_seq d1 (default_seq_file cfg) \<noteq> Some (-1)"
    and "config_of a = pc" "a_group_seq_file a = cfg" "a_cursor a = flag"
    and "start_relay now_ms rnow now a d1 = (d2, Inr s2)"
    and "pump_loop cbor pc evs2 s2 = (s3, Running)" "fed (slast_seq s2) us evs2 m" "i64_min \<le> slast_seq s"
    and "k = passed (slast_seq s2) fs" "raw_events args"
  shows "k \<le> n \<and>
    (\<exists>sent2. relay_run cfg (sdisk s3) (Some (spublisher s3)) sent2 \<and> stream_of (spublisher s3) sent2 =
       stream_of (spublisher s) sent @ map fraw (take n fs) @ map fraw (take m (drop k fs))) \<and>
    (\<forall>subs parts. OriginClosed \<notin> set subs \<and> overlap 0 parts \<and>
       (\<forall>(a, b) \<in> set parts. b \<le> min n (length fs) \<or> k \<le> a \<and> b \<le> min (k + m) (length fs)) \<and>
       map frames_of subs = map (\<lambda>(a, b). slice (map fraw fs) a b) parts \<longrightarrow>
       printed cbor debug base32 base64 args subs = map (Some \<circ> JString \<circ> base64) (take (reached 0 parts) (map fraw fs)))"
proof -
  note one = first_life [OF assms(1-11)]
  from one(1) obtain sent1 where s1: "relay_run cfg d1 None sent1"
    "\<forall>q. sent1 q \<noteq> [] \<longrightarrow> q \<le> hseq (pgroup (spublisher s'))"
    "stream_of (spublisher s') sent1 = stream_of (spublisher s) sent @ map fraw (take n fs)" by blast
  have pc: "good_cursor cfg pc" "(4 + maxlen) * max 1 (cgroup_size pc) < 2 ^ 32" using assms(1) by (simp_all add: pump_ok_def)
  note two = second_life [OF s1(1) assms(12) pc assms(5,6,13-16)]
  have rest: "above (slast_seq s2) us = drop k fs"
    unfolding assms(11,20) two(2) by (rule above_cut [OF assms(2) one(2)])
  note rel = fed_relayed [OF assms(2,18)]
  from pump_loop_ok [OF two(1) _ assms(17)] rel(2) obtain sent2 where
    s2: "relay_run cfg (sdisk s3) (Some (spublisher s3)) sent2"
      "stream_of (spublisher s3) sent2 = stream_of (spublisher s2) sent1 @ map fraw (take m (drop k fs))"
    unfolding rel(1) rest by auto
  note num = above_numbered [OF assms(2,19), folded assms(11)]
  have once: "printed cbor debug base32 base64 args subs = map (Some \<circ> JString \<circ> base64) (take (reached 0 parts) (map fraw fs))"
    if "OriginClosed \<notin> set subs" "overlap 0 parts" "map frames_of subs = map (\<lambda>(a, b). slice (map fraw fs) a b) parts"
      "\<forall>(a, b) \<in> set parts. b \<le> min n (length fs) \<or> k \<le> a \<and> b \<le> min (k + m) (length fs)" for subs parts
  proof -
    have "\<forall>(a, b) \<in> set parts. b \<le> length (map fraw fs)" using that(4) by fastforce
    from printed_parts [OF num(1,3) assms(21) that(1-3) this] obtain out where
      "printed cbor debug base32 base64 args subs = map (Some \<circ> JString \<circ> base64) out" "once cbor (map fraw fs) parts out" by blast
    then show ?thesis using once_all [OF num(2)] by blast
  qed
  have "stream_of (spublisher s3) sent2 = stream_of (spublisher s) sent @ map fraw (take n fs) @ map fraw (take m (drop k fs))"
    using s2(2) s1(3) stream_of_later [OF s1(2) two(3)] by simp
  moreover have "k \<le> n" using one(3) unfolding assms(20) two(2) .
  ultimately show ?thesis using s2(1) once by blast
qed

text \<open>The first life relays one of three frames, persists the cursor and dies while it stores the group that the
  second frame completes.\<close>

definition before_death :: "(clock \<times> pump_event) list" where
  "before_death = [(tick, Recv (Some (info 5))), (tick, CursorTick)]"

definition second_args :: relay_args where
  "second_args = default_args\<lparr>a_group_size := 2, a_backfill_window_secs := 0, a_cursor := None\<rparr>"

definition life1 :: pump_state where
  "life1 = fst (pump_loop seq_cbor small_config before_death pump0)"

definition torn1 :: disk where
  "torn1 = left_behind (pump_step seq_cbor small_config tick (Recv (Some (info 6))) (with_room (Some 3) life1))"

definition life2 :: pump_state where
  "life2 = (case snd (start_relay 4000 (\<lambda>_. 40) 40 second_args torn1) of Inr s \<Rightarrow> s | Inl _ \<Rightarrow> life1)"

definition second_life_events :: "(clock \<times> pump_event) list" where
  "second_life_events = [(tick, Recv (Some (info 6))), (tick, Recv (Some (info 7)))]"

lemma lives:
  "snd (pump_loop seq_cbor small_config before_death pump0) = Running"
  "map_option (\<lambda>st. rotate_due st \<and> segments st \<noteq> []) (pstore (spublisher life1)) = Some False"
  "load_group_seq torn1 (default_seq_file None) = Some 0"
  "(case snd (start_relay 4000 (\<lambda>_. 40) 40 second_args torn1) of Inr s \<Rightarrow> slast_seq s = 5 | Inl _ \<Rightarrow> False)"
  "snd (pump_loop seq_cbor small_config second_life_events life2) = Running"
  by code_simp+

theorem end_to_end_over_death_witness:
  "printed seq_cbor (\<lambda>_. []) to_text to_text raw_args
     [Subscribed [(0, [[0xA0, 5], [0xA0, 6]])], SubscribeFailed, Subscribed [(3, [[0xA0, 6], [0xA0, 7]])]] =
   map (Some \<circ> JString \<circ> to_text) three"
proof -
  let ?l = "fst (pump_loop seq_cbor small_config second_life_events life2)"
  have l1: "pump_loop seq_cbor small_config before_death pump0 = (life1, Running)"
    using lives(1) by (simp add: life1_def prod_eq_iff)
  have fed1: "fed (slast_seq pump0) upstream3 (before_death @ [(tick, Recv (Some (info 6)))]) 2"
    by (simp add: fed_def pump0_low before_death_def upstream3_def info_def above_def number_def received_def List.map_filter_simps)
  have f: "foreign_file None ''cursor''" "slast_seq pump0 = load_initial_cursor (sdisk pump0) (Some ''cursor'') None"
    "ccursor_file small_config = Some ''cursor''" "config_of second_args = small_config" "a_group_seq_file second_args = None"
    "a_cursor second_args = None" by code_simp+
  have old: "\<not> new_segment (spublisher life1)" using lives(2) by (auto simp: new_segment_def)
  have seq: "load_group_seq torn1 (default_seq_file None) \<noteq> Some (- 1)" using lives(3) by simp
  obtain d2 where st: "start_relay 4000 (\<lambda>_. 40) 40 second_args torn1 = (d2, Inr life2)" and five: "slast_seq life2 = 5"
    using lives(4) by (cases "start_relay 4000 (\<lambda>_. 40) 40 second_args torn1") (auto simp: life2_def split: sum.splits)
  have l2: "pump_loop seq_cbor small_config second_life_events life2 = (?l, Running)"
    using lives(5) by (simp add: prod_eq_iff)
  have fed2: "fed (slast_seq life2) upstream3 second_life_events 2"
    by (simp add: fed_def five second_life_events_def upstream3_def info_def above_def number_def received_def List.map_filter_simps)
  have low: "slast_seq pump0 < 2 ^ 63" "i64_min \<le> slast_seq pump0" by (simp_all add: pump0_low i64_min_def)
  have fs: "upstream3 = above (slast_seq pump0) upstream3" "1 = passed (slast_seq life2) upstream3"
    by (simp_all add: pump0_low five upstream3_def above_def passed_def info_def number_def)
  let ?subs = "[Subscribed [(0, [[0xA0, 5], [0xA0, 6]])], SubscribeFailed, Subscribed [(3, [[0xA0, 6], [0xA0, 7]])]]"
  let ?parts = "[(0, 2), (0, 0), (1, 3)] :: (nat \<times> nat) list"
  have parts: "OriginClosed \<notin> set ?subs \<and> overlap 0 ?parts \<and>
      (\<forall>(a, b) \<in> set ?parts. b \<le> min 2 (length upstream3) \<or> 1 \<le> a \<and> b \<le> min (1 + 2) (length upstream3)) \<and>
      map frames_of ?subs = map (\<lambda>(a, b). slice (map fraw upstream3) a b) ?parts"
    unfolding upstream3_raw by (simp add: upstream3_def three_def slice_def)
  have "printed seq_cbor (\<lambda>_. []) to_text to_text raw_args ?subs =
      map (Some \<circ> JString \<circ> to_text) (take (reached 0 ?parts) (map fraw upstream3))"
    using end_to_end_over_death [OF pump0_ok upstream3_ok l1 fed1 f(3,1) low(1) f(2) old torn1_def fs(1) seq f(4-6) st l2 fed2
        low(2) fs(2) raw_args_raw] parts by blast
  then show ?thesis unfolding upstream3_raw by (simp add: three_def)
qed

section \<open>After a clean stop\<close>

text \<open>C12: over a clean restart every message is relayed once: if a run ends with a signal and the disk takes what it
  writes at its end, the next run starts at the highest number relayed, and what it publishes follows what
  the first run published, with numbers that go on strictly upwards whatever upstream replays.\<close>

theorem restart_exactly_once:
  assumes "pump_ok cfg pc maxlen s sent" "\<forall>f. Recv (Some f) \<in> snd ` set evs \<longrightarrow> length (fraw f) \<le> maxlen"
    and "pump_loop cbor pc evs s = (s', Stopping)" "pump_end pc clk s' = (d1, Inr p')"
    and "ccursor_file pc = Some c" "foreign_file cfg c" "0 \<le> slast_seq s'" "slast_seq s' < 2 ^ 63"
    and "load_group_seq d1 (default_seq_file cfg) \<noteq> Some (-1)"
    and "config_of a = pc" "a_group_seq_file a = cfg" "start_relay now_ms rnow now a d1 = (d2, Inr s2)"
    and "\<forall>f. Recv (Some f) \<in> snd ` set evs2 \<longrightarrow> length (fraw f) \<le> maxlen"
    and "pump_loop cbor pc evs2 s2 = (s3, st)" "st = Running \<or> st = Stopping"
    and "fs = relayed (slast_seq s) evs" "fs2 = relayed (slast_seq s2) evs2"
  shows "slast_seq s2 = high_water (slast_seq s) (seqs_of fs) \<and>
    (\<exists>sent2. relay_run cfg (sdisk s3) (Some (spublisher s3)) sent2 \<and>
       stream_of (spublisher s3) sent2 = stream_of (spublisher s) sent @ map fraw (fs @ fs2)) \<and>
    sorted_wrt (<) (slast_seq s # seqs_of (fs @ fs2))"
proof -
  from pump_loop_ok [OF assms(1) _ assms(3)] assms(2) obtain sent' where ok: "pump_ok cfg pc maxlen s' sent'"
    and stream: "stream_of (spublisher s') sent' = stream_of (spublisher s) sent @ map fraw fs"
    and high: "slast_seq s' = high_water (slast_seq s) (seqs_of fs)" by (auto simp: assms(16))
  from assms(4) obtain d where fin: "publisher_finish (wall_ms clk) (sdisk s') (spublisher s') = (d, Inr p')"
    and d1: "d1 = persist_cursor (Some c) (slast_seq s') d"
    by (auto simp: pump_end_def assms(5) split: prod.splits sum.splits)
  have up: "relay_run cfg (sdisk s') (Some (spublisher s')) sent'" using ok by (simp add: pump_ok_def)
  have run: "relay_run cfg d None sent'" by (rule relay_run.stop [OF up fin])
  have pc: "good_cursor cfg pc" "(4 + maxlen) * max 1 (cgroup_size pc) < 2 ^ 32" using ok by (simp_all add: pump_ok_def)
  have run1: "relay_run cfg d1 None sent'" using persist_cursor_run [OF run pc(1)] by (simp add: d1 assms(5))
  have cursor: "load_initial_cursor d1 (Some c) (a_cursor a) = slast_seq s'"
    unfolding d1 by (rule cursor_written)
      (use relay_run_room [OF run] pc(1) assms(5,7,8) in \<open>simp_all add: good_cursor_def good_file_def\<close>)
  note two = second_life [OF run1 assms(9) pc assms(5,6,10,11) refl assms(12)]
  have low: "slast_seq s2 = slast_seq s'" using two(2) cursor by simp
  have "\<not> (\<exists>e. st = Aborted e)" using assms(15) by auto
  with pump_loop_ok [OF two(1) _ assms(14)] assms(13) obtain sent2 where s2: "relay_run cfg (sdisk s3) (Some (spublisher s3)) sent2"
    "stream_of (spublisher s3) sent2 = stream_of (spublisher s2) sent' @ map fraw fs2" by (auto simp: assms(17))
  have "\<forall>q. sent' q \<noteq> [] \<longrightarrow> q \<le> hseq (pgroup (spublisher s'))" using relay_up [OF up] by (simp add: pub_ok_def)
  from stream_of_later [OF this two(3)] have "stream_of (spublisher s3) sent2 = stream_of (spublisher s) sent @ map fraw (fs @ fs2)"
    using s2(2) stream by simp
  moreover have "sorted_wrt (<) (slast_seq s # seqs_of fs @ seqs_of fs2)"
    unfolding assms(16,17) low high by (rule sorted_join [OF relayed_sorted relayed_sorted])
  ultimately show ?thesis using s2(1) low high by auto
qed

definition clean_disk :: disk where
  "clean_disk = fst (pump_end small_config tick pump1)"

definition clean_life2 :: pump_state where
  "clean_life2 = (case snd (start_relay 4000 (\<lambda>_. 40) 40 second_args clean_disk) of Inr s \<Rightarrow> s | Inl _ \<Rightarrow> pump1)"

theorem restart_exactly_once_witness:
  "\<exists>sent. stream_of (spublisher (fst (pump_loop (\<lambda>_. None) small_config [(tick, Recv (Some (msg 9 [4]))), (tick, Recv (Some (msg 11 [5])))]
      clean_life2))) sent = [[1], [3], [4], [5]]"
proof -
  let ?evs2 = "[(tick, Recv (Some (msg 9 [4]))), (tick, Recv (Some (msg 11 [5])))]"
  let ?l = "fst (pump_loop (\<lambda>_. None) small_config ?evs2 clean_life2)"
  have "case snd (pump_end small_config tick pump1) of Inr _ \<Rightarrow> True | Inl _ \<Rightarrow> False" by code_simp
  then obtain p' where e: "pump_end small_config tick pump1 = (clean_disk, Inr p')"
    by (auto simp: clean_disk_def prod_eq_iff split: sum.splits)
  have nine: "slast_seq pump1 = 9" by code_simp
  have seq: "load_group_seq clean_disk (default_seq_file None) = Some 1" by code_simp
  have "case snd (start_relay 4000 (\<lambda>_. 40) 40 second_args clean_disk) of Inr s \<Rightarrow> slast_seq s = 9 | Inl _ \<Rightarrow> False" by code_simp
  then obtain d2 where st: "start_relay 4000 (\<lambda>_. 40) 40 second_args clean_disk = (d2, Inr clean_life2)" and low: "slast_seq clean_life2 = 9"
    by (cases "start_relay 4000 (\<lambda>_. 40) 40 second_args clean_disk") (auto simp: clean_life2_def split: sum.splits)
  have "snd (pump_loop (\<lambda>_. None) small_config ?evs2 clean_life2) = Running" by code_simp
  then have l2: "pump_loop (\<lambda>_. None) small_config ?evs2 clean_life2 = (?l, Running)" by (simp add: prod_eq_iff)
  have f: "ccursor_file small_config = Some ''cursor''" "foreign_file None ''cursor''" "config_of second_args = small_config"
    "a_group_seq_file second_args = None" by code_simp+
  have small: "\<forall>f. Recv (Some f) \<in> snd ` set arrivals \<longrightarrow> length (fraw f) \<le> 8"
    "\<forall>f. Recv (Some f) \<in> snd ` set ?evs2 \<longrightarrow> length (fraw f) \<le> 8" using arrivals_small by (auto simp: msg_def)
  have fs: "relayed (slast_seq pump0) arrivals = [msg 5 [1], msg 7 [3], msg 9 [4]]" "relayed (slast_seq clean_life2) ?evs2 = [msg 11 [5]]"
    by (simp add: pump0_low arrivals_relayed, simp add: low msg_def)
  have "stream_of (spublisher pump0) (\<lambda>_. []) = []" by (simp add: stream_of_def stream_to_def)
  moreover from restart_exactly_once [OF pump0_ok small(1) arrivals_run e f(1,2) _ _ _ f(3,4) st small(2) l2 _ refl refl]
  obtain sent where "stream_of (spublisher ?l) sent = stream_of (spublisher pump0) (\<lambda>_. []) @
      map fraw (relayed (slast_seq pump0) arrivals @ relayed (slast_seq clean_life2) ?evs2)"
    using nine seq by auto
  ultimately show ?thesis unfolding fs by (auto simp: msg_def)
qed

end
