(* ===== verification/End_To_End07.thy ===== *)
theory End_To_End07
  imports Pump07 End_To_End
begin

text \<open>
  Upstream to consumer over draft-07: the frames the pump's sessions accept, read back by the
  subscriber's loop through any number of subscriptions and shown by the printer, which is what drops
  the replays here. The relay between the two is not part of the repository: each subscription gives
  a part of what the sessions have accepted.
\<close>

section \<open>The subscriber's loop\<close>

definition objects_of :: "track_mode option \<Rightarrow> bytes list" where
  "objects_of mode =
     (case mode of Some (Subgroups gs) \<Rightarrow> concat gs | Some (StreamMode gs) \<Rightarrow> concat gs | _ \<Rightarrow> [])"

lemma send_objects_all: "\<exists>new. send_objects (\<lambda>_. True) g obs sent = (sent @ new, True) \<and> map snd new = obs"
proof (induction obs arbitrary: sent)
  case (Cons ob obs)
  from Cons.IH [of "sent @ [(g, ob)]"] obtain new where
    "send_objects (\<lambda>_. True) g obs (sent @ [(g, ob)]) = (sent @ (g, ob) # new, True)" "map snd new = obs" by auto
  then show ?case by simp
qed simp

lemma send_subgroups_all:
  "\<exists>new. send_subgroups (\<lambda>_. True) g gs sent = (sent @ new, True) \<and> map snd new = concat gs"
proof (induction gs arbitrary: g sent)
  case (Cons obs gs)
  obtain n1 where 1: "send_objects (\<lambda>_. True) g obs sent = (sent @ n1, True)" "map snd n1 = obs"
    using send_objects_all by blast
  obtain n2 where "send_subgroups (\<lambda>_. True) (g + 1) gs (sent @ n1) = ((sent @ n1) @ n2, True)" "map snd n2 = concat gs"
    using Cons.IH by blast
  then show ?case using 1 by simp
qed simp

lemma subscribe07_all: "map snd (subscribe07 (\<lambda>_. True) mode sent) = map snd sent @ objects_of mode"
proof -
  have "map snd (fst (send_subgroups (\<lambda>_. True) 0 gs sent)) = map snd sent @ concat gs" for gs
    using send_subgroups_all [of 0 gs sent] by auto
  then show ?thesis by (auto simp: subscribe07_def objects_of_def split: option.split track_mode.split)
qed

lemma subscribe_loop_all:
  assumes "\<forall>(mode, elapsed, gone) \<in> set subs. \<not> gone"
  shows "map snd (fst (subscribe_loop (\<lambda>_. True) backoff subs sent)) = map snd sent @ concat (map (objects_of \<circ> fst) subs)"
  using assms
proof (induction subs arbitrary: backoff sent)
  case (Cons s subs)
  obtain mode elapsed where "s = (mode, elapsed, False)" using Cons.prems by (cases s) auto
  then show ?case using Cons by (simp add: subscribe07_all case_prod_beta Let_def)
qed simp

section \<open>End to end\<close>

definition printed07 :: "cbor_reader \<Rightarrow> (cbor_value \<Rightarrow> string) \<Rightarrow> (bytes \<Rightarrow> string) \<Rightarrow> (bytes \<Rightarrow> string) \<Rightarrow> firehose_args \<Rightarrow>
    (track_mode option \<times> nat \<times> bool) list \<Rightarrow> json option list" where
  "printed07 cbor debug base32 base64 args subs =
     map shown (elines (fst (print_events cbor debug base32 base64 args
       (arriving (fst (subscribe_loop (\<lambda>_. True) 1 subs []))) print_start)))"

text \<open>A consumer of raw events that reads parts of a stream of parsed frames without a gap.\<close>

lemma printed07_parts:
  assumes "numbered cbor (filter (has_number cbor) xs)" "\<And>raw. raw \<in> set xs \<Longrightarrow> \<exists>f. parse cbor raw = Inr f" "raw_events args"
    and "\<forall>(mode, elapsed, gone) \<in> set subs. \<not> gone" "overlap 0 parts"
    and "map (objects_of \<circ> fst) subs = map (\<lambda>(a, b). slice xs a b) parts" "\<forall>(a, b) \<in> set parts. b \<le> length xs"
  shows "\<exists>out. printed07 cbor debug base32 base64 args subs = map (Some \<circ> JString \<circ> base64) out \<and> once cbor xs parts out"
proof -
  let ?items = "fst (subscribe_loop (\<lambda>_. True) 1 subs [])"
  have items: "map snd ?items = concat (map (\<lambda>(a, b). slice xs a b) parts)"
    using subscribe_loop_all [OF assms(4), of 1 "[]"] assms(6) by simp
  then have "set (map snd ?items) \<subseteq> set xs" by (auto simp: slice_def dest!: in_set_takeD in_set_dropD)
  then have "\<forall>raw \<in> snd ` set ?items. \<exists>f. parse cbor raw = Inr f" using assms(2) by auto
  from print_events_raw [OF assms(3) this, of debug base32 base64 print_start]
  have "printed07 cbor debug base32 base64 args subs =
    map (Some \<circ> JString \<circ> base64) (fresh cbor i64_min (map snd ?items))" by (auto simp: printed07_def print_start_def)
  then show ?thesis using fresh_once [OF assms(1,5,7)] unfolding items by blast
qed

text \<open>C18: end to end over draft-07: of the messages that ingest parsed, the frames that pass the filter up to the
  point the run has reached are accepted by the sessions in order, all but the one being written, and a
  consumer of raw events prints every numbered frame up to the furthest point its subscriptions reach once
  and in order, however they overlap and end. A frame without a number is printed each time it is read.\<close>

theorem end_to_end07_once:
  assumes "pump07_loop cfg evs (pump07_start cfg cursor d) = (s, st)"
    and "\<forall>f. Recv (Some f) \<in> snd ` set evs \<longrightarrow> parse cbor (fraw f) = Inr f"
    and "i64_min \<le> load_initial_cursor d (ccursor_file cfg) cursor" "load_initial_cursor d (ccursor_file cfg) cursor < 2 ^ 63"
    and "ccursor_file cfg = Some c" "tmp_name c \<noteq> c" "raw_events args" "xs = accepted (tpublisher s)"
  shows "\<exists>done rest fs. evs = done @ rest \<and> fs = relayed (load_initial_cursor d (ccursor_file cfg) cursor) done \<and>
    (if st = Writing07 then xs = map fraw (butlast fs) else rest = [] \<and> xs = map fraw fs) \<and>
    (\<forall>subs parts. (\<forall>(mode, elapsed, gone) \<in> set subs. \<not> gone) \<and> overlap 0 parts \<and>
       map (objects_of \<circ> fst) subs = map (\<lambda>(a, b). slice xs a b) parts \<and> (\<forall>(a, b) \<in> set parts. b \<le> length xs) \<longrightarrow>
       (\<exists>out. printed07 cbor debug base32 base64 args subs = map (Some \<circ> JString \<circ> base64) out \<and> once cbor xs parts out))"
proof -
  let ?low = "load_initial_cursor d (ccursor_file cfg) cursor"
  have "\<forall>f. Recv (Some f) \<in> snd ` set evs \<longrightarrow> numbers_fit f" using assms(2) parse_fits by blast
  from draft07_run [OF assms(1) this assms(4-6)] obtain "done" rest fs where r: "evs = done @ rest"
    "st \<noteq> Writing07 \<longrightarrow> rest = []" "fs = relayed ?low done" "xs = map fraw (if st = Writing07 then butlast fs else fs)"
    unfolding assms(8) by blast
  have parsed: "parse cbor (fraw f) = Inr f" if "f \<in> set fs" for f
  proof -
    from that have "Recv (Some f) \<in> snd ` set done" using relayed_messages r(3) by blast
    then have "Recv (Some f) \<in> snd ` set evs" using r(1) by auto
    then show ?thesis using assms(2) by blast
  qed
  have sorted: "sorted_wrt (<) (?low # seqs_of fs)" using relayed_sorted r(3) by blast
  have "sorted_wrt (<) (?low # seqs_of (butlast fs))"
  proof (cases fs rule: rev_cases)
    case (snoc gs g)
    then show ?thesis using sorted by (cases "fseq g") (auto simp: sorted_wrt_append seqs_of_append)
  qed (use sorted in simp)
  then have "sorted_wrt (<) (?low # seqs_of (if st = Writing07 then butlast fs else fs))" using sorted by simp
  then have num: "numbered cbor (filter (has_number cbor) xs)"
    unfolding r(4) by (rule relayed_numbered [OF _ assms(3)]) (use parsed in \<open>auto split: if_splits dest: in_set_butlastD\<close>)
  have "\<exists>f. parse cbor raw = Inr f" if "raw \<in> set xs" for raw
    using that parsed r(4) by (auto split: if_splits dest: in_set_butlastD)
  note printed = printed07_parts [OF num this assms(7)]
  show ?thesis using r printed by (intro exI [of _ "done"] exI [of _ rest] exI [of _ fs]) simp
qed

definition three07 :: "(turn07 \<times> pump_event) list" where
  "three07 = map (\<lambda>q. (\<lparr>turn_clock = \<lparr>wall_ms = 9, instant = 9\<rparr>, tries = flaky\<rparr>,
     Recv (Some \<lparr>fop = 1, ft = Some ''#info'', fseq = Some q, fraw = [0xA0, word_of_int q]\<rparr>))) [5, 6, 7]"

theorem end_to_end07_once_witness:
  "printed07 seq_cbor (\<lambda>_. []) to_text to_text raw_args
     [(Some (Subgroups [[[0xA0, 5], [0xA0, 6]]]), 5000, False), (None, 100, False),
      (Some (StreamMode [[[0xA0, 5], [0xA0, 6]], [[0xA0, 7]]]), 70000, False)] =
   map (Some \<circ> JString \<circ> to_text) three"
proof -
  let ?r = "pump07_loop config07 three07 (pump07_start config07 None disk07)"
  let ?subs = "[(Some (Subgroups [[[0xA0, 5], [0xA0, 6]]]), 5000, False), (None, 100, False),
        (Some (StreamMode [[[0xA0, 5], [0xA0, 6]], [[0xA0, 7]]]), 70000, False)] :: (track_mode option \<times> nat \<times> bool) list"
  have "snd ?r = Running07 \<and> accepted (tpublisher (fst ?r)) = three" by code_simp
  then have r: "?r = (fst ?r, Running07)" and acc: "three = accepted (tpublisher (fst ?r))" by (auto simp: prod_eq_iff)
  have parsed: "\<forall>f. Recv (Some f) \<in> snd ` set three07 \<longrightarrow> parse seq_cbor (fraw f) = Inr f"
    by (auto simp: three07_def three_parse)
  have "load_initial_cursor disk07 (ccursor_file config07) None = - 1" by code_simp
  then have range: "i64_min \<le> load_initial_cursor disk07 (ccursor_file config07) None"
    "load_initial_cursor disk07 (ccursor_file config07) None < 2 ^ 63" by (simp_all add: i64_min_def)
  have cf: "ccursor_file config07 = Some ''cursor''" "tmp_name ''cursor'' \<noteq> ''cursor''" by code_simp+
  have parts: "map (objects_of \<circ> fst) ?subs = map (\<lambda>(a, b). slice three a b) [(0, 2), (0, 0), (0, 3)]"
    by (simp add: three_def slice_def objects_of_def)
  from end_to_end07_once [OF r parsed range cf raw_args_raw acc, of "\<lambda>_. []" to_text to_text]
  have "\<And>subs parts. (\<forall>(mode, elapsed, gone) \<in> set subs. \<not> gone) \<and> overlap 0 parts \<and>
      map (objects_of \<circ> fst) subs = map (\<lambda>(a, b). slice three a b) parts \<and> (\<forall>(a, b) \<in> set parts. b \<le> length three) \<Longrightarrow>
      \<exists>out. printed07 seq_cbor (\<lambda>_. []) to_text to_text raw_args subs = map (Some \<circ> JString \<circ> to_text) out \<and> once seq_cbor three parts out"
    by blast
  from this [of ?subs "[(0, 2), (0, 0), (0, 3)]"] parts obtain out where
    out: "printed07 seq_cbor (\<lambda>_. []) to_text to_text raw_args ?subs = map (Some \<circ> JString \<circ> to_text) out"
    and once: "once seq_cbor three [(0, 2), (0, 0), (0, 3)] out" by (auto simp: three_def)
  have "out = three" using once_all [OF three_has_number once] by (simp add: three_def)
  then show ?thesis using out by simp
qed

end
