(* ===== verification/Restart07.thy ===== *)
theory Restart07
  imports Pump07 End_To_End07 Upstream
begin

text \<open>
  End to end over a death, draft-07: the relay dies at any moment, inside a write included, and is started
  again on the cursor it left behind.
\<close>

section \<open>The cursor a run leaves behind\<close>

lemma pump07_step_cursor:
  assumes "pump07_ok cfg cursor s h" "pump07_step cfg t ev s = (s', st)"
  shows "resume_from cfg cursor s' \<in> {resume_from cfg cursor s, tlast_seq s}"
proof (cases "ev = CursorTick")
  case True
  then show ?thesis using assms cursor_persisted [of _ "tlast_seq s" "tdisk s" cursor]
    by (cases "ccursor_file cfg") (fastforce simp: pump07_step_def resume_from_def pump07_ok_def persist_cursor_def)+
next
  case False
  then have "tdisk s' = tdisk s" using assms(2)
    by (auto simp: pump07_step_def pump07_frame_def relay_frame07_def
        split: pump_event.splits option.splits if_splits prod.splits bool.splits)
  then show ?thesis by (simp add: resume_from_def)
qed

text \<open>The pump's invariant, of a run that started at \<open>low\<close>.\<close>

interpretation resuming07: frame_pump "pump07_step cfg" Running07 Stopping07
    "\<lambda>s h. pump07_ok cfg cursor s h \<and> low \<le> resume_from cfg cursor s"
    "\<lambda>s h. pump07_writing cfg cursor s h \<and> low \<le> resume_from cfg cursor s" tlast_seq numbers_fit for cfg cursor low
proof (unfold_locales, goal_cases)
  case (1 s h ev c s' st)
  then have ok: "pump07_ok cfg cursor s h" by blast
  have "low \<le> resume_from cfg cursor s'"
    using pump07_step_cursor [OF ok 1(3)] 1(1) ok by (auto simp: pump07_ok_def)
  then show ?case using pump07_turn [OF ok 1(2,3)] by auto
qed (use pump07_status in blast)+

lemma life07:
  assumes "upstream_ok cbor maxlen us" "pump07_loop cfg evs (pump07_start cfg cursor d) = (s, st)"
    and "low = load_initial_cursor d (ccursor_file cfg) cursor" "fed low us evs n" "low < 2 ^ 63"
    and "ccursor_file cfg = Some c" "tmp_name c \<noteq> c" "fs = above low us"
  shows "\<exists>j \<le> n. (st \<noteq> Writing07 \<longrightarrow> j = n) \<and> accepted (tpublisher s) = map fraw (take j fs) \<and>
    low \<le> resume_from cfg cursor s \<and> resume_from cfg cursor s < 2 ^ 63 \<and> passed (resume_from cfg cursor s) fs \<le> j"
proof -
  note a = above_facts [OF assms(1), where low = low, folded assms(8)]
  note rel = fed_relayed [OF assms(1), where low = low, folded assms(8)]
  have numbers: "seqs_of (take j fs) = map number (take j fs)" for j
    using a(1) by (intro seqs_numbers) (blast dest: in_set_takeD)
  have "pump07_ok cfg cursor (pump07_start cfg cursor d) [] \<and> low \<le> resume_from cfg cursor (pump07_start cfg cursor d)"
    using assms(3,5-7) by (simp add: pump07_ok_def pump07_start_def resume_from_def)
  from resuming07.run [OF this _ assms(2) [unfolded pump07_loop_def]] rel(2) [OF assms(4)] consider
      (going) "st \<noteq> Writing07" "pump07_ok cfg cursor s (relayed low evs)" "low \<le> resume_from cfg cursor s"
        "tlast_seq s = high_water low (seqs_of (relayed low evs))"
    | (writing) "done" rest where "st = Writing07" "evs = done @ rest" "pump07_writing cfg cursor s (relayed low done)" "low \<le> resume_from cfg cursor s"
    by (cases st) (auto simp: pump07_start_def assms(3))
  then show ?thesis
  proof cases
    case going
    then have high: "resume_from cfg cursor s \<le> high_water low (map number (take n fs))"
      by (simp add: rel(1) [OF assms(4)] pump07_ok_def flip: numbers)
    show ?thesis using going passed_high_water [OF assms(1) high [unfolded assms(8)]]
      by (intro exI [of _ n]) (simp add: rel(1) [OF assms(4)] pump07_ok_def assms(8))
  next
    case writing
    from fed_prefix [OF assms(4) [unfolded writing(2)]] obtain j where j: "j \<le> n" "fed low us done j" by blast
    let ?i = "length (take j fs) - 1"
    note w = writing(3) [unfolded rel(1) [OF j(2)] pump07_writing_def]
    then have "0 < length fs" "0 < j" by auto
    then have i: "?i < length fs" "?i < j" unfolding length_take by linarith+
    moreover have "take ?i (take j fs) = take ?i fs" using i(2) by simp
    moreover have "last (take j fs) = take j fs ! ?i" using w last_conv_nth by blast
    ultimately have ends: "butlast (take j fs) = take ?i fs" "last (take j fs) = fs ! ?i"
      by (simp_all only: butlast_conv_take nth_take)
    then have acc: "accepted (tpublisher s) = map fraw (take ?i fs)" using w by simp
    have frame: "fseq (fs ! ?i) = Some (number (fs ! ?i))" "number (fs ! ?i) < 2 ^ 63"
      using a(1) [OF nth_mem [OF i(1)]] by (auto simp: number_def numbers_fit_def)
    have below: "resume_from cfg cursor s < number (fs ! ?i)" using w frame(1) ends(2) by simp
    then have "passed (resume_from cfg cursor s) fs \<le> ?i" by (rule passed_le)
    moreover have "?i \<le> n" using j(1) by simp
    moreover have "resume_from cfg cursor s < 2 ^ 63" using below frame(2) by simp
    ultimately show ?thesis using acc writing(1,4) by (intro exI [of _ ?i]) simp
  qed
qed

section \<open>Two lives\<close>

text \<open>C20: end to end over a death, draft-07, exactly once: the relay dies at any moment, inside a write included,
  and is started again on what is left; upstream numbers all its messages and resumes behind the cursor
  found there. The sessions of the two lives have accepted the frames of upstream in order with an overlap
  and without a gap, and a consumer of raw events (all accounts, no limit, one line per event) that reads
  parts of what they accepted, leaving no gap itself, prints every frame it reaches once, in order and
  unchanged.\<close>

theorem end_to_end07_over_death:
  assumes "upstream_ok cbor maxlen us" "pump07_loop cfg evs (pump07_start cfg cursor d) = (s, st)"
    and "low = load_initial_cursor d (ccursor_file cfg) cursor" "fed low us evs n" "i64_min \<le> low" "low < 2 ^ 63"
    and "ccursor_file cfg = Some c" "tmp_name c \<noteq> c" "raw_events args"
    and "pump07_loop cfg evs2 (pump07_start cfg cursor (tdisk s)) = (s2, st2)" "fed (resume_from cfg cursor s) us evs2 m"
    and "fs = above low us" "k = passed (resume_from cfg cursor s) fs"
  shows "\<exists>i j. i \<le> n \<and> (st \<noteq> Writing07 \<longrightarrow> i = n) \<and> k \<le> i \<and> j \<le> m \<and> (st2 \<noteq> Writing07 \<longrightarrow> j = m) \<and>
    accepted (tpublisher s) = map fraw (take i fs) \<and> accepted (tpublisher s2) = map fraw (take j (drop k fs)) \<and>
    (\<forall>subs parts. (\<forall>(mode, elapsed, gone) \<in> set subs. \<not> gone) \<and> overlap 0 parts \<and>
       (\<forall>(a, b) \<in> set parts. b \<le> min i (length fs) \<or> k \<le> a \<and> b \<le> min (k + j) (length fs)) \<and>
       map (objects_of \<circ> fst) subs = map (\<lambda>(a, b). slice (map fraw fs) a b) parts \<longrightarrow>
       printed07 cbor debug base32 base64 args subs = map (Some \<circ> JString \<circ> base64) (take (reached 0 parts) (map fraw fs)))"
proof -
  from life07 [OF assms(1-4,6-8,12)] obtain i where i: "i \<le> n" "st \<noteq> Writing07 \<longrightarrow> i = n" "k \<le> i"
    "accepted (tpublisher s) = map fraw (take i fs)" "low \<le> resume_from cfg cursor s" "resume_from cfg cursor s < 2 ^ 63"
    unfolding assms(13) by blast
  have rest: "drop k fs = above (resume_from cfg cursor s) us"
    unfolding assms(13) assms(12) by (rule above_cut [OF assms(1) i(5), symmetric])
  have start: "resume_from cfg cursor s = load_initial_cursor (tdisk s) (ccursor_file cfg) cursor" by (simp add: resume_from_def)
  from life07 [OF assms(1,10) start assms(11) i(6) assms(7,8) rest] obtain j where j: "j \<le> m" "st2 \<noteq> Writing07 \<longrightarrow> j = m"
    "accepted (tpublisher s2) = map fraw (take j (drop k fs))" by blast
  note num = above_numbered [OF assms(1,5), folded assms(12)]
  have "printed07 cbor debug base32 base64 args subs = map (Some \<circ> JString \<circ> base64) (take (reached 0 parts) (map fraw fs))"
    if "\<forall>(mode, elapsed, gone) \<in> set subs. \<not> gone" "overlap 0 parts"
      "map (objects_of \<circ> fst) subs = map (\<lambda>(a, b). slice (map fraw fs) a b) parts"
      "\<forall>(a, b) \<in> set parts. b \<le> min i (length fs) \<or> k \<le> a \<and> b \<le> min (k + j) (length fs)" for subs parts
  proof -
    have "\<forall>(a, b) \<in> set parts. b \<le> length (map fraw fs)" using that(4) by fastforce
    from printed07_parts [OF num(1,3) assms(9) that(1-3) this] obtain out where
      "printed07 cbor debug base32 base64 args subs = map (Some \<circ> JString \<circ> base64) out" "once cbor (map fraw fs) parts out" by blast
    then show ?thesis using once_all [OF num(2)] by blast
  qed
  then show ?thesis using i j by blast
qed

text \<open>The first life writes two of three frames, persists the cursor between them and dies in the third write.\<close>

definition turn_at :: "attempt07 list \<Rightarrow> turn07" where
  "turn_at as = \<lparr>turn_clock = \<lparr>wall_ms = 9, instant = 9\<rparr>, tries = as\<rparr>"

definition evs_first :: "(turn07 \<times> pump_event) list" where
  "evs_first = [(turn_at flaky, Recv (Some (info 5))), (turn_at [], CursorTick), (turn_at flaky, Recv (Some (info 6))),
     (turn_at [(hd flaky)\<lparr>found_dead := True\<rparr>], Recv (Some (info 7)))]"

definition evs_second :: "(turn07 \<times> pump_event) list" where
  "evs_second = [(turn_at flaky, Recv (Some (info 6))), (turn_at flaky, Recv (Some (info 7)))]"

theorem end_to_end07_over_death_witness:
  "printed07 seq_cbor (\<lambda>_. []) to_text to_text raw_args
     [(Some (Subgroups [[[0xA0, 5], [0xA0, 6]]]), 5000, False), (None, 100, False),
      (Some (StreamMode [[[0xA0, 6]], [[0xA0, 7]]]), 70000, False)] =
   map (Some \<circ> JString \<circ> to_text) three"
proof -
  let ?r = "pump07_loop config07 evs_first (pump07_start config07 None disk07)"
  let ?r2 = "pump07_loop config07 evs_second (pump07_start config07 None (tdisk (fst ?r)))"
  let ?subs = "[(Some (Subgroups [[[0xA0, 5], [0xA0, 6]]]), 5000, False), (None, 100, False),
        (Some (StreamMode [[[0xA0, 6]], [[0xA0, 7]]]), 70000, False)] :: (track_mode option \<times> nat \<times> bool) list"
  have "snd ?r = Writing07 \<and> resume_from config07 None (fst ?r) = 5 \<and> accepted (tpublisher (fst ?r)) = take 2 three" by code_simp
  then have r: "?r = (fst ?r, Writing07)" and five: "resume_from config07 None (fst ?r) = 5"
    and acc: "accepted (tpublisher (fst ?r)) = take 2 three" by (simp_all add: prod_eq_iff)
  have "snd ?r2 = Running07" by code_simp
  then have r2: "?r2 = (fst ?r2, Running07)" by (simp add: prod_eq_iff)
  have low: "- 1 = load_initial_cursor disk07 (ccursor_file config07) None" by code_simp
  have cf: "ccursor_file config07 = Some ''cursor''" "tmp_name ''cursor'' \<noteq> ''cursor''" by code_simp+
  have fed: "fed (- 1) upstream3 evs_first 3" "fed (resume_from config07 None (fst ?r)) upstream3 evs_second 2"
    unfolding five by (simp_all add: fed_def evs_first_def evs_second_def upstream3_def info_def above_def number_def
      received_def List.map_filter_simps)
  have fs: "upstream3 = above (- 1) upstream3" "1 = passed (resume_from config07 None (fst ?r)) upstream3"
    unfolding five by (simp_all add: upstream3_def above_def passed_def info_def number_def)
  have range: "i64_min \<le> - 1" "(- 1 :: int) < 2 ^ 63" by (simp_all add: i64_min_def)
  from end_to_end07_over_death [OF upstream3_ok r low fed(1) range cf raw_args_raw r2 fed(2) fs, of "\<lambda>_. []" to_text to_text]
  obtain i j where ij: "Running07 \<noteq> Writing07 \<longrightarrow> j = 2" "take 2 three = map fraw (take i upstream3)"
    and once: "\<forall>subs parts. (\<forall>(mode, elapsed, gone) \<in> set subs. \<not> gone) \<and> overlap 0 parts \<and>
       (\<forall>(a, b) \<in> set parts. b \<le> min i (length upstream3) \<or> 1 \<le> a \<and> b \<le> min (1 + j) (length upstream3)) \<and>
       map (objects_of \<circ> fst) subs = map (\<lambda>(a, b). slice (map fraw upstream3) a b) parts \<longrightarrow>
       printed07 seq_cbor (\<lambda>_. []) to_text to_text raw_args subs =
         map (Some \<circ> JString \<circ> to_text) (take (reached 0 parts) (map fraw upstream3))"
    unfolding acc by blast
  have three: "length three = 3" "length upstream3 = 3" by (simp_all add: three_def upstream3_def)
  have "length (take 2 three) = length (take i upstream3)" using ij(2) by simp
  then have "i = 2" unfolding length_take three by linarith
  moreover have "map (objects_of \<circ> fst) ?subs = map (\<lambda>(a, b). slice (map fraw upstream3) a b) [(0, 2), (0, 0), (1, 3)]"
    unfolding upstream3_raw by (simp add: three_def slice_def objects_of_def)
  ultimately show ?thesis
    using once [rule_format, of ?subs "[(0, 2), (0, 0), (1, 3)]"] ij(1) unfolding upstream3_raw by (simp add: three)
qed

end
