(* ===== verification/Session07.thy ===== *)
theory Session07
  imports Dialect07
begin

text \<open>
  Setting up a draft-07 session (\<open>connect!\<close>, \<open>publish\<close>, \<open>subscribe\<close> in
  \<open>rust/crates/atmoq/src/dialect07.rs\<close>): every step may fail and ends the attempt, a clock before 1970 is a
  panic. What the session layer answers is input; where the code gives an error a context, the error is
  that text. The ids of the groups of all sessions of a publisher ascend as long as no session makes
  groups faster than the clock counts milliseconds.
\<close>

section \<open>Connecting\<close>

text \<open>How the steps go; \<open>Some e\<close> is a failure.\<close>

record link07 =
  k_tls :: "string option"
  k_endpoint :: "string option"
  k_connect :: "string option"
  k_setup :: "string option"
  k_track :: "string option"
  k_groups :: "string option"

definition attempt_step :: "string option \<Rightarrow> string option \<Rightarrow> string + unit" where
  "attempt_step context failure =
     (case failure of None \<Rightarrow> Inr () | Some e \<Rightarrow> Inl (case context of Some msg \<Rightarrow> msg | None \<Rightarrow> e))"

lemma attempt_step_Inr [simp]: "attempt_step context failure = Inr u \<longleftrightarrow> failure = None"
  by (simp add: attempt_step_def split: option.split)

definition connect07 :: "link07 \<Rightarrow> string + unit" where
  "connect07 k =
     bind_res (attempt_step (Some ''loading TLS config'') (k_tls k)) (\<lambda>_.
     bind_res (attempt_step None (k_endpoint k)) (\<lambda>_.
       attempt_step (Some ''quic connect'') (k_connect k)))"

section \<open>Publishing\<close>

datatype session_end = Session_run | Announce

text \<open>Whichever of the two tasks ends first marks the session dead.\<close>

definition session_dead :: "session_end option \<Rightarrow> bool" where
  "session_dead ended = (ended \<noteq> None)"

definition group_base :: "int \<Rightarrow> u64 option" where
  "group_base epoch_ms = (if epoch_ms < 0 then None else Some (word_of_int epoch_ms))"

datatype dialled = Connected publisher07 | Refused string | Clock_panic

definition publish_session :: "link07 \<Rightarrow> int \<Rightarrow> dialled" where
  "publish_session k epoch_ms =
     (case bind_res (connect07 k) (\<lambda>_.
           bind_res (attempt_step (Some ''draft-07 publisher setup'') (k_setup k)) (\<lambda>_.
           bind_res (attempt_step (Some ''failed to create track'') (k_track k)) (\<lambda>_.
             attempt_step None (k_groups k)))) of
        Inl e \<Rightarrow> Refused e
      | Inr _ \<Rightarrow> (case group_base epoch_ms of None \<Rightarrow> Clock_panic | Some base \<Rightarrow> Connected (publish07 base)))"

text \<open>The turn of the reconnecting writer that such an attempt is.\<close>

definition turn_of_link :: "bool \<Rightarrow> link07 \<Rightarrow> int \<Rightarrow> session_end option \<Rightarrow> bool \<Rightarrow> bool \<Rightarrow> attempt07" where
  "turn_of_link dead k epoch_ms probation creating writing =
     \<lparr>found_dead = dead,
      connects = (case publish_session k epoch_ms of Connected p \<Rightarrow> Some (wgroup_id p) | _ \<Rightarrow> None),
      rejected = session_dead probation, creates = creating, writes = writing\<rparr>"

lemma publish_session_connected:
  "publish_session k t = Connected p \<longleftrightarrow>
     k_tls k = None \<and> k_endpoint k = None \<and> k_connect k = None \<and> k_setup k = None \<and> k_track k = None \<and> k_groups k = None \<and>
     0 \<le> t \<and> p = publish07 (word_of_int t)"
  by (auto simp: publish_session_def connect07_def attempt_step_def group_base_def split: option.splits)

section \<open>Subscribing\<close>

text \<open>How a subscription goes once it is up: what the track yields, and whether reading ends with an error.\<close>

record reading07 =
  r_mode :: "string option"
  r_track :: track_mode
  r_failure :: "string option"

definition read_subgroups :: "(nat \<Rightarrow> bool) \<Rightarrow> bytes list list \<Rightarrow> string option \<Rightarrow> (u64 \<times> bytes) list \<Rightarrow>
    (u64 \<times> bytes) list \<times> (string + unit)" where
  "read_subgroups accepts subgroups failure sent =
     (case send_subgroups accepts 0 subgroups sent of
        (sent, True) \<Rightarrow> (sent, attempt_step None failure)
      | (sent, False) \<Rightarrow> (sent, Inr ()))"

definition subscribe_session :: "(nat \<Rightarrow> bool) \<Rightarrow> link07 \<Rightarrow> reading07 \<Rightarrow> (u64 \<times> bytes) list \<Rightarrow>
    (u64 \<times> bytes) list \<times> (string + unit)" where
  "subscribe_session accepts k r sent =
     (case bind_res (connect07 k) (\<lambda>_.
           bind_res (attempt_step (Some ''draft-07 subscriber setup'') (k_setup k)) (\<lambda>_.
             attempt_step (Some ''track mode'') (r_mode r))) of
        Inl e \<Rightarrow> (sent, Inl e)
      | Inr _ \<Rightarrow>
          (case r_track r of
             Subgroups gs \<Rightarrow> read_subgroups accepts gs (r_failure r) sent
           | StreamMode gs \<Rightarrow> read_subgroups accepts gs (r_failure r) sent
           | Datagrams \<Rightarrow> (sent, Inl ''datagram mode unsupported (frames exceed MTU)'')))"

text \<open>A subscription that is not set up delivers nothing; otherwise it delivers what the track yields.\<close>

lemma subscribe_session_sent:
  "fst (subscribe_session accepts k r sent) =
     subscribe07 accepts
       (if k_tls k = None \<and> k_endpoint k = None \<and> k_connect k = None \<and> k_setup k = None \<and> r_mode r = None
        then Some (r_track r) else None) sent"
  by (auto simp: subscribe_session_def subscribe07_def connect07_def attempt_step_def read_subgroups_def
      split: option.splits track_mode.splits prod.splits bool.splits)

section \<open>Group ids over all sessions\<close>

definition sessions :: "resilient \<Rightarrow> publisher07 list" where
  "sessions r = rclosed r @ (case rinner r of None \<Rightarrow> [] | Some p \<Rightarrow> [p])"

definition group_ids :: "resilient \<Rightarrow> u64 list" where
  "group_ids r = concat (map (map fst \<circ> wgroups) (sessions r))"

text \<open>A new connection's clock has passed the next id of every session before; no id wraps.\<close>

definition paced_turn :: "attempt07 \<Rightarrow> resilient \<Rightarrow> bool" where
  "paced_turn a r \<longleftrightarrow>
     (\<forall>p \<in> set (sessions r). wgroup_id p \<noteq> - 1) \<and>
     (rinner r \<noteq> None \<and> \<not> found_dead a \<or>
      (case connects a of None \<Rightarrow> True | Some b \<Rightarrow> b \<noteq> - 1 \<and> (\<forall>p \<in> set (sessions r). wgroup_id p \<le> b)))"

fun paced :: "attempt07 list \<Rightarrow> bytes \<Rightarrow> nat \<Rightarrow> resilient \<Rightarrow> bool" where
  "paced [] data group_size r = True"
| "paced (a # as) data group_size r \<longleftrightarrow>
     paced_turn a r \<and>
     (case resilient_step a data group_size r of (r', done) \<Rightarrow> done \<or> paced as data group_size r')"

fun paced_writes :: "(attempt07 list \<times> bytes) list \<Rightarrow> nat \<Rightarrow> resilient \<Rightarrow> bool" where
  "paced_writes [] group_size r = True"
| "paced_writes ((as, data) # ws) group_size r \<longleftrightarrow>
     paced as data group_size r \<and> paced_writes ws group_size (fst (resilient_write as data group_size r))"

fun write_all :: "nat \<Rightarrow> (attempt07 list \<times> bytes) list \<Rightarrow> resilient \<Rightarrow> resilient" where
  "write_all group_size [] r = r"
| "write_all group_size ((as, data) # ws) r = write_all group_size ws (fst (resilient_write as data group_size r))"

text \<open>Two sessions: the first takes two frames and dies.\<close>

definition good_turn :: "bool \<Rightarrow> u64 \<Rightarrow> attempt07" where
  "good_turn dead clock = \<lparr>found_dead = dead, connects = Some clock, rejected = False, creates = True, writes = True\<rparr>"

definition two_sessions :: "(attempt07 list \<times> bytes) list" where
  "two_sessions = [([good_turn False 4000], [1]), ([good_turn False 4001], [2]), ([good_turn True 9000], [3])]"

lemma two_sessions_run:
  "paced_writes two_sessions 1 resilient_new"
  "group_ids (write_all 1 two_sessions resilient_new) = [4000, 4001, 9000]"
  by code_simp+

text \<open>The invariant.\<close>

definition ids_ok :: "resilient \<Rightarrow> bool" where
  "ids_ok r \<longleftrightarrow> sorted_wrt (<) (group_ids r) \<and>
     (\<forall>p \<in> set (sessions r). (wcurrent p \<longrightarrow> wgroups p \<noteq> []) \<and> (\<forall>i \<in> fst ` set (wgroups p). i < wgroup_id p)) \<and>
     (\<forall>p. rinner r = Some p \<longrightarrow> (\<forall>i \<in> set (group_ids r). i < wgroup_id p))"

lemma less_succ:
  fixes i n :: u64
  assumes "n \<noteq> - 1"
  shows "n < n + 1" and "i < n \<Longrightarrow> i < n + 1"
proof -
  have "n + 1 \<noteq> 0" using assms by (metis add_diff_cancel_right' diff_0)
  then have "unat (n + 1) = Suc (unat n)" by (metis add.commute unatSuc)
  then show "n < n + 1" by (simp add: word_less_nat_alt)
  then show "i < n \<Longrightarrow> i < n + 1" by simp
qed

text \<open>A write leaves the ids as they are, or adds the next one.\<close>

lemma write07_ids:
  assumes "write07 cr wr data n p = (p', ok)" "wcurrent p \<longrightarrow> wgroups p \<noteq> []"
  shows "(wcurrent p' \<longrightarrow> wgroups p' \<noteq> []) \<and>
    (map fst (wgroups p') = map fst (wgroups p) \<and> wgroup_id p' = wgroup_id p \<or>
     map fst (wgroups p') = map fst (wgroups p) @ [wgroup_id p] \<and> wgroup_id p' = wgroup_id p + 1)"
proof -
  have last: "map fst (append_to_last data gs) = map fst gs" "append_to_last data gs \<noteq> []" if "gs \<noteq> []" for gs
    using append_to_last_facts(2,6) [OF that] by blast+
  show ?thesis using assms by (auto simp: write07_def Let_def last split: if_splits)
qed

lemma sessions_simps [simp]:
  "sessions (r\<lparr>rslept := n\<rparr>) = sessions r" "sessions (close_inner r) = sessions r"
  "rinner r = None \<Longrightarrow> sessions (r\<lparr>rinner := Some p\<rparr>) = sessions r @ [p]"
  "rinner r = Some q \<Longrightarrow> sessions (r\<lparr>rinner := Some p\<rparr>) = rclosed r @ [p]"
  by (simp_all add: sessions_def close_inner_def split: option.split)

lemma sessions_Some: "rinner r = Some p \<Longrightarrow> sessions r = rclosed r @ [p]"
  by (simp add: sessions_def)

lemma ids_ok_slept [simp]: "ids_ok (r\<lparr>rslept := n\<rparr>) = ids_ok r"
  by (simp add: ids_ok_def group_ids_def)

lemma ids_ok_close: "ids_ok r \<Longrightarrow> ids_ok (close_inner r)"
  by (simp add: ids_ok_def group_ids_def)

lemma ids_ok_connect:
  assumes "ids_ok r" "rinner r = None" "\<forall>p \<in> set (sessions r). wgroup_id p \<le> b"
  shows "ids_ok (r\<lparr>rinner := Some (publish07 b)\<rparr>)"
proof -
  have "i < b" if i: "i \<in> set (group_ids r)" for i
  proof -
    from i obtain p where p: "p \<in> set (sessions r)" "i \<in> fst ` set (wgroups p)" by (auto simp: group_ids_def)
    then have "i < wgroup_id p" "wgroup_id p \<le> b" using assms(1,3) unfolding ids_ok_def by blast+
    then show ?thesis by (rule order_less_le_trans)
  qed
  moreover have "group_ids (r\<lparr>rinner := Some (publish07 b)\<rparr>) = group_ids r"
    using assms(2) by (simp add: group_ids_def publish07_def)
  ultimately show ?thesis using assms(1,2) by (simp add: ids_ok_def publish07_def)
qed

lemma ids_ok_write:
  assumes "ids_ok r" "rinner r = Some p" "wgroup_id p \<noteq> - 1" "write07 cr wr data n p = (p', ok)"
  shows "ids_ok (r\<lparr>rinner := Some p'\<rparr>)"
proof -
  let ?old = "concat (map (map fst \<circ> wgroups) (rclosed r))"
  have g: "group_ids r = ?old @ map fst (wgroups p)" "group_ids (r\<lparr>rinner := Some p'\<rparr>) = ?old @ map fst (wgroups p')"
    using assms(2) by (simp_all add: group_ids_def sessions_Some)
  have top: "\<forall>i \<in> set (group_ids r). i < wgroup_id p" "wcurrent p \<longrightarrow> wgroups p \<noteq> []"
    using assms(1,2) by (auto simp: ids_ok_def sessions_Some)
  have w: "wcurrent p' \<longrightarrow> wgroups p' \<noteq> []"
    "group_ids (r\<lparr>rinner := Some p'\<rparr>) = group_ids r \<and> wgroup_id p' = wgroup_id p \<or>
     group_ids (r\<lparr>rinner := Some p'\<rparr>) = group_ids r @ [wgroup_id p] \<and> wgroup_id p' = wgroup_id p + 1"
    using write07_ids [OF assms(4) top(2)] unfolding g by auto
  then have "\<forall>i \<in> set (group_ids (r\<lparr>rinner := Some p'\<rparr>)). i < wgroup_id p'"
    using top(1) less_succ [OF assms(3)] by auto
  moreover have "sorted_wrt (<) (group_ids (r\<lparr>rinner := Some p'\<rparr>))"
    using w(2) assms(1) top(1) by (auto simp: ids_ok_def sorted_wrt_append)
  moreover have "fst ` set (wgroups p') \<subseteq> set (group_ids (r\<lparr>rinner := Some p'\<rparr>))" by (auto simp: g(2))
  ultimately show ?thesis using assms(1,2) w(1) by (auto simp: ids_ok_def subset_iff sessions_Some)
qed

lemma ensure_session_ids:
  assumes "ids_ok r" "paced_turn a r"
  shows "ids_ok (ensure_session a r) \<and> (\<forall>p \<in> set (sessions (ensure_session a r)). wgroup_id p \<noteq> - 1)"
proof (cases "rinner r \<noteq> None \<and> \<not> found_dead a")
  case True
  then show ?thesis using assms by (auto simp: ensure_session_def paced_turn_def)
next
  case False
  have no_wrap: "\<forall>p \<in> set (sessions r). wgroup_id p \<noteq> - 1" using assms(2) by (simp add: paced_turn_def)
  let ?r = "close_inner r"
  have c: "ids_ok ?r" "rinner ?r = None" "sessions ?r = sessions r" using ids_ok_close [OF assms(1)] by simp_all
  show ?thesis
  proof (cases "connects a")
    case None
    then have "\<exists>n. ensure_session a r = ?r\<lparr>rslept := n\<rparr>" using False by (auto simp: ensure_session_def Let_def)
    then show ?thesis using c no_wrap by fastforce
  next
    case (Some b)
    then have b: "b \<noteq> - 1" "\<forall>p \<in> set (sessions r). wgroup_id p \<le> b" using assms(2) False by (auto simp: paced_turn_def)
    have "ids_ok (?r\<lparr>rinner := Some (publish07 b)\<rparr>)" by (rule ids_ok_connect) (use c b in simp_all)
    moreover have "\<forall>p \<in> set (sessions (?r\<lparr>rinner := Some (publish07 b)\<rparr>)). wgroup_id p \<noteq> - 1"
      using c b(1) no_wrap by (simp add: publish07_def)
    moreover have "\<exists>n. ensure_session a r = ?r\<lparr>rslept := n\<rparr> \<or>
        ensure_session a r = ?r\<lparr>rinner := Some (publish07 b), rslept := n\<rparr>"
      using False Some by (cases "rejected a") (auto simp: ensure_session_def Let_def)
    ultimately show ?thesis using c no_wrap by fastforce
  qed
qed

lemma resilient_step_ids:
  assumes "ids_ok r" "paced_turn a r" "resilient_step a data n r = (r', ok)"
  shows "ids_ok r'"
proof (cases "rinner (ensure_session a r)")
  case None
  then show ?thesis using ensure_session_ids [OF assms(1,2)] assms(3) by (simp add: resilient_step_def Let_def)
next
  case (Some p)
  let ?r = "ensure_session a r"
  obtain p' b where w: "write07 (creates a) (writes a) data n p = (p', b)" by fastforce
  have "wgroup_id p \<noteq> - 1" using ensure_session_ids [OF assms(1,2)] sessions_Some [OF Some] by auto
  from ids_ok_write [OF _ Some this w] ensure_session_ids [OF assms(1,2)] have "ids_ok (?r\<lparr>rinner := Some p'\<rparr>)" by blast
  then show ?thesis using assms(3) Some w ids_ok_close
    by (cases b) (auto simp: resilient_step_def Let_def)
qed

lemma resilient_write_ids: "ids_ok r \<Longrightarrow> paced as data n r \<Longrightarrow> ids_ok (fst (resilient_write as data n r))"
proof (induction as arbitrary: r)
  case (Cons a as)
  obtain r1 b where 1: "resilient_step a data n r = (r1, b)" by fastforce
  have "paced_turn a r" "b \<or> paced as data n r1" using Cons.prems(2) 1 by simp_all
  then show ?case using Cons.IH resilient_step_ids [OF Cons.prems(1) _ 1] 1 by (cases b) auto
qed simp

text \<open>C21: group ids are unique over all sessions of a publisher, whatever connects, dies or refuses: they
  strictly ascend, as long as every connection finds the clock past the ids used before (a session makes
  no more groups than milliseconds pass until the next one).\<close>

theorem session_ids_ascend:
  assumes "paced_writes ws group_size resilient_new"
  shows "sorted_wrt (<) (group_ids (write_all group_size ws resilient_new))"
proof -
  have "ids_ok (write_all group_size ws r)" if "ids_ok r" "paced_writes ws group_size r" for r
    using that
  proof (induction ws arbitrary: r)
    case (Cons w ws)
    obtain as data where w: "w = (as, data)" by fastforce
    have "ids_ok (fst (resilient_write as data group_size r))"
      by (rule resilient_write_ids) (use Cons.prems w in simp_all)
    then show ?case using Cons.IH Cons.prems(2) unfolding w by simp
  qed simp
  note run = this
  have "ids_ok resilient_new" 
  proof -
    have "sessions resilient_new = []" "rinner resilient_new = None" by (simp_all add: sessions_def resilient_new_def)
    then show ?thesis unfolding ids_ok_def group_ids_def by simp
  qed
  from run [OF this assms] show ?thesis by (simp add: ids_ok_def)
qed

theorem session_ids_ascend_witness:
  "sorted_wrt (<) (group_ids (write_all 1 two_sessions resilient_new)) \<and>
    group_ids (write_all 1 two_sessions resilient_new) = [4000, 4001, 9000]"
  using session_ids_ascend [OF two_sessions_run(1)] two_sessions_run(2) by blast

text \<open>Faster than that the ids repeat: one more group than milliseconds before the next connection is
  enough.\<close>

lemma fast_session_repeats_ids:
  assumes "session_ok n b fs p" "0 < length (wgroups p)" "session_ok n b' fs' p'" "wgroups p' \<noteq> []"
    and "b \<le> b'" "unat b' < unat b + length (wgroups p)"
  shows "b' \<in> fst ` set (wgroups p) \<inter> fst ` set (wgroups p')"
proof -
  let ?k = "unat b' - unat b"
  have k: "?k < length (wgroups p)" "word_of_nat ?k = b' - b" using assms(5,6)
    by (auto simp: unat_sub word_le_nat_alt of_nat_diff)
  have m: "map fst (wgroups p) = map (\<lambda>i. b + word_of_nat i) [0..<length (wgroups p)]"
    "map fst (wgroups p') = map (\<lambda>i. b' + word_of_nat i) [0..<length (wgroups p')]"
    using assms(1,3) by (simp_all add: session_ok_def)
  have "b' \<in> set (map fst (wgroups p))" unfolding m set_map
    by (rule image_eqI [of _ _ ?k]) (use k in auto)
  moreover have "b' \<in> set (map fst (wgroups p'))" unfolding m set_map
    by (rule image_eqI [of _ _ 0]) (use assms(4) in auto)
  ultimately show ?thesis by simp
qed

end
