(* ===== verification/Store_Failures.thy ===== *)
theory Store_Failures
  imports Store_Properties
begin

text \<open>
  Where the store does not keep its promise: after an append that fails while the process lives on, and
  after a crash on the first record of a new segment. Both lie outside \<open>store_run\<close>, which starts
  from each of its states here.
\<close>

section \<open>After a failed append\<close>

text \<open>A short record that does not fit stays in the writer's buffer, and the next write puts it in front.\<close>

lemma put_short:
  assumes "wbuf w = []" "bs \<noteq> []" "length bs < BUF_CAPACITY"
  shows "put d w bs = (written d (wpath w) bs, w\<lparr>wbuf := drop (room_for d bs) bs\<rparr>, room_for d bs = length bs)"
  using assms by (simp add: put_def write_all_def flush_buf_def emit_written Let_def)

lemma put_behind:
  assumes "room d = None" "wbuf w \<noteq> []" "length (wbuf w) < BUF_CAPACITY"
  shows "\<exists>d'. put d w bs = (d', w\<lparr>wbuf := []\<rparr>, True) \<and> granted d' = granted d \<and>
    map_of (files d') (wpath w) = Some (content d (wpath w) @ wbuf w @ bs)"
proof -
  have w: "w\<lparr>wbuf := []\<rparr> = w" if "wbuf w = []" for w :: buf_writer using that by (cases w) simp
  consider "length bs < BUF_CAPACITY - length (wbuf w)" | "length bs = BUF_CAPACITY - length (wbuf w)"
    | "length bs > BUF_CAPACITY - length (wbuf w)" by linarith
  then show ?thesis
  proof cases
    case 1
    then show ?thesis using assms(1,2)
      by (simp add: put_def write_all_def flush_buf_def emit_written written_def room_for_def update_conv Let_def)
  next
    case 2
    moreover have "\<not> BUF_CAPACITY \<le> length bs" using 2 assms(2,3) by (cases "wbuf w") simp_all
    ultimately show ?thesis using assms(1,2)
      by (simp add: put_def write_all_def flush_buf_def emit_written written_def room_for_def update_conv Let_def)
  next
    case 3
    then show ?thesis using assms
      by (cases "bs = []")
        (simp_all add: put_def write_all_def flush_buf_def emit_written written_def room_for_def update_conv content_def Let_def w)
  qed
qed

lemma append_failed:
  assumes "ensure_writer seq d0 st0 = ((d, st), Inr ())" "writer_ready d st rss"
    and "length (record_bytes seq ms frames) < BUF_CAPACITY"
    and "append_group seq ms frames d0 st0 = ((d', st'), Inl e)"
  defines "bs \<equiv> record_bytes seq ms frames" and "p \<equiv> spath (last (segments st))"
  shows "d' = written d p bs \<and> st' = st\<lparr>writer := Some \<lparr>wpath = p, wbuf = drop (room_for d bs) bs\<rparr>\<rparr> \<and> room_for d bs < length bs"
proof -
  let ?w = "\<lparr>wpath = p, wbuf = []\<rparr>"
  have w: "writer st = Some ?w" using assms(2) by (simp add: writer_ready_def p_def)
  have ne: "bs \<noteq> []" by (simp add: bs_def record_bytes_eq)
  show ?thesis using append_put [OF assms(1) w, of ms frames] put_short [of ?w bs d] ne assms(3,4)
    by (auto simp: bs_def room_for_def split: if_splits option.splits)
qed

text \<open>C35: an append that fails for lack of space spoils the one behind it: over any life of the store, if a group
  whose record is shorter than the write buffer cannot be stored and the next append comes when there is room
  again, that append reports success, but its group cannot be read back: its index entry points at the
  record of the failed one.\<close>

theorem failed_append_spoils_next:
  assumes "store_run d st c b" "b \<le> unat seq1" "rec_ok True (seq1, ms1, frames1)" "seq2 \<noteq> seq1" "0 < segment_target st"
    and "length (record_bytes seq1 ms1 frames1) < BUF_CAPACITY"
    and "append_group seq1 ms1 frames1 (d\<lparr>room := Some k\<rparr>) st = ((d1, st1), Inl e)"
    and "append_group seq2 ms2 frames2 (d1\<lparr>room := None\<rparr>) st1 = ((d2, st2), res)"
  shows "res = Inr () \<and> read d2 st2 seq2 = Inl (IndexMismatch seq1 seq2)"
proof -
  let ?bs = "record_bytes seq1 ms1 frames1"
  from store_run_ok [OF assms(1)] obtain rss where ok: "store_ok d st rss b" by blast
  then have rep: "rep d st rss" by (simp add: store_ok_def)
  from store_ready [OF ok assms(2) refl, of "Some k"] obtain d' st' where
    e: "ensure_writer seq1 (d\<lparr>room := Some k\<rparr>) st = ((d', st'), Inr ())"
    and r: "ready seq1 d' st' (rss_ready (rotate_due st) rss)" and room: "room d' = Some k" by blast
  let ?p = "spath (last (segments st'))"
  have w: "writer_ready d' st' (rss_ready (rotate_due st) rss)" and g: "granted d'" using r by (simp_all add: ready_def)
  have same: "rotate_due st' = False"
    using e assms(5) rep by (auto simp: ensure_writer_def take_writer_rep rotate_due_def Let_def split: if_splits list.splits)
  note f = append_failed [OF e w assms(6,7)]
  let ?rest = "drop (room_for d' ?bs) ?bs"
  have rest: "?rest \<noteq> []" "length ?rest < BUF_CAPACITY" using f assms(6) by auto
  obtain segs seg rss0 rs where segs: "segments st' = segs @ [seg]" and seg: "seg_rep d' seg rs"
    using rep_lastE [of d' st'] w unfolding writer_ready_def by metis
  have v2: "sv2 seg" using w segs by (simp add: writer_ready_def)
  have stored: "map_of (files d1) ?p = Some (seg_data True rs @ take (room_for d' ?bs) ?bs)"
    using written_last [OF seg v2] f segs by simp
  let ?d1 = "d1\<lparr>room := None\<rparr>" and ?w = "\<lparr>wpath = ?p, wbuf = ?rest\<rparr>"
  from put_behind [of ?d1 ?w "record_bytes seq2 ms2 frames2"] rest obtain d3 where
    put: "put ?d1 ?w (record_bytes seq2 ms2 frames2) = (d3, \<lparr>wpath = ?p, wbuf = []\<rparr>, True)"
    and g3: "granted d3 = granted d1"
    and f3: "map_of (files d3) ?p = Some (seg_data True rs @ ?bs @ record_bytes seq2 ms2 frames2)"
    using stored by (auto simp: content_def)
  have "rotate_due (st'\<lparr>writer := w\<rparr>) = rotate_due st'" for w by (cases "segments st'") (simp_all add: rotate_due_def)
  then have "rotate_due st1 = False" "writer st1 = Some ?w" using same f by simp_all
  then have "ensure_writer seq2 ?d1 st1 = ((?d1, st1), Inr ())" by (simp add: ensure_writer_def)
  then have "append_group seq2 ms2 frames2 ?d1 st1 =
     ((d3, appended (length (record_bytes seq2 ms2 frames2)) seq2 ms2 (st1\<lparr>writer := Some \<lparr>wpath = ?p, wbuf = []\<rparr>\<rparr>)), Inr ())"
    using append_put [OF _ \<open>writer st1 = Some ?w\<close>, of seq2 ?d1 st1 ?d1 ms2 frames2] put by simp
  then have d2: "d2 = d3" "res = Inr ()"
    and st2: "st2 = appended (length (record_bytes seq2 ms2 frames2)) seq2 ms2 (st1\<lparr>writer := Some \<lparr>wpath = ?p, wbuf = []\<rparr>\<rparr>)"
    using assms(8) by simp_all
  have "segments st1 = segs @ [seg]" using f segs by simp
  then have loc: "locate st2 seq2 = Inr (Some \<lparr>gpath = ?p, goff = sbytes seg, gv2 = True\<rparr>)"
    using v2 segs by (simp add: locate_def st2 appended_def Let_def get_at_def nth_append list_update_append)
  have "read_record True (?bs @ record_bytes seq2 ms2 frames2) = Some ((seq1, ms1, frames1), record_bytes seq2 ms2 frames2)"
    using records.decode_enc [OF assms(3)] by (simp add: record_bytes_eq)
  moreover have "sbytes seg = length (seg_data True rs)" using seg v2 by (simp add: seg_rep_def)
  moreover have "granted d3" using g3 f g by (simp add: written_def)
  ultimately have "read_group_at d3 \<lparr>gpath = ?p, goff = sbytes seg, gv2 = True\<rparr> seq2 = Inl (IndexMismatch seq1 seq2)"
    using f3 assms(4) by (simp add: read_group_at_def)
  then show ?thesis using loc d2 by (simp add: read_def)
qed

definition failed_append :: "(disk \<times> group_store) \<times> (store_error + unit)" where
  "failed_append = (case life2 of (d, st) \<Rightarrow> append_group 6 101 [[4]] (d\<lparr>room := Some 9\<rparr>) st)"

definition after_failure :: "(disk \<times> group_store) \<times> (store_error + unit)" where
  "after_failure = (case failed_append of ((d, st), _) \<Rightarrow> append_group 7 102 [[5]] (d\<lparr>room := None\<rparr>) st)"

theorem failed_append_spoils_next_witness:
  "snd after_failure = Inr () \<and> (case fst after_failure of (d, st) \<Rightarrow> read d st 7) = Inl (IndexMismatch 6 7)"
proof -
  obtain d1 st1 where f: "failed_append = ((d1, st1), Inl WriteFailed)"
  proof -
    have "snd failed_append = Inl WriteFailed" by code_simp
    then show thesis using that by (metis prod.collapse)
  qed
  obtain d2 st2 res where a: "after_failure = ((d2, st2), res)" by (metis prod.collapse)
  have small: "rec_ok True (6, 101, [[4]])" "length (record_bytes 6 101 [[4]]) < BUF_CAPACITY" "0 < segment_target (snd life2)"
    by (simp add: rec_ok_def frame_ok_def frames_body_def, code_simp, code_simp)
  have one: "append_group 6 101 [[4]] (fst life2\<lparr>room := Some 9\<rparr>) (snd life2) = ((d1, st1), Inl WriteFailed)"
    using f by (simp add: failed_append_def case_prod_beta)
  have two: "append_group 7 102 [[5]] (d1\<lparr>room := None\<rparr>) st1 = ((d2, st2), res)" using a unfolding after_failure_def f by simp
  have "res = Inr () \<and> read d2 st2 7 = Inl (IndexMismatch 6 7)"
    by (rule failed_append_spoils_next [OF life2_run _ small(1) _ small(3,2) one two]) simp_all
  then show ?thesis unfolding a by simp
qed

section \<open>After a crash on a new segment\<close>

text \<open>C36: a crash on the first record of a new segment spoils later collections: the segment without a complete
  record is reopened with 0 as its first sequence number, and a collection that then drops all segments
  before it keeps the index entries of the last of them: its groups are gone, but reading one is an error
  instead of nothing.\<close>

theorem empty_segment_spoils_gc:
  assumes "store_run d st c b" "b \<le> unat seq" "rec_ok True (seq, ms, frames)" "rotate_due st"
    and "append_group seq ms frames (d\<lparr>room := Some k\<rparr>) st = ((d1, st1), Inl e)"
    and "open_with_segment_target target (d1\<lparr>room := None\<rparr>) = (d2, Inr st2)"
    and "gc cutoff_ms max_bytes d2 st2 = (d3, st3, n)" "n = length (segments st)"
    and "c q \<noteq> None" "\<forall>s \<in> set (segments st2). sfirst s \<le> q"
  shows "sfirst (last (segments st2)) = 0 \<and> read d3 st3 q = Inl (TruncatedRecord q)"
proof -
  from store_run_ok [OF assms(1)] obtain rss where ok: "store_ok d st rss b" and c: "contents rss = c" by blast
  have len: "length rss = length (segments st)" using ok rep_length by (fastforce simp: store_ok_def)
  from crash_files [OF ok assms(2,3,5)] obtain fs where fs: "map (fst \<circ> snd) fs = rss @ [[]]"
    "\<forall>f \<in> set fs. file_rep (d1\<lparr>room := None\<rparr>) f" "named (Suc (unat seq)) (map fst fs)"
    "lists (d1\<lparr>room := None\<rparr>) (map fst fs)" "granted d1" using assms(4) by (auto simp: rss_ready_def)
  then have "dir_rep (d1\<lparr>room := None\<rparr>) fs" using listing_sorted [OF fs(3,4)] named_distinct [OF fs(3)] by (simp add: dir_rep_def)
  note op = open_rep [OF this, of target]
  have d2: "rep d2 st2 (rss @ [[]])" "granted d2" and st2: "st2 = opened target fs" using op assms(6) fs(1,5) by auto
  obtain fs0 p t where split: "fs = fs0 @ [(p, [], t)]" using fs(1) by (cases fs rule: rev_cases) auto
  have segs: "segments st2 = map scanned fs0 @ [scanned (p, [], t)]" by (simp add: st2 opened_def split)
  have n: "length (map scanned fs0) = n" using arg_cong [OF fs(1), of length] len assms(8) by (simp add: split)
  have dist: "distinct (map spath (segments st2))" using d2(1) by (simp add: rep_def)
  have "set (tl (segments st2)) \<subseteq> set (segments st2)" by (cases "segments st2") auto
  then have low: "\<forall>s \<in> set (tl (segments st2)). sfirst s \<le> q" using assms(10) by blast
  obtain segs' idx' where g: "gc_loop cutoff_ms max_bytes (total_bytes st2) d2 (segments st2) (index st2) = (d3, segs', idx', n)"
    and st3: "st3 = st2\<lparr>segments := segs', index := idx'\<rparr>"
    using assms(7) by (auto simp: gc_def split: prod.splits)
  from gc_loop_keeps [OF low dist, where cutoff = cutoff_ms and mb = max_bytes and tot = "total_bytes st2" and d = d2 and idx = "index st2", unfolded g prod.case]
  have segs': "segs' = [scanned (p, [], t)]" and d3: "granted d3" "map_of (files d3) p = map_of (files d2) p"
    and get: "om_get idx' q = map_option (\<lambda>loc. loc\<lparr>lseg := lseg loc - n\<rparr>) (om_get (index st2) q)"
    using d2(2) n by (auto simp: segs)
  have "contents (rss @ [[]]) q \<noteq> None" using assms(9) c contents_concat [of "rss @ [[]]" rss] by simp
  then obtain loc where loc: "om_get (index st2) q = Some loc" using rep_index(1) [OF d2(1), of q] by auto
  have "index st2 = index_of [] (place_all 0 (segments st2) (rss @ [[]]))" using d2(1) by (simp add: rep_def)
  with loc obtain x where x: "x \<in> set (place_all 0 (segments st2) (rss @ [[]]))" "fst x = loc"
    by (auto simp: om_get_index_of split: option.splits dest: find_rev_Some)
  from place_all_in [OF rep_length [OF d2(1)] x(1)] have "lseg loc < length (segments st2)" using x(2) by auto
  then have "lseg loc - n = 0" using n by (simp add: segs)
  then have "locate st3 q = Inr (Some \<lparr>gpath = p, goff = loff loc, gv2 = is_v2 p\<rparr>)"
    using get loc by (simp add: locate_def st3 segs' get_at_def)
  moreover have "seg_rep d2 (scanned (p, [], t)) []"
    using d2(1) by (auto simp: rep_def segs list_all2_append1 list_all2_Cons1 append_eq_append_conv2 Cons_eq_append_conv)
  then have "map_of (files d3) p = Some []" using d3(2) by (simp add: seg_rep_def seg_data_def)
  then have "read_group_at d3 \<lparr>gpath = p, goff = loff loc, gv2 = is_v2 p\<rparr> q = Inl (TruncatedRecord q)"
    using d3(1) by (simp add: read_group_at_def read_record_def read_full_or_eof_def header_size_def V1_HEADER_def V2_HEADER_def)
  ultimately show ?thesis by (simp add: read_def segs scanned_def)
qed

definition two_groups :: "disk \<times> group_store" where
  "two_groups = (case life2 of (d, st) \<Rightarrow> fst (append_group 6 101 [[4]] d st))"

theorem empty_segment_spoils_gc_witness:
  "case append_group 7 102 [[5]] ((fst two_groups)\<lparr>room := Some 9\<rparr>) (snd two_groups) of ((d1, _), _) \<Rightarrow>
     (case open_with_segment_target 40 (d1\<lparr>room := None\<rparr>) of
        (d2, Inr st2) \<Rightarrow> (case gc 102 0 d2 st2 of (d3, st3, _) \<Rightarrow> read d3 st3 5 = Inl (TruncatedRecord 5))
      | _ \<Rightarrow> False)"
proof -
  let ?a = "append_group 7 102 [[5]] ((fst two_groups)\<lparr>room := Some 9\<rparr>) (snd two_groups)"
  let ?o = "open_with_segment_target 40 ((fst (fst ?a))\<lparr>room := None\<rparr>)"
  have run: "store_run (fst two_groups) (snd two_groups) ([5 \<mapsto> [[1, 2], [3]]](6 \<mapsto> [[4]])) (Suc (unat (6 :: u64)))"
    by (rule store_run.append [OF life2_run, where ms = 101])
      (simp, simp add: rec_ok_def frame_ok_def frames_body_def, code_simp)
  have "case ?a of (_, Inl _) \<Rightarrow> True | _ \<Rightarrow> False" by code_simp
  then obtain d1 st1 e where a: "?a = ((d1, st1), Inl e)" by (auto split: prod.splits sum.splits)
  have "case ?o of (_, Inr st2) \<Rightarrow> map sfirst (segments st2) = [5, 0] | _ \<Rightarrow> False" by code_simp
  then obtain d2 st2 where o: "?o = (d2, Inr st2)" and firsts: "map sfirst (segments st2) = [5, 0]"
    by (auto split: prod.splits sum.splits)
  have "case ?o of (d2, Inr st2) \<Rightarrow> snd (snd (gc 102 0 d2 st2)) = 1 | _ \<Rightarrow> False" by code_simp
  then have "snd (snd (gc 102 0 d2 st2)) = 1" unfolding o by simp
  then obtain d3 st3 where g: "gc 102 0 d2 st2 = (d3, st3, 1)" by (metis prod.collapse)
  have due: "rotate_due (snd two_groups)" "1 = length (segments (snd two_groups))" by code_simp+
  have "sfirst ` set (segments st2) = {5, 0}" using arg_cong [OF firsts, of set] by simp
  then have "sfirst s \<in> {5, 0}" if "s \<in> set (segments st2)" for s using that by (metis imageI)
  then have low: "\<forall>s \<in> set (segments st2). sfirst s \<le> 5" by (metis insertE order_refl singletonD word_zero_le)
  have rec: "rec_ok True (7, 102, [[5]])" by (simp add: rec_ok_def frame_ok_def frames_body_def)
  have "read d3 st3 5 = Inl (TruncatedRecord 5)"
    using empty_segment_spoils_gc [OF run _ rec due(1) a o [unfolded a fst_conv] g due(2) _ low] by simp
  then show ?thesis using a o g by simp
qed

end
