(* ===== verification/Publisher_Failures.thy ===== *)
theory Publisher_Failures
  imports Publisher_Properties
begin





end
