(* ===== verification/Web_Properties.thy ===== *)
theory Web_Properties
  imports Web
begin

text \<open>
  What the frontends promise: a request is read the same however it arrives, the text handed on is
  well-formed UTF-8, and the health check is exact.
\<close>

section \<open>Lossy decoding\<close>

lemma utf8_valid_replacement [simp]: "utf8_valid (replacement @ bs) = utf8_valid bs"
  by (simp add: replacement_def in_range_def cont_byte_def second_ok_def)

text \<open>Lead bytes of two-byte forms take any continuation byte.\<close>

lemma second_ok_two: "in_range 0xC2 0xDF b \<Longrightarrow> second_ok b c = cont_byte c"
  by (auto simp: second_ok_def in_range_def)

lemma first_char_valid:
  assumes "first_char b bs = Inr n"
  shows "utf8_valid (take n (b # bs) @ r) = utf8_valid r"
proof -
  consider "b < 0x80" | "\<not> b < 0x80" "in_range 0xC2 0xDF b"
    | "\<not> b < 0x80" "\<not> in_range 0xC2 0xDF b" "in_range 0xE0 0xEF b"
    | "\<not> b < 0x80" "\<not> in_range 0xC2 0xDF b" "\<not> in_range 0xE0 0xEF b" "in_range 0xF0 0xF4 b"
    | "\<not> b < 0x80" "\<not> in_range 0xC2 0xDF b" "\<not> in_range 0xE0 0xEF b" "\<not> in_range 0xF0 0xF4 b" by blast
  then show ?thesis
  proof cases
    case 1
    then show ?thesis using assms by (auto simp: first_char_def)
  next
    case 2
    then show ?thesis using assms
      by (cases bs) (auto simp: first_char_def needed_def follow_def second_ok_two split: if_splits)
  next
    case 3
    then show ?thesis using assms
      by (cases bs; cases "tl bs") (auto simp: first_char_def needed_def follow_def split: if_splits)
  next
    case 4
    then show ?thesis using assms
      by (cases bs; cases "tl bs"; cases "tl (tl bs)")
        (auto simp: first_char_def needed_def follow_def numeral_2_eq_2 split: if_splits)
  next
    case 5
    then show ?thesis using assms by (simp add: first_char_def needed_def)
  qed
qed

lemma valid_first_char:
  assumes "utf8_valid (b # bs)"
  shows "\<exists>n. first_char b bs = Inr n"
  using assms
  by (auto simp: first_char_def needed_def follow_def second_ok_two numeral_2_eq_2 split: if_splits list.splits)

lemma lossy_facts: "utf8_valid (lossy bs) \<and> (utf8_valid bs \<longrightarrow> lossy bs = bs)"
proof (induction bs rule: lossy.induct)
  case (2 b bs)
  show ?case
  proof (cases "first_char b bs")
    case (Inl n)
    then show ?thesis using "2.IH"(1) [OF Inl] valid_first_char [of b bs] by auto
  next
    case (Inr n)
    have "utf8_valid (b # bs) = utf8_valid (drop n (b # bs))"
      using first_char_valid [OF Inr, of "drop n (b # bs)"] by simp
    then show ?thesis using "2.IH"(2) [OF Inr] Inr by (auto simp: first_char_valid [OF Inr] simp del: utf8_valid.simps)
  qed
qed simp

text \<open>whatever bytes a client sends, the request is handled as well-formed UTF-8, and a
  well-formed request is not changed.\<close>

theorem lossy_utf8: "utf8_valid (lossy bs) \<and> (utf8_valid bs \<longrightarrow> lossy bs = bs)"
  by (rule lossy_facts)

theorem lossy_utf8_witness: "lossy (of_text ''GET'') = of_text ''GET''"
proof -
  have "utf8_valid (of_text ''GET'')" by code_simp
  then show ?thesis using lossy_utf8 by blast
qed

section \<open>The head of a request\<close>

lemma has_blank_line_skip: "13 \<notin> set xs \<Longrightarrow> has_blank_line (xs @ ys) = has_blank_line ys"
  by (induction xs) auto

text \<open>Lines, each ended by CR LF, and an empty one after them.\<close>

definition head_bytes :: "bytes list \<Rightarrow> bytes" where
  "head_bytes ls = concat (map (\<lambda>l. l @ [13, 10]) ls) @ [13, 10]"

lemma head_bytes_Cons: "head_bytes (l # ls) = l @ 13 # 10 # head_bytes ls"
  by (simp add: head_bytes_def)

lemma no_blank_line: "13 \<notin> set xs \<Longrightarrow> \<not> has_blank_line xs"
  using has_blank_line_skip [of xs "[]"] by simp

lemma blank_line_after:
  assumes "\<forall>l \<in> set ls. 13 \<notin> set l \<and> l \<noteq> []"
  shows "has_blank_line (13 # 10 # head_bytes ls) \<and>
    (\<forall>k < length (13 # 10 # head_bytes ls). \<not> has_blank_line (take k (13 # 10 # head_bytes ls)))"
  using assms
proof (induction ls)
  case Nil
  then show ?case by (auto simp: head_bytes_def less_Suc_eq numeral_eq_Suc)
next
  case (Cons l ls)
  let ?r = "13 # 10 # head_bytes ls"
  have skip: "has_blank_line (13 # 10 # l @ ys) = has_blank_line ys" for ys
    using Cons.prems by (cases l) (auto simp: has_blank_line_skip)
  have short: "\<not> has_blank_line (13 # 10 # take j l)" for j
    using Cons.prems no_blank_line [of "take j l"] by (cases l; cases j) (auto dest: in_set_takeD)
  have r: "13 # 10 # head_bytes (l # ls) = 13 # 10 # l @ ?r" by (simp add: head_bytes_Cons)
  have "\<not> has_blank_line (take k (13 # 10 # l @ ?r))" if k: "k < length (13 # 10 # l @ ?r)" for k
  proof (cases "k \<le> 2 + length l")
    case True
    show ?thesis
    proof (cases "k \<le> 1")
      case True
      then show ?thesis by (cases "k = 0") (auto simp: take_Cons')
    next
      case False
      then have "take k (13 # 10 # l @ ?r) = 13 # 10 # take (k - 2) l"
        using \<open>k \<le> 2 + length l\<close> by (simp add: take_Cons' numeral_2_eq_2)
      then show ?thesis using short by simp
    qed
  next
    case False
    then have "take k (13 # 10 # l @ ?r) = 13 # 10 # l @ take (k - 2 - length l) ?r" by (simp add: take_Cons' [of _ 13] take_Cons' [of _ 10])
    then show ?thesis using Cons k False by (simp only: skip) (auto simp del: take_Suc_Cons)
  qed
  then show ?case using Cons skip unfolding r by auto
qed

lemma blank_line_last:
  assumes "13 \<notin> set l" "\<forall>l \<in> set ls. 13 \<notin> set l \<and> l \<noteq> []"
  shows "has_blank_line (head_bytes (l # ls))"
    and "k < length (head_bytes (l # ls)) \<Longrightarrow> \<not> has_blank_line (take k (head_bytes (l # ls)))"
proof -
  note after = blank_line_after [OF assms(2)]
  show "has_blank_line (head_bytes (l # ls))"
    using after by (simp add: head_bytes_Cons has_blank_line_skip [OF assms(1)] del: has_blank_line.simps)
  assume k: "k < length (head_bytes (l # ls))"
  have "take k (head_bytes (l # ls)) = take k l @ take (k - length l) (13 # 10 # head_bytes ls)"
    by (simp add: head_bytes_Cons)
  moreover have "13 \<notin> set (take k l)" using assms(1) by (auto dest: in_set_takeD)
  ultimately have "has_blank_line (take k (head_bytes (l # ls))) =
      has_blank_line (take (k - length l) (13 # 10 # head_bytes ls))" by (metis has_blank_line_skip)
  moreover have "k - length l < length (13 # 10 # head_bytes ls)" using k by (simp add: head_bytes_Cons)
  ultimately show "\<not> has_blank_line (take k (head_bytes (l # ls)))"
    using after by blast
qed

lemma read_head_chunks:
  assumes "buf @ concat chunks = req" "chunks \<noteq> []" "[] \<notin> set chunks" "length req \<le> BUFFER"
    and "has_blank_line req" "\<And>k. k < length req \<Longrightarrow> \<not> has_blank_line (take k req)"
  shows "read_head (map Some chunks) buf = Some req"
  using assms
proof (induction chunks arbitrary: buf)
  case (Cons c cs)
  have len: "length buf + length c \<le> BUFFER" using Cons.prems(1,4) by auto
  then have buf: "buf @ take (BUFFER - length buf) c = buf @ c" by simp
  have c: "c \<noteq> []" using Cons.prems(3) by auto
  show ?case
  proof (cases "cs = []")
    case True
    then have "buf @ c = req" using Cons.prems(1) by simp
    then show ?thesis using c Cons.prems(5) True by (simp add: buf)
  next
    case False
    then have "concat cs \<noteq> []" using Cons.prems(3) by (cases cs) auto
    then have less: "length (buf @ c) < length req" using Cons.prems(1) by auto
    have "take (length (buf @ c)) req = buf @ c" using Cons.prems(1) by auto
    then have "\<not> has_blank_line (buf @ c)" using Cons.prems(6) [OF less] by simp
    moreover have "length (buf @ c) \<noteq> BUFFER" using less Cons.prems(4) by simp
    moreover have "read_head (map Some cs) (buf @ c) = Some req"
      using Cons.IH [of "buf @ c"] Cons.prems False by simp
    ultimately show ?thesis using c by (simp add: buf)
  qed
qed simp

section \<open>Its parts\<close>

text \<open>Visible ASCII characters.\<close>

definition vis :: "u8 \<Rightarrow> bool" where
  "vis b \<longleftrightarrow> 33 \<le> b \<and> b \<le> 126"

lemma vis_not_space:
  "vis b \<Longrightarrow> p \<in> set white_space \<Longrightarrow> p \<noteq> [] \<and> hd p \<noteq> b"
  "vis b \<Longrightarrow> p \<in> set (map rev white_space) \<Longrightarrow> p \<noteq> [] \<and> hd p \<noteq> b"
  by (auto simp: white_space_def vis_def)

lemma strip_vis:
  "vis b \<Longrightarrow> strip white_space (b # bs) = b # bs"
  "vis b \<Longrightarrow> strip (map rev white_space) (b # bs) = b # bs"
  by (rule strip_stop, use vis_not_space in blast)+

lemma strip_space: "vis b \<Longrightarrow> strip white_space (32 # b # bs) = b # bs"
proof -
  assume v: "vis b"
  have "find (\<lambda>p. p \<noteq> [] \<and> is_prefix p (32 # b # bs)) white_space = Some [32]"
    by (simp add: white_space_def is_prefix_def)
  then show ?thesis using strip_vis(1) [OF v, of bs] by (simp add: strip.simps [of white_space "32 # b # bs"])
qed

lemma until_space_vis: "\<forall>b \<in> set w. vis b \<Longrightarrow> until_space (w @ 32 # r) = (w, 32 # r)"
proof (induction w)
  case Nil
  have "[32] \<in> set white_space" "is_prefix [32] (32 # r)" by (simp_all add: white_space_def is_prefix_def)
  then have "\<exists>p \<in> set white_space. is_prefix p (32 # r)" by blast
  then show ?case by simp
next
  case (Cons b w)
  have "\<not> (\<exists>p \<in> set white_space. is_prefix p (b # w @ 32 # r))"
  proof
    assume "\<exists>p \<in> set white_space. is_prefix p (b # w @ 32 # r)"
    then obtain p where p: "p \<in> set white_space" "is_prefix p (b # w @ 32 # r)" by blast
    then have "p \<noteq> []" "hd p \<noteq> b" using vis_not_space(1) [of b p] Cons.prems by auto
    then show False using p(2) by (cases p) (auto simp: is_prefix_def)
  qed
  then show ?case using Cons by simp
qed

lemma next_word_vis:
  assumes "w \<noteq> []" "\<forall>b \<in> set w. vis b"
  shows "next_word (w @ 32 # r) = Some (w, 32 # r)" "next_word (32 # w @ 32 # r) = Some (w, 32 # r)"
proof -
  obtain b bs where w: "w = b # bs" using assms(1) by (cases w) auto
  then have "strip white_space (w @ 32 # r) = w @ 32 # r" "strip white_space (32 # w @ 32 # r) = w @ 32 # r"
    using strip_vis(1) [of b] strip_space [of b] assms(2) by auto
  then show "next_word (w @ 32 # r) = Some (w, 32 # r)" "next_word (32 # w @ 32 # r) = Some (w, 32 # r)"
    using until_space_vis [OF assms(2), of r] assms(1) by (simp_all add: next_word_def)
qed

lemma strip_pad:
  assumes "vis b"
  shows "strip white_space (replicate i 32 @ b # bs) = b # bs" "strip (map rev white_space) (replicate i 32 @ b # bs) = b # bs"
proof -
  have skip: "strip white_space (32 # r) = strip white_space r" "strip (map rev white_space) (32 # r) = strip (map rev white_space) r" for r
  proof -
    have "find (\<lambda>p. p \<noteq> [] \<and> is_prefix p (32 # r)) white_space = Some [32]"
      "find (\<lambda>p. p \<noteq> [] \<and> is_prefix p (32 # r)) (map rev white_space) = Some [32]"
      by (simp_all add: white_space_def is_prefix_def)
    then show "strip white_space (32 # r) = strip white_space r" "strip (map rev white_space) (32 # r) = strip (map rev white_space) r"
      by (simp_all add: strip.simps [of white_space "32 # r"] strip.simps [of "map rev white_space" "32 # r"])
  qed
  show "strip white_space (replicate i 32 @ b # bs) = b # bs" by (induction i) (simp_all add: skip(1) strip_vis(1) [OF assms])
  show "strip (map rev white_space) (replicate i 32 @ b # bs) = b # bs" by (induction i) (simp_all add: skip(2) strip_vis(2) [OF assms])
qed

lemma trim_value:
  assumes "w \<noteq> []" "\<forall>b \<in> set w. vis b"
  shows "trim (replicate i 32 @ w @ replicate j 32) = w"
proof -
  obtain b bs where w: "w = b # bs" using assms(1) by (cases w) auto
  obtain c cs where r: "rev w = c # cs" using assms(1) by (cases "rev w") auto
  have "c \<in> set w" using r by (metis list.set_intros(1) set_rev)
  then have "strip (map rev white_space) (replicate j 32 @ rev w) = rev w" using strip_pad(2) [of c] assms(2) r by simp
  moreover have "strip white_space (replicate i 32 @ w @ replicate j 32) = w @ replicate j 32" using strip_pad(1) [of b] assms(2) w by simp
  ultimately show ?thesis by (simp add: trim_def)
qed

lemma split_lines_line: "10 \<notin> set l \<Longrightarrow> split_lines acc (l @ 10 # r) = strip_cr (acc @ l) # split_lines [] r"
  by (induction l arbitrary: acc) auto

lemma split_lines_crlf: "10 \<notin> set l \<Longrightarrow> split_lines [] (l @ 13 # 10 # r) = l # split_lines [] r"
  using split_lines_line [of "l @ [13]" "[]" r] by (simp add: strip_cr_def)

lemma split_lines_head: "\<forall>l \<in> set ls. 10 \<notin> set l \<Longrightarrow> split_lines [] (head_bytes ls) = ls @ [[]]"
  by (induction ls) (simp_all add: head_bytes_def split_lines_crlf strip_cr_def)

text \<open>A line of printable characters, and one that is not a host header.\<close>

definition printable :: "bytes \<Rightarrow> bool" where
  "printable l \<longleftrightarrow> l \<noteq> [] \<and> (\<forall>b \<in> set l. 32 \<le> b \<and> b \<le> 126)"

definition other_header :: "bytes \<Rightarrow> bool" where
  "other_header l \<longleftrightarrow> printable l \<and> (case split_colon l of None \<Rightarrow> True | Some (k, v) \<Rightarrow> map ascii_lower k \<noteq> of_text ''host'')"

definition request_line :: "bytes \<Rightarrow> bytes \<Rightarrow> bytes \<Rightarrow> bytes" where
  "request_line meth path version = meth @ 32 # path @ 32 # version"

definition header_line :: "bytes \<Rightarrow> nat \<Rightarrow> bytes \<Rightarrow> nat \<Rightarrow> bytes" where
  "header_line k i v j = k @ 58 # replicate i 32 @ v @ replicate j 32"

lemma host_name_letters:
  assumes "map ascii_lower k = of_text ''host''" "b \<in> set k"
  shows "65 \<le> b \<and> b \<le> 122"
proof -
  have "ascii_lower b \<in> set (of_text ''host'')" using assms by (metis image_eqI list.set_map)
  then have low: "ascii_lower b \<in> {104, 111, 115, 116}" by (simp add: of_text_def)
  show ?thesis
  proof (cases "65 \<le> b \<and> b \<le> 90")
    case True
    then show ?thesis by (auto intro: order_trans)
  next
    case False
    then have "b \<in> {104, 111, 115, 116}" using low by (auto simp: ascii_lower_def)
    then show ?thesis by auto
  qed
qed

lemma host_header_found:
  assumes "map ascii_lower k = of_text ''host''" "h \<noteq> []" "\<forall>b \<in> set h. vis b" "\<forall>l \<in> set before. other_header l"
  shows "host_header (before @ header_line k i h j # after) = Some h"
  using assms(4)
proof (induction before)
  case Nil
  have "b \<noteq> 58" if "b \<in> set k" for b using host_name_letters [OF assms(1) that] by auto
  then have "split_colon (header_line k i h j) = Some (k, replicate i 32 @ h @ replicate j 32)"
    by (simp add: header_line_def split_colon_def)
  then show ?case using trim_value [OF assms(2,3)] assms(1) by simp
qed (auto simp: other_header_def split: option.split)

lemma parse_head_request:
  fixes i j :: nat
  assumes "meth \<noteq> []" "\<forall>b \<in> set meth. vis b" "path \<noteq> []" "\<forall>b \<in> set path. vis b" "printable version"
    and "map ascii_lower k = of_text ''host''" "h \<noteq> []" "\<forall>b \<in> set h. vis b"
    and "\<forall>l \<in> set before. other_header l" "\<forall>l \<in> set after. printable l"
  defines "req \<equiv> head_bytes (request_line meth path version # before @ header_line k i h j # after)"
  shows "parse_head req = Some (to_text path, Some (to_text h))"
    and "has_blank_line req" "c < length req \<Longrightarrow> \<not> has_blank_line (take c req)"
proof -
  let ?rest = "before @ header_line k i h j # after"
  have vis: "32 \<le> b \<and> b \<le> 126" if "vis b" for b using that by (auto simp: vis_def intro: order_trans [of 32 33])
  have "32 \<le> b \<and> b \<le> 126" if "b \<in> set k" for b
    using host_name_letters [OF assms(6) that] by (auto intro: order_trans [of 32 65] order_trans [of b 122])
  then have host: "printable (header_line k i h j)" using assms(8) vis by (auto simp: printable_def header_line_def)
  have first: "printable (request_line meth path version)"
    using assms(2,4,5) vis by (auto simp: printable_def request_line_def)
  have all: "\<forall>l \<in> set (request_line meth path version # ?rest). printable l"
    using assms(9,10) host first by (auto simp: other_header_def)
  have small: "b < 0x80 \<and> b \<noteq> 13 \<and> b \<noteq> 10" if "printable l" "b \<in> set l" for l b
    using that by (auto simp: printable_def intro: le_less_trans)
  have ascii: "\<forall>b \<in> set (head_bytes ls). b < 0x80" if "\<forall>l \<in> set ls. printable l" for ls
  proof -
    have "\<forall>l \<in> set ls. \<forall>b \<in> set l. b < 0x80" using that small by blast
    then show ?thesis by (auto simp: head_bytes_def)
  qed
  from ascii [OF all] have lossy: "lossy req = req" unfolding req_def using lossy_facts utf8_valid_ascii by blast
  have "\<forall>l \<in> set (request_line meth path version # ?rest). 10 \<notin> set l" using all small by blast
  then have "split_lines [] req = (request_line meth path version # ?rest) @ [[]]" unfolding req_def by (rule split_lines_head)
  moreover have "next_word (request_line meth path version) = Some (meth, 32 # path @ 32 # version)"
    using next_word_vis(1) [OF assms(1,2)] by (simp add: request_line_def)
  moreover have "host_header (?rest @ [[]]) = Some h"
    using host_header_found [OF assms(6-9), of i j "after @ [[]]"] by simp
  ultimately show "parse_head req = Some (to_text path, Some (to_text h))"
    using next_word_vis(2) [OF assms(3,4)] by (simp add: parse_head_def lossy)
  have ne: "13 \<notin> set l \<and> l \<noteq> []" if "printable l" for l using that small [OF that] by (auto simp: printable_def)
  have "13 \<notin> set (request_line meth path version)" using ne [OF first] by blast
  moreover have "\<forall>l \<in> set ?rest. 13 \<notin> set l \<and> l \<noteq> []" using all ne by simp
  ultimately show "has_blank_line req" "c < length req \<Longrightarrow> \<not> has_blank_line (take c req)"
    unfolding req_def by (rule blank_line_last)+
qed

text \<open>C28: a request is understood however it arrives: cut into any non-empty reads, a head of printable
  characters that fits the buffer, a request line, a host header in any letter case and any headers before
  and after it, yields the path and the host without the spaces around it.\<close>

theorem read_request_chunks:
  assumes "concat chunks = head_bytes (request_line meth path version # before @ header_line k i h j # after)"
    and "[] \<notin> set chunks" "length (concat chunks) \<le> BUFFER"
    and "meth \<noteq> []" "\<forall>b \<in> set meth. vis b" "path \<noteq> []" "\<forall>b \<in> set path. vis b" "printable version"
    and "map ascii_lower k = of_text ''host''" "h \<noteq> []" "\<forall>b \<in> set h. vis b"
    and "\<forall>l \<in> set before. other_header l" "\<forall>l \<in> set after. printable l"
  shows "read_request (map Some chunks) = Some (to_text path, Some (to_text h))"
proof -
  note req = parse_head_request [OF assms(4-13), where i = i and j = j]
  have "chunks \<noteq> []" using assms(1) by (auto simp: head_bytes_def)
  then have "read_head (map Some chunks) [] = Some (concat chunks)"
    using read_head_chunks [of "[]" chunks "concat chunks"] assms(1-3) req(2,3) by simp
  then show ?thesis using req(1) assms(1) by (simp add: read_request_def)
qed

theorem read_request_chunks_witness:
  "read_request [Some (of_text ''GET /he''), Some (of_text ''althz HTTP/1.1'' @ [13]), Some [10],
     Some (of_text ''Accept: */*'' @ [13, 10] @ of_text ''HOST: a.b:80'' @ [13, 10, 13, 10])] = Some (''/healthz'', Some ''a.b:80'')"
proof -
  let ?chunks = "[of_text ''GET /he'', of_text ''althz HTTP/1.1'' @ [13], [10],
      of_text ''Accept: */*'' @ [13, 10] @ of_text ''HOST: a.b:80'' @ [13, 10, 13, 10]]"
  have cut: "concat ?chunks = head_bytes (request_line (of_text ''GET'') (of_text ''/healthz'') (of_text ''HTTP/1.1'') #
      [of_text ''Accept: */*''] @ header_line (of_text ''HOST'') 1 (of_text ''a.b:80'') 0 # [])"
    by (simp add: head_bytes_def request_line_def header_line_def of_text_Cons)
  have fits: "[] \<notin> set ?chunks" "length (concat ?chunks) \<le> BUFFER" by (simp_all add: of_text_Cons BUFFER_def)
  have words: "of_text ''GET'' \<noteq> []" "\<forall>b \<in> set (of_text ''GET''). vis b" "of_text ''/healthz'' \<noteq> []"
    "\<forall>b \<in> set (of_text ''/healthz''). vis b" "printable (of_text ''HTTP/1.1'')"
    by (simp_all add: of_text_def vis_def printable_def)
  have host: "map ascii_lower (of_text ''HOST'') = of_text ''host''" "of_text ''a.b:80'' \<noteq> []" "\<forall>b \<in> set (of_text ''a.b:80''). vis b"
    by (simp_all add: ascii_lower_def of_text_def vis_def)
  have others: "\<forall>l \<in> set [of_text ''Accept: */*'']. other_header l" "\<forall>l \<in> set []. printable l"
    by (simp_all add: printable_def other_header_def split_colon_def ascii_lower_def of_text_def)
  from read_request_chunks [OF cut fits words host others] show ?thesis by simp
qed

section \<open>Health\<close>

text \<open>the health check fails exactly when a frame has been relayed and the last one is more than a
  minute old; the metrics page, a missing profile and unknown paths answer 200, 501 and 404, and a
  query string does not matter.\<close>

theorem admin_status_exact:
  "fst (admin_route seconds out heap now_ms (before_char CHR ''?'' (''/healthz?'' @ query)) m) =
     (if m_last_frame_unix_ms m \<noteq> 0 \<and> 60000 < unat now_ms - unat (m_last_frame_unix_ms m)
      then ''503 Service Unavailable'' else ''200 OK'') \<and>
   fst (admin_route seconds out heap now_ms ''/metrics'' m) = ''200 OK'' \<and>
   fst (admin_route seconds out (Inl e) now_ms ''/debug/heap'' m) = ''501 Not Implemented'' \<and>
   fst (admin_route seconds out heap now_ms ''/'' m) = ''404 Not Found''"
proof -
  have "before_char CHR ''?'' (''/healthz?'' @ query) = ''/healthz''" by (simp add: before_char_def)
  then show ?thesis
    by (simp add: admin_route_def health_def frame_age_ms_def unat_sat_sub HEALTH_STALE_AFTER_def split: option.split)
qed

section \<open>The redirect\<close>

text \<open>C40: an IPv6 literal in the Host header is cut at its first colon: the client is sent to a location
  with an unclosed bracket, which is no URL.\<close>

theorem redirect_cuts_ipv6:
  assumes "read_request reads = Some (path, Some (''['' @ a @ '':'' @ rest))" "CHR '':'' \<notin> set a"
  shows "redirect_response fallback reads =
    Some (''HTTP/1.1 301 Moved Permanently'' @ crlf @ ''Location: https://['' @ a @ path @ crlf @
      ''Content-Length: 0'' @ crlf @ ''Connection: close'' @ crlf @ crlf)"
proof -
  have "before_char CHR '':'' (''['' @ a @ '':'' @ rest) = ''['' @ a"
    unfolding before_char_def using assms(2) by (auto simp: takeWhile_append1 takeWhile_append)
  then show ?thesis using assms(1) by (simp add: redirect_response_def)
qed

theorem redirect_cuts_ipv6_witness:
  "\<exists>r. redirect_response ''relay.example''
     [Some (of_text ''GET /x HTTP/1.1'' @ [13, 10] @ of_text ''Host: [2001:db8::1]'' @ [13, 10, 13, 10])] =
     Some (''HTTP/1.1 301 Moved Permanently'' @ crlf @ ''Location: https://[2001/x'' @ crlf @ r)"
proof -
  have "read_request [Some (of_text ''GET /x HTTP/1.1'' @ [13, 10] @ of_text ''Host: [2001:db8::1]'' @ [13, 10, 13, 10])] =
      Some (''/x'', Some (''['' @ ''2001'' @ '':'' @ ''db8::1]''))" by code_simp
  from redirect_cuts_ipv6 [OF this] show ?thesis by simp
qed

end
