(* ===== verification/Listeners.thy ===== *)
theory Listeners
  imports Web
begin

text \<open>
  The three HTTP listeners (\<open>serve_redirect\<close>, \<open>serve_landing\<close>, \<open>serve_admin\<close> in
  \<open>rust/crates/atmoq/src/web.rs\<close>): binding, the certificate and key of the landing page, and the accept
  loops. A listener is a function of the connections it was given: \<open>None\<close> for a failed accept, otherwise
  what is read from the connection; it yields what is written to each, \<open>None\<close> where the connection is
  dropped. Errors are the text of their outermost context. The PEM reader, the TLS configuration and the
  handshake are \<open>rustls\<close>'s, and with the file system the fields of \<open>tls_library\<close>.
\<close>

section \<open>Setting up\<close>

definition with_context :: "string \<Rightarrow> 'a option \<Rightarrow> string + 'a" where
  "with_context msg r = (case r of None \<Rightarrow> Inl msg | Some a \<Rightarrow> Inr a)"

lemma with_context_Inr [simp]: "with_context msg r = Inr a \<longleftrightarrow> r = Some a"
  by (simp add: with_context_def split: option.split)

definition bind_listener :: "('addr \<Rightarrow> bool) \<Rightarrow> ('addr \<Rightarrow> string) \<Rightarrow> string \<Rightarrow> 'addr \<Rightarrow> string + unit" where
  "bind_listener binds show_addr what addr =
     with_context (''binding '' @ what @ '' on '' @ show_addr addr) (if binds addr then Some () else None)"

text \<open>Certificates are read one by one; the first that does not parse fails the whole.\<close>

fun collect_certs :: "'cert option list \<Rightarrow> 'cert list option" where
  "collect_certs [] = Some []"
| "collect_certs (None # rest) = None"
| "collect_certs (Some c # rest) = map_option (\<lambda>cs. c # cs) (collect_certs rest)"

record ('cert, 'key, 'conf, 'conn) tls_library =
  open_file :: "string \<Rightarrow> bytes option"
  pem_certs :: "bytes \<Rightarrow> 'cert option list"
  pem_private_key :: "bytes \<Rightarrow> 'key option option"
  single_cert :: "'cert list \<Rightarrow> 'key \<Rightarrow> 'conf option"
  handshake :: "'conf \<Rightarrow> 'conn \<Rightarrow> bytes option list option"

definition tls_config :: "('cert, 'key, 'conf, 'conn) tls_library \<Rightarrow> string \<Rightarrow> string \<Rightarrow> string + 'conf" where
  "tls_config lib cert_path key_path =
     bind_res (with_context ''opening TLS cert'' (open_file lib cert_path)) (\<lambda>cert_pem.
     bind_res (with_context ''parsing TLS cert'' (collect_certs (pem_certs lib cert_pem))) (\<lambda>certs.
     bind_res (with_context ''opening TLS key'' (open_file lib key_path)) (\<lambda>key_pem.
     bind_res (with_context ''parsing TLS key'' (pem_private_key lib key_pem)) (\<lambda>found.
     bind_res (with_context ''no private key found'' found) (\<lambda>key.
       with_context ''building TLS config'' (single_cert lib certs key))))))"

section \<open>Accepting\<close>

text \<open>A failed accept is skipped; every connection is answered by a task of its own.\<close>

fun accept_loop :: "('conn \<Rightarrow> string option) \<Rightarrow> 'conn option list \<Rightarrow> string option list" where
  "accept_loop respond [] = []"
| "accept_loop respond (None # conns) = accept_loop respond conns"
| "accept_loop respond (Some c # conns) = respond c # accept_loop respond conns"

definition serve_redirect :: "('addr \<Rightarrow> bool) \<Rightarrow> ('addr \<Rightarrow> string) \<Rightarrow> 'addr \<Rightarrow> string \<Rightarrow>
    bytes option list option list \<Rightarrow> string + string option list" where
  "serve_redirect binds show_addr addr fallback_host conns =
     bind_res (bind_listener binds show_addr ''http redirect'' addr) (\<lambda>_.
       Inr (accept_loop (redirect_response fallback_host) conns))"

definition serve_landing :: "('cert, 'key, 'conf, 'conn) tls_library \<Rightarrow> ('addr \<Rightarrow> bool) \<Rightarrow> ('addr \<Rightarrow> string) \<Rightarrow> 'addr \<Rightarrow>
    string \<Rightarrow> string \<Rightarrow> string \<Rightarrow> 'conn option list \<Rightarrow> string + string option list" where
  "serve_landing lib binds show_addr addr cert_path key_path page conns =
     bind_res (tls_config lib cert_path key_path) (\<lambda>conf.
     bind_res (bind_listener binds show_addr ''https landing'' addr) (\<lambda>_.
       Inr (accept_loop (\<lambda>c. Option.bind (handshake lib conf c) (landing_response page)) conns)))"

text \<open>What the admin listener's tasks see when they answer: the clock, the shared metrics, the statistics of
  the process and the outcome of a heap profile.\<close>

record admin_conn =
  ac_reads :: "bytes option list"
  ac_now_ms :: u64
  ac_metrics :: metrics
  ac_outside :: outside
  ac_heap :: "string + string"

definition serve_admin :: "(u64 \<Rightarrow> string) \<Rightarrow> ('addr \<Rightarrow> bool) \<Rightarrow> ('addr \<Rightarrow> string) \<Rightarrow> 'addr \<Rightarrow>
    admin_conn option list \<Rightarrow> string + string option list" where
  "serve_admin seconds binds show_addr addr conns =
     bind_res (bind_listener binds show_addr ''admin listener'' addr) (\<lambda>_.
       Inr (accept_loop (\<lambda>c. admin_response seconds (ac_outside c) (ac_heap c) (ac_now_ms c) (ac_metrics c) (ac_reads c))
         conns))"

section \<open>What they promise\<close>

lemma accept_loop_append [simp]: "accept_loop respond (xs @ ys) = accept_loop respond xs @ accept_loop respond ys"
  by (induction respond xs rule: accept_loop.induct) simp_all

lemma accept_loop_map: "accept_loop respond conns = map respond (map the (filter (\<lambda>c. c \<noteq> None) conns))"
  by (induction respond conns rule: accept_loop.induct) simp_all

lemma collect_certs_eq: "collect_certs cs = Some ds \<longleftrightarrow> cs = map Some ds"
  by (induction cs arbitrary: ds rule: collect_certs.induct) auto

lemma bind_listener_Inr [simp]: "bind_listener binds show_addr what addr = Inr u \<longleftrightarrow> binds addr"
  by (simp add: bind_listener_def)

text \<open>The landing page comes up exactly with a readable certificate chain, a key that fits it, and a free
  address; then every connection that completes its handshake and sends a request gets the page.\<close>

lemma landing_up:
  "serve_landing lib binds show_addr addr cert_path key_path page conns = Inr out \<longleftrightarrow>
     (\<exists>cert_pem certs key_pem key conf.
        open_file lib cert_path = Some cert_pem \<and> pem_certs lib cert_pem = map Some certs \<and>
        open_file lib key_path = Some key_pem \<and> pem_private_key lib key_pem = Some (Some key) \<and>
        single_cert lib certs key = Some conf \<and> binds addr \<and>
        out = map (\<lambda>c. Option.bind (handshake lib conf c) (landing_response page)) (map the (filter (\<lambda>c. c \<noteq> None) conns)))"
  by (auto simp: serve_landing_def tls_config_def accept_loop_map collect_certs_eq)

text \<open>one connection never affects another: whatever it sends, and however often an accept fails, each
  connection of an admin listener that is up is answered as if it were the only one; the health of the
  relay is that at the time of the answer.\<close>

theorem admin_isolated:
  "serve_admin seconds binds show_addr addr (before @ Some c # after) =
     (if binds addr
      then Inr (accept_loop (\<lambda>c. admin_response seconds (ac_outside c) (ac_heap c) (ac_now_ms c) (ac_metrics c) (ac_reads c)) before @
        admin_response seconds (ac_outside c) (ac_heap c) (ac_now_ms c) (ac_metrics c) (ac_reads c) #
        accept_loop (\<lambda>c. admin_response seconds (ac_outside c) (ac_heap c) (ac_now_ms c) (ac_metrics c) (ac_reads c)) after)
      else Inl (''binding admin listener on '' @ show_addr addr))"
  by (simp add: serve_admin_def bind_listener_def with_context_def)

end
