(* ===== verification/Serve.thy ===== *)
theory Serve
  imports Relay_Start Listeners
begin

text \<open>
  The commands \<open>relay\<close> and \<open>serve\<close> (\<open>rust/crates/atmoq/src/main.rs\<close>) with the library parts that may refuse:
  the MoQ client is set up before anything else, the MoQ server behind everything else, and a failure
  of either ends the command. The server's accept loop starts one task per session; the tasks and the
  loop interleave over the shared metrics.
\<close>

section \<open>The commands\<close>

datatype command_error = Setup relay_error | Client_init | Server_init

definition relay_main :: "bool \<Rightarrow> u64 \<Rightarrow> (u64 \<Rightarrow> nat) \<Rightarrow> nat \<Rightarrow> relay_args \<Rightarrow> disk \<Rightarrow> disk \<times> (command_error + relaying)" where
  "relay_main client_inits now_ms reload_now now a d =
     (if \<not> a_ietf07 a \<and> \<not> client_inits then (d, Inl Client_init)
      else case relay_command now_ms reload_now now a d of
        (d, Inl e) \<Rightarrow> (d, Inl (Setup e))
      | (d, Inr r) \<Rightarrow> (d, Inr r))"

text \<open>What a server that is up runs: the pump, the redirect, and the landing page.\<close>

record 'addr serving =
  v_pump :: pump_state
  v_admin :: "'addr option"
  v_redirect :: "('addr \<times> string) option"
  v_landing :: "('addr \<times> string \<times> string \<times> string) option"

definition serve_main :: "(string \<Rightarrow> 'addr option) \<Rightarrow> string list \<Rightarrow> string list \<Rightarrow> string \<Rightarrow> bool \<Rightarrow>
    u64 \<Rightarrow> (u64 \<Rightarrow> nat) \<Rightarrow> nat \<Rightarrow> serve_args \<Rightarrow> disk \<Rightarrow> disk \<times> (command_error + 'addr serving)" where
  "serve_main parse_addr certs keys version server_inits now_ms reload_now now a d =
     (case start_relay now_ms reload_now now a d of
        (d, Inl e) \<Rightarrow> (d, Inl (Setup e))
      | (d, Inr s) \<Rightarrow>
          if \<not> server_inits then (d, Inl Server_init)
          else (case web_listeners parse_addr certs keys version a of
                  (redirect, landing) \<Rightarrow>
                    (d, Inr \<lparr>v_pump = s, v_admin = admin_listener parse_addr (a_metrics_bind a),
                           v_redirect = redirect, v_landing = landing\<rparr>)))"

section \<open>The accept loop\<close>

text \<open>A task waits for the handshake of its session, then for the end of the session.\<close>

datatype session_task = Handshake | Session | Finished

record accepting =
  looping :: bool
  tasks :: "session_task list"
  shared_metrics :: metrics

definition accept_start :: "metrics \<Rightarrow> accepting" where
  "accept_start m = \<lparr>looping = True, tasks = [], shared_metrics = m\<rparr>"

definition task_moves :: "nat \<Rightarrow> session_task \<Rightarrow> session_event \<Rightarrow> accepting \<Rightarrow> accepting" where
  "task_moves i t ev a = a\<lparr>tasks := (tasks a)[i := t], shared_metrics := session_step ev (shared_metrics a)\<rparr>"

text \<open>Other tasks count elsewhere in the metrics.\<close>

definition same_sessions :: "metrics \<Rightarrow> metrics \<Rightarrow> bool" where
  "same_sessions m m' \<longleftrightarrow>
     m_subscribers_connected_total m' = m_subscribers_connected_total m \<and>
     m_subscribers_disconnected_total m' = m_subscribers_disconnected_total m \<and>
     m_subscribers_rejected_total m' = m_subscribers_rejected_total m"

inductive accept_step :: "accepting \<Rightarrow> accepting \<Rightarrow> bool" where
  request: "looping a \<Longrightarrow> accept_step a (a\<lparr>tasks := tasks a @ [Handshake]\<rparr>)"
| no_more: "looping a \<Longrightarrow> accept_step a (a\<lparr>looping := False\<rparr>)"
| accepted: "i < length (tasks a) \<Longrightarrow> tasks a ! i = Handshake \<Longrightarrow> accept_step a (task_moves i Session SessionAccepted a)"
| rejected: "i < length (tasks a) \<Longrightarrow> tasks a ! i = Handshake \<Longrightarrow> accept_step a (task_moves i Finished SessionRejected a)"
| closed: "i < length (tasks a) \<Longrightarrow> tasks a ! i = Session \<Longrightarrow> accept_step a (task_moves i Finished SessionEnded a)"
| elsewhere: "same_sessions (shared_metrics a) m \<Longrightarrow> accept_step a (a\<lparr>shared_metrics := m\<rparr>)"

text \<open>Tasks in a state.\<close>

definition in_state :: "session_task \<Rightarrow> accepting \<Rightarrow> nat" where
  "in_state t a = length (filter (\<lambda>u. u = t) (tasks a))"

definition sessions_counted :: "accepting \<Rightarrow> bool" where
  "sessions_counted a \<longleftrightarrow>
     (let m = shared_metrics a in
      unat (m_subscribers_connected_total m) = in_state Session a + unat (m_subscribers_disconnected_total m) \<and>
      in_state Finished a = unat (m_subscribers_disconnected_total m) + unat (m_subscribers_rejected_total m))"

lemma in_state_update:
  assumes "i < length ts" "ts ! i = u" "u \<noteq> v"
  shows "length (filter (\<lambda>w. w = t) (ts[i := v])) =
    (if t = v then Suc (length (filter (\<lambda>w. w = t) ts))
     else if t = u then length (filter (\<lambda>w. w = t) ts) - 1 else length (filter (\<lambda>w. w = t) ts))"
    and "0 < length (filter (\<lambda>w. w = u) ts)"
proof -
  have ts: "ts = take i ts @ u # drop (Suc i) ts" using id_take_nth_drop [OF assms(1)] assms(2) by simp
  have "u \<in> set ts" using assms(1,2) by auto
  then show "0 < length (filter (\<lambda>w. w = u) ts)" by (auto simp: filter_empty_conv)
  have up: "ts[i := v] = take i ts @ v # drop (Suc i) ts" using assms(1) by (simp add: upd_conv_take_nth_drop)
  show "length (filter (\<lambda>w. w = t) (ts[i := v])) =
    (if t = v then Suc (length (filter (\<lambda>w. w = t) ts))
     else if t = u then length (filter (\<lambda>w. w = t) ts) - 1 else length (filter (\<lambda>w. w = t) ts))"
    using arg_cong [OF ts, of "\<lambda>us. length (filter (\<lambda>w. w = t) us)"] assms(3) unfolding up by auto
qed

lemma in_state_total: "in_state Handshake a + in_state Session a + in_state Finished a = length (tasks a)"
proof -
  have "length (filter (\<lambda>u. u = Handshake) ts) + length (filter (\<lambda>u. u = Session) ts) + length (filter (\<lambda>u. u = Finished) ts) =
      length ts" for ts
    by (induction ts) (auto intro: session_task.exhaust)
  then show ?thesis by (simp add: in_state_def)
qed

lemma task_counts:
  assumes "i < length (tasks a)" "tasks a ! i = u" "u \<noteq> v"
  shows "in_state t (task_moves i v ev a) =
      (if t = v then Suc (in_state t a) else if t = u then in_state t a - 1 else in_state t a)"
    and "0 < in_state u a" and "shared_metrics (task_moves i v ev a) = session_step ev (shared_metrics a)"
    and "length (tasks (task_moves i v ev a)) = length (tasks a)"
  using in_state_update [OF assms] by (simp_all add: in_state_def task_moves_def)

lemma unat_plus_one: "unat w + 1 < 2 ^ 64 \<Longrightarrow> unat (w + 1) = unat w + 1" for w :: u64
  by (simp add: unat_word_ariths)

lemma accept_step_counted:
  assumes "accept_step a a'" "length (tasks a) < 2 ^ 64 \<Longrightarrow> sessions_counted a" "length (tasks a') < 2 ^ 64"
  shows "sessions_counted a'"
  using assms
proof (induction rule: accept_step.induct)
  case (accepted i a)
  note t = task_counts [OF accepted(1,2), of Session]
  have ok: "sessions_counted a" "length (tasks a) < 2 ^ 64" using accepted.prems t(4) by simp_all
  have "unat (m_subscribers_connected_total (shared_metrics a)) + 1 < 2 ^ 64"
    using ok t(2) in_state_total [of a] by (simp add: sessions_counted_def Let_def)
  then show ?case using ok(1) t(1,3) unat_plus_one
    by (simp add: sessions_counted_def session_step_def Let_def)
next
  case (rejected i a)
  note t = task_counts [OF rejected(1,2), of Finished]
  have ok: "sessions_counted a" "length (tasks a) < 2 ^ 64" using rejected.prems t(4) by simp_all
  have "unat (m_subscribers_rejected_total (shared_metrics a)) + 1 < 2 ^ 64"
    using ok t(2) in_state_total [of a] by (simp add: sessions_counted_def Let_def)
  then show ?case using ok(1) t(1,3) unat_plus_one
    by (simp add: sessions_counted_def session_step_def Let_def)
next
  case (closed i a)
  note t = task_counts [OF closed(1,2), of Finished]
  have ok: "sessions_counted a" "length (tasks a) < 2 ^ 64" using closed.prems t(4) by simp_all
  have "unat (m_subscribers_disconnected_total (shared_metrics a)) + 1 < 2 ^ 64"
    using ok t(2) in_state_total [of a] by (simp add: sessions_counted_def Let_def)
  then show ?case using ok(1) t(1,2,3) unat_plus_one
    by (simp add: sessions_counted_def session_step_def Let_def)
qed (auto simp: sessions_counted_def in_state_def same_sessions_def Let_def)

text \<open>C22: the subscriber counters are exact in every interleaving: at any moment of the accept loop and its
  session tasks the exported gauge is the number of sessions that are up, and every request is either still
  in its handshake, up, or counted as rejected or disconnected.\<close>

theorem subscriber_gauge_exact:
  assumes "accept_step\<^sup>*\<^sup>* (accept_start metrics_default) a" "length (tasks a) < 2 ^ 64"
  shows "unat (subscribers_live (shared_metrics a)) = in_state Session a \<and>
    length (tasks a) = in_state Handshake a + in_state Session a +
      unat (m_subscribers_disconnected_total (shared_metrics a)) + unat (m_subscribers_rejected_total (shared_metrics a))"
proof -
  have "length (tasks a) < 2 ^ 64 \<longrightarrow> sessions_counted a"
    using assms(1)
  proof (induction rule: rtranclp_induct)
    case base
    show ?case by (simp add: sessions_counted_def accept_start_def in_state_def metrics_default_def)
  next
    case (step a a')
    then show ?case using accept_step_counted [OF step.hyps(2)] by blast
  qed
  then show ?thesis using assms(2) in_state_total [of a]
    by (simp add: sessions_counted_def subscribers_live_def unat_sat_sub Let_def)
qed

text \<open>Three requests: one is rejected, one session is up, one has ended.\<close>

definition three_requests :: accepting where
  "three_requests =
     \<lparr>looping = False, tasks = [Finished, Session, Finished],
      shared_metrics = fold session_step [SessionAccepted, SessionRejected, SessionAccepted, SessionEnded] metrics_default\<rparr>"

lemma three_requests_reachable: "accept_step\<^sup>*\<^sup>* (accept_start metrics_default) three_requests"
proof -
  let ?m = "\<lambda>evs. fold session_step evs metrics_default"
  let ?a = "\<lambda>l ts evs. \<lparr>looping = l, tasks = ts, shared_metrics = ?m evs\<rparr>"
  have 0: "accept_start metrics_default = ?a True [] []" by (simp add: accept_start_def)
  have more: "accept_step (?a True ts evs) (?a True (ts @ [Handshake]) evs)" for ts evs
    using accept_step.request [of "?a True ts evs"] by simp
  have "accept_step (?a True [Handshake, Handshake, Handshake] []) (?a True [Session, Handshake, Handshake] [SessionAccepted])"
    using accept_step.accepted [of 0 "?a True [Handshake, Handshake, Handshake] []"] by (simp add: task_moves_def)
  moreover have "accept_step (?a True [Session, Handshake, Handshake] [SessionAccepted])
      (?a True [Session, Handshake, Finished] [SessionAccepted, SessionRejected])"
    using accept_step.rejected [of 2 "?a True [Session, Handshake, Handshake] [SessionAccepted]"] by (simp add: task_moves_def)
  moreover have "accept_step (?a True [Session, Handshake, Finished] [SessionAccepted, SessionRejected])
      (?a True [Session, Session, Finished] [SessionAccepted, SessionRejected, SessionAccepted])"
    using accept_step.accepted [of 1 "?a True [Session, Handshake, Finished] [SessionAccepted, SessionRejected]"]
    by (simp add: task_moves_def)
  moreover have "accept_step (?a True [Session, Session, Finished] [SessionAccepted, SessionRejected, SessionAccepted])
      (?a True [Finished, Session, Finished] [SessionAccepted, SessionRejected, SessionAccepted, SessionEnded])"
    using accept_step.closed [of 0 "?a True [Session, Session, Finished] [SessionAccepted, SessionRejected, SessionAccepted]"]
    by (simp add: task_moves_def)
  moreover have "accept_step (?a True [Finished, Session, Finished] [SessionAccepted, SessionRejected, SessionAccepted, SessionEnded])
      three_requests"
    using accept_step.no_more [of "?a True [Finished, Session, Finished] [SessionAccepted, SessionRejected, SessionAccepted, SessionEnded]"]
    by (simp add: three_requests_def)
  moreover note more [of "[]" "[]"] more [of "[Handshake]" "[]"] more [of "[Handshake, Handshake]" "[]"]
  ultimately show ?thesis unfolding 0 by (auto intro: converse_rtranclp_into_rtranclp)
qed

theorem subscriber_gauge_exact_witness:
  "unat (subscribers_live (shared_metrics three_requests)) = 1"
proof -
  have "length (tasks three_requests) < 2 ^ 64" "in_state Session three_requests = 1"
    by (simp_all add: three_requests_def in_state_def)
  then show ?thesis using subscriber_gauge_exact [OF three_requests_reachable] by simp
qed

section \<open>What the commands promise\<close>

text \<open>A client that cannot be set up leaves the directory as it is; a server that cannot be set up has set the
  relay up before, and the number of its first group is used.\<close>

lemma relay_main_refused: "\<not> a_ietf07 a \<Longrightarrow> relay_main False now_ms rnow now a d = (d, Inl Client_init)"
  by (simp add: relay_main_def)

lemma serve_main_no_server:
  "serve_main parse_addr certs keys version False now_ms rnow now a d = (d', r) \<Longrightarrow>
    r = Inl Server_init \<and> (\<exists>s. start_relay now_ms rnow now a d = (d', Inr s)) \<or>
    (\<exists>e. r = Inl (Setup e) \<and> start_relay now_ms rnow now a d = (d', Inl e))"
  by (auto simp: serve_main_def split: sum.splits prod.splits)

lemma serve_main_up:
  "serve_main parse_addr certs keys version True now_ms rnow now a d = (d', Inr v) \<Longrightarrow>
    start_relay now_ms rnow now a d = (d', Inr (v_pump v)) \<and>
    v_admin v = admin_listener parse_addr (a_metrics_bind a) \<and>
    (v_redirect v, v_landing v) = web_listeners parse_addr certs keys version a"
  by (auto simp: serve_main_def split: sum.splits prod.splits)

end
