(* ===== verification/Exposition.thy ===== *)
theory Exposition
  imports Web "HOL-Library.Sublist"
begin

text \<open>
  The exposition as a scraper reads it: line by line a table of series, each on exactly one sample line
  with its value. Also the sources of two of its gauges: the resident set from \<open>/proc/self/statm\<close>
  (\<open>metrics.rs\<close>) and the stubs of \<open>rust/crates/atmoq/src/heap.rs\<close> that a build without the
  \<open>profiling\<close> feature has.
\<close>

section \<open>Gauges from the process\<close>

definition process_rss_bytes :: "bytes option \<Rightarrow> u64 option" where
  "process_rss_bytes statm =
     (case statm of
        None \<Rightarrow> None
      | Some text \<Rightarrow>
          if \<not> utf8_valid text then None
          else case next_word text of
            None \<Rightarrow> None
          | Some (_, rest) \<Rightarrow>
              (case next_word rest of
                 None \<Rightarrow> None
               | Some (w, _) \<Rightarrow> map_option (\<lambda>pages. pages * 4096) (parse_u64 (to_text w))))"

definition heap_armed :: bool where
  "heap_armed = False"

definition heap_dump :: "string + string" where
  "heap_dump = Inl ''built without the `profiling` feature; rebuild with --features profiling''"

definition heap_stats :: "(nat \<times> nat \<times> nat \<times> nat \<times> nat) option" where
  "heap_stats = None"

section \<open>Lines\<close>

fun split_nl :: "string \<Rightarrow> string list" where
  "split_nl [] = [[]]"
| "split_nl (c # s) =
     (if c = CHR 0x0A then [] # split_nl s else (case split_nl s of l # ls \<Rightarrow> (c # l) # ls | [] \<Rightarrow> [[c]]))"

lemma split_nl_line: "CHR 0x0A \<notin> set l \<Longrightarrow> split_nl (l @ newline @ s) = l # split_nl s"
  by (induction l) (auto simp: newline_def)

lemma dec_no_newline [simp]: "CHR 0x0A \<notin> set (dec n)"
proof
  assume "CHR 0x0A \<in> set (dec n)"
  then have "is_digit (CHR 0x0A)" using dec_digits [of n] by blast
  then show False by (simp add: is_digit_def)
qed

lemma dec_int_no_newline [simp]: "CHR 0x0A \<notin> set (dec_int i)"
  by (simp add: dec_int_def)

section \<open>The exposition as a table\<close>

text \<open>What a scraper is to find: name, kind, help text and the text of the value, one entry per series, in the
  order of the exposition. The table is written out apart from the one the encoder walks.\<close>

definition samples :: "outside \<Rightarrow> u64 \<Rightarrow> metrics \<Rightarrow> (string \<times> kind \<times> string \<times> string) list" where
  "samples out now_ms m =
     [(''frames_total'', Counter, ''Frames relayed downstream.'', dec (unat (m_frames_total m))),
      (''frames_rejected_total'', Counter, ''Frames rejected at ingest as invalid.'', dec (unat (m_frames_rejected_total m))),
      (''frames_dropped_below_cursor_total'', Counter, ''Frames dropped as at-or-below the cursor.'', dec (unat (m_frames_dropped_below_cursor_total m))),
      (''upstream_error_frames_total'', Counter, ''Upstream error frames received.'', dec (unat (m_upstream_error_frames_total m))),
      (''upstream_connects_total'', Counter, ''Upstream websocket connections opened.'', dec (unat (m_upstream_connects_total m))),
      (''groups_total'', Counter, ''MoQ groups completed and published.'', dec (unat (m_groups_total m))),
      (''group_seq'', Gauge, ''Sequence of the most recent MoQ group.'', dec (unat (m_group_seq m))),
      (''subscribers_connected_total'', Counter, ''Subscriber sessions accepted.'', dec (unat (m_subscribers_connected_total m))),
      (''subscribers_disconnected_total'', Counter, ''Subscriber sessions closed.'', dec (unat (m_subscribers_disconnected_total m))),
      (''subscribers_rejected_total'', Counter, ''Subscriber sessions rejected during setup.'', dec (unat (m_subscribers_rejected_total m))),
      (''subscribers_live'', Gauge, ''Subscriber sessions currently connected.'', dec (unat (subscribers_live m))),
      (''did_tracks_opened_total'', Counter, ''Per-DID tracks materialized.'', dec (unat (m_did_tracks_opened_total m))),
      (''did_tracks_closed_total'', Counter, ''Per-DID tracks torn down.'', dec (unat (m_did_tracks_closed_total m))),
      (''did_tracks_refused_total'', Counter, ''Per-DID track requests refused at the cap.'', dec (unat (m_did_tracks_refused_total m))),
      (''did_tracks_live'', Gauge, ''Per-DID tracks currently served.'', dec (unat (did_tracks_live m))),
      (''store_append_bytes_total'', Counter, ''Bytes appended to the group store.'', dec (unat (m_store_append_bytes_total m))),
      (''store_append_failures_total'', Counter, ''Group store appends that failed.'', dec (unat (m_store_append_failures_total m))),
      (''store_groups_indexed'', Gauge, ''Groups currently in the store index.'', dec (unat (m_store_groups_indexed m))),
      (''store_bytes'', Gauge, ''Group store size on disk in bytes.'', dec (unat (m_store_bytes m))),
      (''store_gc_segments_removed_total'', Counter, ''Store segments deleted by GC.'', dec (unat (m_store_gc_segments_removed_total m))),
      (''backfill_groups_served_total'', Counter, ''Groups served from disk to resuming subscribers.'', dec (unat (m_backfill_groups_served_total m))),
      (''backfill_groups_missing_total'', Counter, ''Groups requested on resume that the store no longer had.'', dec (unat (m_backfill_groups_missing_total m)))] @
     [(''groups_in_flight'', Gauge, ''Groups queued for delivery to subscribers.'', dec (in_flight out)),
      (''groups_in_flight_max'', Gauge, ''High-water mark of groups queued for delivery.'', dec (in_flight_max out)),
      (''upstream_seq'', Gauge, ''Latest upstream sequence number seen.'', dec_int (m_upstream_seq m))] @
     (case frame_age_ms now_ms m of
        None \<Rightarrow> []
      | Some age \<Rightarrow>
          [(''last_frame_age_seconds'', Gauge, ''Seconds since the last relayed frame.'', o_seconds out age)]) @
     (case o_heap out of
        None \<Rightarrow> []
      | Some (allocated, active, resident, mapped, retained) \<Rightarrow>
          [(''jemalloc_allocated_bytes'', Gauge, ''Bytes currently allocated to the application.'', dec allocated),
           (''jemalloc_active_bytes'', Gauge, ''Bytes in active pages backing allocations.'', dec active),
           (''jemalloc_resident_bytes'', Gauge, ''Bytes the allocator holds resident from the OS.'', dec resident),
           (''jemalloc_mapped_bytes'', Gauge, ''Bytes mapped into the address space.'', dec mapped),
           (''jemalloc_retained_bytes'', Gauge, ''Bytes unmapped but retained for reuse.'', dec retained)]) @
     (case o_rss out of
        None \<Rightarrow> []
      | Some r \<Rightarrow> [(''process_resident_bytes'', Gauge, ''Process resident set size.'', dec r)])"

lemma encode_samples:
  "encode out now_ms m = concat (map (\<lambda>(name, kind, help, v). series_text name kind help v) (samples out now_ms m))"
  by (simp add: encode_def samples_def series_def split: option.split)

definition sample_line :: "string \<times> kind \<times> string \<times> string \<Rightarrow> string" where
  "sample_line = (\<lambda>(name, kind, help, v). ''atmoq_'' @ name @ '' '' @ v)"

definition entry_lines :: "string \<times> kind \<times> string \<times> string \<Rightarrow> string list" where
  "entry_lines = (\<lambda>(name, kind, help, v).
     [''# HELP atmoq_'' @ name @ '' '' @ help, ''# TYPE atmoq_'' @ name @ '' '' @ kind_text kind, sample_line (name, kind, help, v)])"

definition one_line :: "string \<times> kind \<times> string \<times> string \<Rightarrow> bool" where
  "one_line = (\<lambda>(name, kind, help, v). CHR 0x0A \<notin> set name \<union> set help \<union> set v)"

lemma series_text_lines:
  assumes "one_line e"
  shows "split_nl ((case e of (name, kind, help, v) \<Rightarrow> series_text name kind help v) @ s) = entry_lines e @ split_nl s"
proof -
  obtain name kind desc v where e: "e = (name, kind, desc, v)" by (cases e)
  let ?h = "''# HELP atmoq_'' @ name @ '' '' @ desc"
  let ?t = "''# TYPE atmoq_'' @ name @ '' '' @ kind_text kind"
  let ?v = "''atmoq_'' @ name @ '' '' @ v"
  have nl: "CHR 0x0A \<notin> set ?h" "CHR 0x0A \<notin> set ?t" "CHR 0x0A \<notin> set ?v"
    using assms by (auto simp: one_line_def e kind_text_def split: kind.split)
  have "series_text name kind desc v @ s = ?h @ newline @ ?t @ newline @ ?v @ newline @ s"
    by (simp add: series_text_def)
  then have "split_nl (series_text name kind desc v @ s) = ?h # ?t # ?v # split_nl s"
    by (simp only: split_nl_line [OF nl(1)] split_nl_line [OF nl(2)] split_nl_line [OF nl(3)])
  then show ?thesis by (simp add: e entry_lines_def sample_line_def)
qed

lemma samples_lines:
  assumes "\<forall>e \<in> set es. one_line e"
  shows "split_nl (concat (map (\<lambda>(name, kind, help, v). series_text name kind help v) es)) = concat (map entry_lines es) @ [[]]"
  using assms by (induction es) (simp_all add: series_text_lines)

section \<open>Scraping\<close>

lemma words_unique:
  assumes "CHR '' '' \<notin> set a" "CHR '' '' \<notin> set b"
  shows "prefix (a @ '' '') (b @ '' '' @ v) \<longleftrightarrow> a = b"
  using assms
proof (induction a arbitrary: b)
  case Nil
  then show ?case by (cases b) auto
next
  case (Cons c a)
  then show ?case by (cases b) auto
qed

text \<open>Names and help texts do not depend on the values.\<close>

definition plain :: "string \<Rightarrow> string \<Rightarrow> bool" where
  "plain name desc \<longleftrightarrow> CHR '' '' \<notin> set name \<and> CHR 0x0A \<notin> set name \<and> CHR 0x0A \<notin> set desc"

definition titles :: "(string \<times> kind \<times> string \<times> 'a) list \<Rightarrow> (string \<times> string) list" where
  "titles = map (\<lambda>(name, kind, help, v). (name, help))"

lemma titles_append [simp]: "titles (xs @ ys) = titles xs @ titles ys"
  by (simp add: titles_def)

definition full :: outside where
  "full = \<lparr>in_flight = 0, in_flight_max = 0, o_heap = Some (0, 0, 0, 0, 0), o_rss = Some 0, o_seconds = (\<lambda>_. [])\<rparr>"

definition titles_full :: "(string \<times> string) list" where
  "titles_full = titles (samples full 1 (metrics_default\<lparr>m_last_frame_unix_ms := 1\<rparr>))"

lemma titles_full_ok: "list_all (\<lambda>(n, h). plain n h) titles_full" "distinct (map fst titles_full)"
  by code_simp+

lemma titles_samples: "subseq (titles (samples out now_ms m)) titles_full"
  unfolding titles_full_def samples_def titles_append append_assoc [symmetric]
  unfolding append_assoc
  by (intro list_emb_append_mono) (simp_all add: full_def frame_age_ms_def titles_def split: option.split)

lemma samples_ok:
  assumes "\<forall>a. CHR 0x0A \<notin> set (o_seconds out a)"
  shows "\<forall>e \<in> set (samples out now_ms m). one_line e \<and> CHR '' '' \<notin> set (fst e)"
    and "distinct (map fst (samples out now_ms m))"
proof -
  have "CHR 0x0A \<notin> set v" if "(name, kind, desc, v) \<in> set (samples out now_ms m)" for name kind desc v
    using that assms by (auto simp: samples_def split: option.splits)
  moreover have "plain name desc" if "(name, kind, desc, v) \<in> set (samples out now_ms m)" for name kind desc v
  proof -
    have "(name, desc) \<in> set (titles (samples out now_ms m))" using that by (force simp: titles_def)
    then have "(name, desc) \<in> set titles_full"
      using list_emb_set [OF titles_samples [of out now_ms m]] by blast
    then show ?thesis using titles_full_ok(1) by (auto simp: list_all_iff)
  qed
  ultimately show "\<forall>e \<in> set (samples out now_ms m). one_line e \<and> CHR '' '' \<notin> set (fst e)"
    by (auto simp: one_line_def plain_def)
  have "map fst (samples out now_ms m) = map fst (titles (samples out now_ms m))"
    by (simp add: titles_def comp_def split_def)
  then show "distinct (map fst (samples out now_ms m))"
    using subseq_map [OF titles_samples [of out now_ms m], of fst] titles_full_ok(2)
    by (auto simp: subseq_conv_nths intro: distinct_nthsI)
qed

text \<open>The samples of a name among the lines of a table with distinct names.\<close>

lemma find_sample:
  assumes "\<forall>e \<in> set es. CHR '' '' \<notin> set (fst e)" "distinct (map fst es)" "e \<in> set es"
  shows "filter (prefix (''atmoq_'' @ fst e @ '' '')) (concat (map entry_lines es) @ [[]]) = [sample_line e]"
proof -
  define p where "p = prefix (''atmoq_'' @ fst e @ '' '')"
  have one: "filter p (entry_lines f) = (if fst f = fst e then [sample_line f] else [])" if "f \<in> set es" for f
    using words_unique [of "fst e" "fst f"] assms(1,3) that by (cases f) (auto simp: p_def entry_lines_def sample_line_def)
  have "filter p (concat (map entry_lines fs)) = map sample_line (filter (\<lambda>f. fst f = fst e) fs)" if "set fs \<subseteq> set es" for fs
    using that by (induction fs) (simp_all add: one)
  moreover have "filter (\<lambda>f. fst f = fst e) es = [e]"
    using assms(2,3) by (induction es) (force simp: filter_empty_conv)+
  moreover have "\<not> p []" by (simp add: p_def)
  ultimately show ?thesis unfolding p_def [symmetric] by simp
qed

text \<open>C30: the exposition is, line by line, the table: for every series its help, its type and its sample, and
  nothing else; so a scraper that looks a series up by its name finds it on exactly one line, with its
  value.\<close>

theorem exposition_scrapes:
  assumes "\<forall>a. CHR 0x0A \<notin> set (o_seconds out a)"
  shows "split_nl (encode out now_ms m) = concat (map entry_lines (samples out now_ms m)) @ [[]] \<and>
    distinct (map fst (samples out now_ms m)) \<and>
    (\<forall>e \<in> set (samples out now_ms m).
       filter (prefix (''atmoq_'' @ fst e @ '' '')) (split_nl (encode out now_ms m)) = [sample_line e])"
proof -
  note ok = samples_ok [OF assms, of now_ms m]
  have lines: "split_nl (encode out now_ms m) = concat (map entry_lines (samples out now_ms m)) @ [[]]"
    unfolding encode_samples by (rule samples_lines) (use ok(1) in blast)
  show ?thesis unfolding lines using find_sample [OF _ ok(2)] ok by blast
qed

text \<open>A counter and a process gauge are read back.\<close>

theorem exposition_scrapes_witness:
  "filter (prefix ''atmoq_subscribers_live '') (split_nl (encode full 7 (metrics_default\<lparr>m_subscribers_connected_total := 3\<rparr>))) =
    [''atmoq_subscribers_live 3''] \<and>
   filter (prefix ''atmoq_process_resident_bytes '') (split_nl (encode full 7 metrics_default)) =
    [''atmoq_process_resident_bytes 0'']"
proof -
  let ?m = "metrics_default\<lparr>m_subscribers_connected_total := 3\<rparr>"
  have dec: "dec 3 = ''3''" "dec 0 = ''0''" by code_simp+
  have s: "(''subscribers_live'', Gauge, ''Subscriber sessions currently connected.'', ''3'') \<in> set (samples full 7 ?m)"
    "(''process_resident_bytes'', Gauge, ''Process resident set size.'', ''0'') \<in> set (samples full 7 metrics_default)"
    by (simp_all add: samples_def subscribers_live_def metrics_default_def full_def dec)
  note find = exposition_scrapes [THEN conjunct2, THEN conjunct2, rule_format, of full]
  show ?thesis using find [OF _ s(1)] find [OF _ s(2)] by (simp add: full_def sample_line_def)
qed

end
