(* ===== verification/Process.thy ===== *)
theory Process
  imports Relay_Start Exposition Consumer
begin

text \<open>
  The process around the commands: the allocator statistics and heap profiles of a build with the
  \<open>profiling\<close> feature (\<open>rust/crates/atmoq/src/heap.rs\<close>), and the entry point of
  \<open>rust/crates/atmoq/src/main.rs\<close>: dispatch, the choice of the log format and of the span exporter, and
  the signals that stop the pump. What the allocator library, OpenTelemetry and the operating system
  answer is input.
\<close>

section \<open>The profiling allocator\<close>

record alloc_stats =
  allocated :: u64
  active :: u64
  resident :: u64
  mapped :: u64
  retained :: u64

text \<open>What the control calls of the allocator give; \<open>al_dump\<close> says whether it wrote a profile to a path, and
  \<open>al_profile\<close> what can be read back from there.\<close>

record allocator =
  al_opt_prof :: "bool option"
  al_epoch :: bool
  al_allocated :: "u64 option"
  al_active :: "u64 option"
  al_resident :: "u64 option"
  al_mapped :: "u64 option"
  al_retained :: "u64 option"
  al_dump :: "bytes \<Rightarrow> bool"
  al_profile :: "bytes \<Rightarrow> bytes option"

definition profiling_armed :: "allocator \<Rightarrow> bool" where
  "profiling_armed al = (case al_opt_prof al of Some b \<Rightarrow> b | None \<Rightarrow> False)"

definition path_join :: "bytes \<Rightarrow> bytes \<Rightarrow> bytes" where
  "path_join dir name = (if dir = [] \<or> last dir = 0x2F then dir @ name else dir @ 0x2F # name)"

definition profile_path :: "bytes \<Rightarrow> nat \<Rightarrow> bytes" where
  "profile_path temp_dir pid = path_join temp_dir (of_text (''atmoq-heap-'' @ dec pid @ ''.prof''))"

definition profiling_dump :: "allocator \<Rightarrow> bytes \<Rightarrow> nat \<Rightarrow> string + string" where
  "profiling_dump al temp_dir pid =
     (if \<not> profiling_armed al then
        Inl (''jemalloc profiling is compiled in but not armed '' @ [char_of (0xE2 :: nat), char_of (0x80 :: nat), char_of (0x94 :: nat)] @
          '' something overrode the built-in config; check _RJEM_MALLOC_CONF in the '' @
          ''environment (note the prefix: MALLOC_CONF has no effect)'')
      else
        let path = profile_path temp_dir pid in
        if \<not> utf8_valid path then Inl ''profile path is not utf-8''
        else if 0 \<in> set path then Inl ''profile path has an interior nul''
        else if \<not> al_dump al path then Inl ''jemalloc prof.dump failed''
        else case al_profile al path of
          None \<Rightarrow> Inl (''reading heap profile from '' @ to_text path)
        | Some data \<Rightarrow>
            if utf8_valid data then Inr (to_text data) else Inl (''reading heap profile from '' @ to_text path))"

definition profiling_stats :: "allocator \<Rightarrow> alloc_stats option" where
  "profiling_stats al =
     (if \<not> al_epoch al then None
      else case al_allocated al of None \<Rightarrow> None | Some a \<Rightarrow>
      (case al_active al of None \<Rightarrow> None | Some b \<Rightarrow>
      (case al_resident al of None \<Rightarrow> None | Some c \<Rightarrow>
      (case al_mapped al of None \<Rightarrow> None | Some m \<Rightarrow>
      (case al_retained al of None \<Rightarrow> None | Some r \<Rightarrow>
         Some \<lparr>allocated = a, active = b, resident = c, mapped = m, retained = r\<rparr>)))))"

text \<open>The gauges the exposition gets.\<close>

definition stats_gauges :: "alloc_stats \<Rightarrow> nat \<times> nat \<times> nat \<times> nat \<times> nat" where
  "stats_gauges s = (unat (allocated s), unat (active s), unat (resident s), unat (mapped s), unat (retained s))"

definition profiling_outside :: "allocator \<Rightarrow> outside \<Rightarrow> outside" where
  "profiling_outside al out = out\<lparr>o_heap := map_option stats_gauges (profiling_stats al)\<rparr>"

section \<open>Telemetry\<close>

datatype log_writer = Logfmt | Plain bool

definition log_layer :: "string option \<Rightarrow> bool \<Rightarrow> log_writer" where
  "log_layer format ansi =
     (let logfmt =
        (case format of
           Some f \<Rightarrow> if f = ''logfmt'' then True else if f = ''text'' then False else \<not> ansi
         | None \<Rightarrow> \<not> ansi) in
      if logfmt then Logfmt else Plain ansi)"

definition tracer_provider :: "(string \<Rightarrow> 'e + 'p) \<Rightarrow> string option \<Rightarrow> 'p option" where
  "tracer_provider build endpoint =
     (case endpoint of
        Some e \<Rightarrow> if e \<noteq> [] then (case build e of Inr p \<Rightarrow> Some p | Inl _ \<Rightarrow> None) else None
      | None \<Rightarrow> None)"

section \<open>The entry point\<close>

datatype command = FirehoseCmd firehose_args | RelayCmd relay_args | ServeCmd serve_args

text \<open>The result of the command, and the provider that was shut down behind it.\<close>

definition atmoq_main :: "(firehose_args \<Rightarrow> 'r) \<Rightarrow> (relay_args \<Rightarrow> 'r) \<Rightarrow> (serve_args \<Rightarrow> 'r) \<Rightarrow> 'p option \<Rightarrow> command \<Rightarrow>
    'r \<times> 'p option" where
  "atmoq_main firehose relay serve provider cmd =
     (let result = (case cmd of FirehoseCmd a \<Rightarrow> firehose a | RelayCmd a \<Rightarrow> relay a | ServeCmd a \<Rightarrow> serve a) in
      (result, provider))"

datatype os_signal = Interrupt | Terminate

text \<open>Whether a signal ends the wait; \<open>term_ok\<close> says whether the listener for SIGTERM could be installed.\<close>

definition shutdown_signal :: "bool \<Rightarrow> os_signal \<Rightarrow> bool" where
  "shutdown_signal term_ok sig = (case sig of Interrupt \<Rightarrow> True | Terminate \<Rightarrow> term_ok)"

section \<open>What they promise\<close>

lemma no_colour_off_terminal: "log_layer format False \<noteq> Plain True"
  by (auto simp: log_layer_def Let_def split: option.splits if_splits)

lemma stats_all_or_none:
  "profiling_stats al = Some s \<longleftrightarrow> al_epoch al \<and> al_allocated al = Some (allocated s) \<and> al_active al = Some (active s) \<and>
    al_resident al = Some (resident s) \<and> al_mapped al = Some (mapped s) \<and> al_retained al = Some (retained s)"
  by (cases s) (auto simp: profiling_stats_def split: option.splits)

text \<open>The heap endpoint of a profiling build answers 200 exactly when the allocator is armed, wrote the
  profile to a proper path and it reads back as text; every other outcome is a 501.\<close>

lemma heap_endpoint:
  "fst (admin_route seconds out (profiling_dump al temp_dir pid) now_ms ''/debug/heap'' m) =
     (if profiling_armed al \<and> utf8_valid (profile_path temp_dir pid) \<and> 0 \<notin> set (profile_path temp_dir pid) \<and>
         al_dump al (profile_path temp_dir pid) \<and>
         (case al_profile al (profile_path temp_dir pid) of Some data \<Rightarrow> utf8_valid data | None \<Rightarrow> False)
      then ''200 OK'' else ''501 Not Implemented'')"
  by (simp add: admin_route_def profiling_dump_def Let_def split: option.split)

end
