(* ===== verification/Spec2Isabelle.thy ===== *)
theory Spec2Isabelle
  imports Durability Drisl_Properties Frame Car Store_Properties Track_Properties State_Lemmas
    Publisher_Properties Router_Properties Ingest Pump_Properties
    Resume Reload Crash Cursor_File End_To_End Restart End_To_End07 Restart07 Session07
    Store_Failures Publisher_Failures
    Web_Properties Serve Process
begin

text \<open>
  A model of \<^bold>\<open>atmoq\<close>, a relay that takes the atproto firehose from a WebSocket and republishes it as
  tracks of Media over QUIC, with the theorems that make it correct. Paths below are relative to
  \<open>src/rust/crates/atmoq/src\<close> unless they start with \<open>vendor\<close> (\<open>src/rust/vendor/moq-net/src\<close>).

  \<^bold>\<open>The program.\<close> Upstream ingest (\<open>ingest.rs\<close>) reads frames from a WebSocket, parses each (\<open>frame.rs\<close>,
  which validates two DRISL items with \<open>drisl.rs\<close>) and sends it into a channel. The pump (\<open>main.rs\<close>)
  takes frames from it, drops those at or below the cursor, hands each to the per-account router
  (\<open>router.rs\<close>) and to the publisher (\<open>main.rs\<close>). The publisher cuts the stream into numbered groups:
  it writes frames into the live track cache (\<open>vendor/model\<close>), stores finished groups on disk
  (\<open>store.rs\<close>), and keeps the next group number in a small file, so that after a restart numbers
  are never reused. A subscriber reads the live cache; one that resumes below it is served from disk
  first (\<open>vendor/lite/publisher.rs\<close>). The \<open>firehose\<close> command is the consumer: it resubscribes for
  ever, drops what it has seen, and prints events as JSON (\<open>json.rs\<close>, \<open>car.rs\<close>). Beside it all run the
  HTTP frontends (\<open>web.rs\<close>) and the metrics (\<open>metrics.rs\<close>). The alternative draft-07 dialect is
  \<open>dialect07.rs\<close>.

  \<^bold>\<open>Theories, in the order of the dependencies.\<close>
  \<^item> \<open>Prelude\<close>: widths, results, reads in range, big- and little-endian numbers, decimal text.
    \<open>Codec\<close>: the locales \<open>prefix_code\<close> and \<open>stream_codec\<close>, what a self-delimiting encoding and its decoder
    promise; interpreted by the DRISL text and item encodings, LEB128 numbers, the frames of a stored
    group and the records of a segment. \<open>Utf8\<close>, \<open>Ordered_Map\<close>: the standard library's checks and maps.
  \<^item> \<open>Drisl\<close> (\<open>drisl.rs\<close>, every function): the validator with its panics as values. \<open>Drisl_Grammar\<close>:
    values and their deterministic encoding; \<open>Drisl_Correct\<close>, \<open>Drisl_Properties\<close>: it accepts exactly the
    encodings, never panics, and refuses nesting beyond 128.
  \<^item> \<open>Cbor_Value\<close>, \<open>Frame\<close> (\<open>frame.rs\<close>), \<open>Car\<close> (\<open>car.rs\<close>), \<open>Json\<close> (\<open>json.rs\<close>): what is decoded and how it
    is shown. The CBOR decoder is a parameter, a partial function from bytes to values.
  \<^item> \<open>Store\<close> (\<open>store.rs\<close>, every operation) over a directory that is a list of files; \<open>Store_Records\<close>,
    \<open>Store_Index\<close>, \<open>Store_Ops\<close>, \<open>Store_Recovery\<close>, \<open>Store_GC\<close>, \<open>Store_Names\<close>: one lemma per operation
    against the abstract list of records of each segment; \<open>Store_Run\<close>, \<open>Store_Properties\<close>: all lives of a
    store with crashes at any byte of an append, refined by a map from sequences to groups.
    \<open>Store_Failures\<close>: what follows an append that fails in a living process, and a crash on the first
    record of a new segment.
  \<^item> \<open>Group_Cache\<close>, \<open>Track_Cache\<close>, \<open>Track_Properties\<close> (\<open>vendor/model/group.rs\<close>, \<open>track.rs\<close>): the live cache,
    its eviction, and consumers as positions in it; waiting is the value \<open>Pending\<close>.
  \<^item> \<open>Metrics\<close>, \<open>Exposition\<close> (\<open>metrics.rs\<close>, the stubs in \<open>heap.rs\<close>): counters, derived gauges and the
    text a scraper reads.
  \<^item> \<open>State_Files\<close>, \<open>State_Lemmas\<close> (\<open>main.rs\<close>): the sequence and cursor files, replaced through a rename.
  \<^item> \<open>Publisher\<close> (\<open>main.rs\<close>: \<open>build_lite_publisher\<close>, \<open>FramePublisher\<close>, \<open>StoreSource\<close>); \<open>Publisher_Cache\<close>,
    \<open>Publisher_Run\<close>, \<open>Publisher_Properties\<close>: the relation \<open>relay_run\<close> of all lives of a publisher over one
    directory, with a ghost history of what was published under each number. \<open>Publisher_Failures\<close>: a
    relay that goes on over a full disk.
  \<^item> \<open>Router\<close>, \<open>Router_Properties\<close> (\<open>router.rs\<close>): request loop, watchers and routing as interleaved
    operations on one map. \<open>Ingest\<close> (\<open>ingest.rs\<close>, \<open>spawn_ingest\<close>): the read loop as events with clock
    readings, and the backoff.
  \<^item> \<open>Event_Loop\<close>: what is relayed of a list of events, and the locale \<open>frame_pump\<close>, what a main loop
    promises of its single turns; interpreted by both pumps, for the stream they publish and again for
    the cursor they leave on disk. \<open>Relay_Steps\<close>: the relation \<open>run_step\<close>, what may happen to a relay
    between two moments of a run, and its invariant.
  \<^item> \<open>Pump\<close>, \<open>Pump_Run\<close>, \<open>Pump_Properties\<close> (\<open>pump\<close> in \<open>main.rs\<close>): the main loop over any list of events,
    with what is relayed as a function of its input. \<open>Pump07\<close>: the same loop over the draft-07 publisher,
    whose write may take for ever.
  \<^item> \<open>Backfill\<close> (\<open>vendor/lite/publisher.rs\<close>: \<open>run_track\<close>, \<open>serve_group\<close>): replay from disk. The locale
    \<open>group_source\<close> is the interface between the vendored publisher and the relay's store, interpreted by
    \<open>StoreSource\<close>. \<open>Resume\<close>: a whole subscription while the relay goes on. \<open>Reload\<close>: what a restart puts
    back into the live cache. \<open>Durability\<close>: what a directory holds over any number of lives, as a function
    of the directory alone.
  \<^item> \<open>Crash\<close>: the groups that are left of a run killed between two turns. \<open>Cursor_File\<close>, \<open>Torn_Turn\<close>: the
    cursor and the directory a run leaves that dies inside a turn, its writes cut off at any byte.
    \<open>Upstream\<close>: upstream as a list of messages, all numbered, that a run takes up behind its cursor;
    \<open>Restart\<close>, \<open>Restart07\<close>: two lives of the relay, with a death or a clean stop between them, and one
    consumer with its printer.
  \<^item> \<open>Consumer\<close>, \<open>Consumer_Properties\<close> (\<open>firehose\<close>, \<open>moq_reader\<close>, \<open>print_events\<close>, \<open>print_ops\<close> in
    \<open>main.rs\<close>); \<open>End_To_End\<close>, \<open>End_To_End07\<close>: pump, reader and printer composed, over either dialect.
  \<^item> \<open>Dialect07\<close>, \<open>Session07\<close> (\<open>dialect07.rs\<close>): writing and reading over sessions that fail, and the setting
    up of one. \<open>Web\<close>, \<open>Web_Properties\<close>, \<open>Listeners\<close> (\<open>web.rs\<close>): requests and answers, then the three
    listeners with their set-up and accept loops. \<open>Relay_Start\<close>, \<open>Serve\<close> (\<open>relay\<close>, \<open>serve\<close> in \<open>main.rs\<close>): the
    commands up to the main loop, and the interleaving of the server's accept loop with its session
    tasks (\<open>accept_step\<close>). \<open>Process\<close> (\<open>heap.rs\<close>, \<open>main\<close>): heap profiles, the
    choice of logs and exporter, dispatch and stop signals.

  \<^bold>\<open>What the theorems show.\<close> From upstream to the printed line every numbered frame arrives once, in
  order and unchanged, over rotations, restarts, resubscriptions and replays (\<open>Pump_Properties\<close>,
  \<open>Consumer_Properties\<close>, \<open>End_To_End\<close>); a frame without a number, which the relay passes on, is printed each
  time it is read again. What is replayed under a number is what was published under it
  (\<open>Publisher_Properties\<close>, on top of \<open>Store_Properties\<close>), a finished group is
  kept until it is collected (\<open>Durability\<close>), and the replay of a
  resuming subscriber meets the live cache without gap or overlap while the relay goes on, and ends, as
  long as every group fits a cached one (\<open>Backfill\<close>, \<open>Resume\<close>); a start succeeds on what such lives left
  (\<open>Relay_Start\<close>). A kill between
  two turns costs the frames of the group in progress on disk and nothing else (\<open>Crash\<close>); wherever the
  process dies, the cursor left behind is never ahead of what was relayed (\<open>Cursor_File\<close>), and a consumer
  of both lives still gets every frame once (\<open>Restart\<close>). Over draft-07 the same holds of what the sessions accept, also when the process
  dies inside a write (\<open>Pump07\<close>, \<open>End_To_End07\<close>, \<open>Restart07\<close>), and group ids ascend over all sessions as
  long as none makes groups faster than the clock counts milliseconds (\<open>Session07\<close>). Accepted means taken
  by the session layer; what a session that dies has delivered of it is that layer's affair. Each component keeps its invariant under all its
  operations, and the outcome of an operation is stated on its error paths as well.

  \<^bold>\<open>The scope of the disk.\<close> What the theorems say of stored groups, group numbers and starts holds of the
  lives in \<open>store_run\<close> and \<open>relay_run\<close>: the disk takes every write of a process that lives on, and a
  process dies where it likes, at any byte of a write, except in the first write to a new segment file
  behind older ones. The operations themselves are modelled with writes that fail at any byte, and the
  code logs such a failure and goes on; \<open>Store_Failures\<close> and \<open>Publisher_Failures\<close> show that the promises
  then break: the next group stored cannot be read, a collection leaves index entries of what it removed,
  and a restart uses a group number again. In \<open>Cursor_File\<close> the last turn may have
  any of its writes refused, whether the process dies in it or not; the draft-07 path has no store.

  \<^bold>\<open>Where the code does not do what it means to\<close>, a theorem shows the behaviour: appending after a failed
  append, a collection over an emptied segment, a group number used again after a full disk, a stored
  group hidden by a restart after the wall clock was set
  back, the gauge of live account tracks, groups larger than the cache,
  IPv6 hosts in the redirect, the wrap of an unsigned op, a stop signal during a draft-07 write.

  \<^bold>\<open>Conventions.\<close> Machine integers are words and wrap; the code's reads out of bounds and failing
  \<open>expect\<close>s are values, excluded by theorems. Shared mutable objects (groups, the routing map, the
  metrics) are explicit heaps or one state. Time, file system outcomes and the network are inputs:
  clocks are arguments, a write may stop after any number of bytes, connections yield lists of
  events. No definition uses fuel: recursion is structural or has a measure (the bytes left to read,
  the depth left of \<open>MAX_DEPTH\<close>, the sequence numbers left below 2 ^ 64); loops of the code that run
  for ever are functions of the finite list of events they have seen. Simplified are: the
  removal of a segment file by a collection, whose failure the code ignores, always succeeds; the rename
  at the end of a state file's write does not fail on its own, and names are flat, so the temporary
  name is the name without its extension, followed by \<open>.tmp\<close>; whether files may be opened is one answer for the
  whole directory; the replay reads the floor of the cache and a stored group in one turn.

  \<^bold>\<open>Not modelled.\<close> The installation of log layers and exporters and command-line parsing in \<open>main.rs\<close>,
  which only call \<open>tracing\<close>, OpenTelemetry and \<open>clap\<close>; sockets, TLS, the MoQ client and server and the
  WebSocket library, of which the model has only whether they come up and what they deliver; the allocator and the operating system, whose answers are inputs; the rest of the vendored \<open>moq-net\<close>
  (session setup, wire coding, announcements, priorities, the tasks that deliver groups); tests, and the
  Go and TypeScript clients.
\<close>

end
